(* ===== verification/Modbus_Prelude.thy ===== *)
theory Modbus_Prelude
  imports Main "HOL-Library.Word"
begin

text \<open>
  Shared ground of the development: the machine types of the crate, the outcome of a
  fallible Rust expression (a value, an error, or a panic), the byte-cursor and byte-buffer
  operations of the \<open>bytes\<close> API the source uses (\<open>get_u8\<close>, \<open>get_u16\<close>, \<open>put_u8\<close>,
  \<open>put_u16\<close>, \<open>put_u16_le\<close>), the standard-library slice helpers (\<open>chunks\<close>, \<open>div_ceil\<close>,
  \<open>checked_mul\<close>) and decimal and hexadecimal formatting, with the generic lemmas on words,
  bits and lists that the component theories share.  Nothing in this theory models a line
  of the crate itself.
\<close>

unbundle bit_operations_syntax

section \<open>Machine types\<close>

type_synonym u8 = "8 word"
type_synonym u16 = "16 word"
type_synonym u32 = "32 word"
type_synonym u64 = "64 word"
type_synonym bytes = "u8 list"

text \<open>
  \<open>usize\<close> values are lengths and indices of in-memory buffers and are modelled as \<open>nat\<close>;
  the one place where the source guards a \<open>usize\<close> multiplication writes the bound out.
\<close>

definition USIZE_MAX :: nat where
  "USIZE_MAX = 2 ^ 64 - 1"

definition checked_mul_usize :: "nat \<Rightarrow> nat \<Rightarrow> nat option" where
  "checked_mul_usize a b = (if a * b \<le> USIZE_MAX then Some (a * b) else None)"

definition div_ceil :: "nat \<Rightarrow> nat \<Rightarrow> nat" where
  "div_ceil a b = (if a mod b = 0 then a div b else a div b + 1)"

section \<open>Collections of facts\<close>

named_theorems outcome_simps \<open>inversion of bound outcomes\<close>
named_theorems no_panic \<open>expressions that do not panic\<close>
named_theorems wire_simps \<open>lengths and values of encoded byte sequences\<close>

section \<open>Input/output errors\<close>

text \<open>The kinds of \<open>std::io::ErrorKind\<close> the crate names; \<open>OtherKind\<close> is any other one.\<close>

datatype io_kind =
    InvalidData | UnexpectedEof | TimedOut | WouldBlock | ConnectionRefused
  | ConnectionReset | ConnectionAborted | BrokenPipe | NotConnected | OtherKind

datatype io_error = IoError (err_kind: io_kind) (err_msg: string)

section \<open>Outcomes: value, error or panic\<close>

datatype 'a outcome = Ok 'a | Err io_error | Panic

primrec obind :: "'a outcome \<Rightarrow> ('a \<Rightarrow> 'b outcome) \<Rightarrow> 'b outcome" where
  "obind (Ok x) f = f x"
| "obind (Err e) f = Err e"
| "obind Panic f = Panic"

primrec is_ok :: "'a outcome \<Rightarrow> bool" where
  "is_ok (Ok x) = True"
| "is_ok (Err e) = False"
| "is_ok Panic = False"

lemma is_ok_iff: "is_ok m \<longleftrightarrow> (\<exists>x. m = Ok x)"
  by (cases m) auto

lemma obind_Ok_iff [outcome_simps]: "obind m f = Ok y \<longleftrightarrow> (\<exists>x. m = Ok x \<and> f x = Ok y)"
  by (cases m) auto

lemma obind_Panic_iff [outcome_simps]:
  "obind m f = Panic \<longleftrightarrow> m = Panic \<or> (\<exists>x. m = Ok x \<and> f x = Panic)"
  by (cases m) auto

lemma obind_assoc: "obind (obind m f) g = obind m (\<lambda>x. obind (f x) g)"
  by (cases m) auto

lemma obind_not_Panic [no_panic]:
  "m \<noteq> Panic \<Longrightarrow> (\<And>x. m = Ok x \<Longrightarrow> f x \<noteq> Panic) \<Longrightarrow> obind m f \<noteq> Panic"
  by (cases m) auto

lemma obind_cong [fundef_cong]:
  "m = m' \<Longrightarrow> (\<And>x. m' = Ok x \<Longrightarrow> f x = f' x) \<Longrightarrow> obind m f = obind m' f'"
  by (cases m') auto

section \<open>Bytes and big-endian words\<close>

definition be16 :: "u8 \<Rightarrow> u8 \<Rightarrow> u16" where
  "be16 h l = push_bit 8 (ucast h) OR ucast l"

definition hi8 :: "u16 \<Rightarrow> u8" where
  "hi8 w = ucast (drop_bit 8 w)"

definition lo8 :: "u16 \<Rightarrow> u8" where
  "lo8 w = ucast w"

text \<open>The values of a half byte, or the bit positions of a 16-bit word.\<close>

lemma below_16: "n < 16 \<Longrightarrow> n \<in> {15, 14, 13, 12, 11, 10, 9, 8, 7, 6, 5, 4, 3, 2, 1, 0 :: nat}"
  unfolding insert_iff empty_iff by presburger

lemma bit_u8_less: "bit (b :: u8) n \<Longrightarrow> n < 8"
  using bit_imp_le_length [of b n] by simp

lemma bit_u8_ge: "8 \<le> n \<Longrightarrow> \<not> bit (b :: u8) n"
  using bit_u8_less [of b n] by auto

lemma bit_be16: "bit (be16 h l) n \<longleftrightarrow> (if n < 8 then bit l n else n < 16 \<and> bit h (n - 8))"
  by (auto simp: be16_def bit_simps dest: bit_imp_le_length)

lemma bit_hi8: "bit (hi8 w) n \<longleftrightarrow> n < 8 \<and> bit w (n + 8)"
  by (auto simp: hi8_def bit_simps add.commute)

lemma bit_lo8: "bit (lo8 w) n \<longleftrightarrow> n < 8 \<and> bit w n"
  by (auto simp: lo8_def bit_simps)

lemma be16_hi_lo [simp]: "be16 (hi8 w) (lo8 w) = w"
  by (rule bit_word_eqI) (auto simp: bit_be16 bit_hi8 bit_lo8)

lemma hi8_be16 [simp]: "hi8 (be16 h l) = h"
  by (rule bit_word_eqI) (auto simp: bit_be16 bit_hi8)

lemma lo8_be16 [simp]: "lo8 (be16 h l) = l"
  by (rule bit_word_eqI) (auto simp: bit_be16 bit_lo8)

lemma be16_eq_iff [simp]: "be16 h l = be16 h' l' \<longleftrightarrow> h = h' \<and> l = l'"
  by (metis hi8_be16 lo8_be16)

lemma unat_u8_less [simp]: "unat (b :: u8) < 256"
  using unsigned_less [of b] by simp

lemma unat_u16_less [simp]: "unat (w :: u16) < 65536"
  using unsigned_less [of w] by simp

lemma unat_be16: "unat (be16 h l) = 256 * unat h + unat l"
proof -
  have "be16 h l = push_bit 8 (ucast h) + ucast l"
    unfolding be16_def
    by (rule disjunctive_add_eq_or [symmetric], rule bit_word_eqI)
      (auto simp: bit_simps bit_u8_ge)
  moreover have "unat (ucast b :: u16) = unat (b :: u8)" for b
    by (simp add: unsigned_ucast_eq take_bit_nat_eq_self order.strict_trans [OF unat_u8_less])
  ultimately show ?thesis
    using unat_u8_less [of h] unat_u8_less [of l]
    by (simp add: unat_word_ariths push_bit_eq_mult del: unat_u8_less)
qed

lemma be16_eq_0_iff: "be16 h l = 0 \<longleftrightarrow> h = 0 \<and> l = 0"
proof -
  have "be16 0 0 = 0" by (simp add: be16_def)
  then show ?thesis by (metis be16_eq_iff)
qed

section \<open>Byte buffers and cursors\<close>

text \<open>A growing buffer is the list of its bytes; a put appends.\<close>

definition put_u8 :: "bytes \<Rightarrow> u8 \<Rightarrow> bytes" where
  "put_u8 buf b = buf @ [b]"

definition put_u16 :: "bytes \<Rightarrow> u16 \<Rightarrow> bytes" where
  "put_u16 buf w = buf @ [hi8 w, lo8 w]"

definition put_u16_le :: "bytes \<Rightarrow> u16 \<Rightarrow> bytes" where
  "put_u16_le buf w = buf @ [lo8 w, hi8 w]"

definition put_slice :: "bytes \<Rightarrow> bytes \<Rightarrow> bytes" where
  "put_slice buf bs = buf @ bs"

lemmas put_defs = put_u8_def put_u16_def put_u16_le_def put_slice_def

text \<open>A read cursor is the list of the bytes that remain; an unchecked read past the end
  panics, as in the \<open>bytes\<close> crate's documentation of \<open>get_u8\<close> and \<open>get_u16\<close>.\<close>

fun get_u8 :: "bytes \<Rightarrow> (u8 \<times> bytes) outcome" where
  "get_u8 [] = Panic"
| "get_u8 (b # bs) = Ok (b, bs)"

fun get_u16 :: "bytes \<Rightarrow> (u16 \<times> bytes) outcome" where
  "get_u16 (h # l # bs) = Ok (be16 h l, bs)"
| "get_u16 _ = Panic"

text \<open>The loop \<open>for _ in 0..n { v.push(data.get_u16()) }\<close>.\<close>

fun get_u16s :: "nat \<Rightarrow> bytes \<Rightarrow> (u16 list \<times> bytes) outcome" where
  "get_u16s 0 data = Ok ([], data)"
| "get_u16s (Suc n) data =
     obind (get_u16 data) (\<lambda>(w, data). obind (get_u16s n data) (\<lambda>(ws, data). Ok (w # ws, data)))"

definition u16_bytes :: "u16 list \<Rightarrow> bytes" where
  "u16_bytes ws = concat (map (\<lambda>w. [hi8 w, lo8 w]) ws)"

lemma u16_bytes_simps [simp]:
  "u16_bytes [] = []" "u16_bytes (w # ws) = hi8 w # lo8 w # u16_bytes ws"
  by (simp_all add: u16_bytes_def)

lemma length_u16_bytes [simp]: "length (u16_bytes ws) = 2 * length ws"
  by (induction ws) auto

lemma fold_put_u16: "fold (\<lambda>w buf. put_u16 buf w) ws buf = buf @ u16_bytes ws"
  by (induction ws arbitrary: buf) (auto simp: put_u16_def)

lemma get_u16s_u16_bytes [simp]: "get_u16s (length ws) (u16_bytes ws @ rest) = Ok (ws, rest)"
  by (induction ws) auto

lemma get_u16_not_Panic [no_panic]: "2 \<le> length data \<Longrightarrow> get_u16 data \<noteq> Panic"
  by (cases data rule: get_u16.cases) auto

lemma get_u16_Ok_iff: "get_u16 data = Ok (w, rest) \<longleftrightarrow> data = hi8 w # lo8 w # rest"
  by (cases data rule: get_u16.cases) auto

lemma get_u16s_Ok_iff:
  "get_u16s n data = Ok (ws, rest) \<longleftrightarrow> length ws = n \<and> data = u16_bytes ws @ rest"
proof (induction n arbitrary: data ws)
  case 0
  then show ?case by auto
next
  case (Suc n)
  then show ?case
    by (cases ws) (auto simp: outcome_simps get_u16_Ok_iff)
qed

lemma get_u16s_not_Panic [no_panic]: "2 * n \<le> length data \<Longrightarrow> get_u16s n data \<noteq> Panic"
proof (induction n arbitrary: data)
  case 0
  then show ?case by simp
next
  case (Suc n)
  then obtain h l rest where data: "data = h # l # rest"
    by (cases data rule: get_u16.cases) auto
  with Suc.prems have "get_u16s n rest \<noteq> Panic" by (intro Suc.IH) simp
  with data show ?case by (auto simp: outcome_simps)
qed

section \<open>Chunks and packed bits\<close>

text \<open>\<open>slice.chunks(n)\<close>: consecutive pieces of \<open>n\<close> elements, the last one possibly shorter.\<close>

function chunks :: "nat \<Rightarrow> 'a list \<Rightarrow> 'a list list" where
  "chunks n xs = (if xs = [] \<or> n = 0 then [] else take n xs # chunks n (drop n xs))"
  by pat_completeness auto
termination by (relation "measure (\<lambda>(n, xs). length xs)") auto

declare chunks.simps [simp del]

lemma chunks_Nil [simp]: "chunks n [] = []"
  by (simp add: chunks.simps)

lemma chunks_step: "xs \<noteq> [] \<Longrightarrow> 0 < n \<Longrightarrow> chunks n xs = take n xs # chunks n (drop n xs)"
  by (simp add: chunks.simps)

lemma div_ceil_0 [simp]: "div_ceil 0 b = 0"
  by (simp add: div_ceil_def)

lemma div_ceil_step: "0 < a \<Longrightarrow> 0 < b \<Longrightarrow> div_ceil a b = Suc (div_ceil (a - b) b)"
proof (cases "b \<le> a")
  case True
  moreover assume "0 < b"
  ultimately have "a div b = Suc ((a - b) div b)" and "a mod b = (a - b) mod b"
    by (simp_all add: le_div_geq le_mod_geq)
  then show ?thesis by (simp add: div_ceil_def)
next
  case False
  moreover assume "0 < a"
  ultimately show ?thesis by (simp add: div_ceil_def)
qed

lemma div_ceil_8: "div_ceil a 8 = (a + 7) div 8"
proof -
  have "(a + 7) div 8 = (a mod 8 + 7 + 8 * (a div 8)) div 8"
    by (metis add.assoc add.commute mod_mult_div_eq)
  also have "\<dots> = a div 8 + (a mod 8 + 7) div 8"
    by (rule div_mult_self2 [THEN trans]) simp_all
  also have "(a mod 8 + 7) div 8 = (if a mod 8 = 0 then 0 else 1)"
    using mod_less_divisor [of 8 a] by (auto simp: div_eq_dividend_iff intro!: div_nat_eqI)
  finally show ?thesis by (simp add: div_ceil_def)
qed

lemma length_chunks [simp]: "0 < n \<Longrightarrow> length (chunks n xs) = div_ceil (length xs) n"
proof (induction n xs rule: chunks.induct)
  case (1 n xs)
  then show ?case
    by (cases "xs = []") (simp_all add: chunks_step div_ceil_step)
qed

text \<open>Setting bit \<open>i\<close> of a byte for every true flag of a chunk, as the encoders do.\<close>

definition pack_byte :: "bool list \<Rightarrow> u8" where
  "pack_byte chunk = fold (\<lambda>(i, v) byte. if v then byte OR push_bit i 1 else byte) (enumerate 0 chunk) 0"

definition byte_bits :: "u8 \<Rightarrow> bool list" where
  "byte_bits b = map (bit b) [0..<8]"

definition unpack_bits :: "bytes \<Rightarrow> bool list" where
  "unpack_bits bs = concat (map byte_bits bs)"

lemma length_byte_bits [simp]: "length (byte_bits b) = 8"
  by (simp add: byte_bits_def)

lemma unpack_bits_simps [simp]:
  "unpack_bits [] = []" "unpack_bits (b # bs) = byte_bits b @ unpack_bits bs"
  by (simp_all add: unpack_bits_def)

lemma length_unpack_bits [simp]: "length (unpack_bits bs) = 8 * length bs"
  by (induction bs) auto

lemma bit_pack_fold:
  "bit (fold (\<lambda>(i, v) byte. if v then byte OR push_bit i 1 else byte) (enumerate k vs) (b :: u8)) n
   \<longleftrightarrow> bit b n \<or> (k \<le> n \<and> n < k + length vs \<and> n < 8 \<and> vs ! (n - k))"
proof (induction vs arbitrary: k b)
  case Nil
  then show ?case by auto
next
  case (Cons v vs)
  show ?case
  proof (cases "n = k")
    case True
    with Cons show ?thesis by (auto simp: bit_simps)
  next
    case False
    have "(v # vs) ! (n - k) = vs ! (n - Suc k)" if "k \<le> n"
      using that False by (simp add: nth_Cons')
    moreover have "k \<le> n \<longleftrightarrow> Suc k \<le> n" using False by auto
    ultimately show ?thesis using False Cons by (auto simp: bit_simps)
  qed
qed

lemma bit_pack_byte: "bit (pack_byte vs) n \<longleftrightarrow> n < length vs \<and> n < 8 \<and> vs ! n"
  using bit_pack_fold [of 0 vs 0 n] by (auto simp: pack_byte_def)

lemma byte_bits_pack_byte: "length vs \<le> 8 \<Longrightarrow> byte_bits (pack_byte vs) = vs @ replicate (8 - length vs) False"
  by (rule nth_equalityI) (auto simp: byte_bits_def bit_pack_byte nth_append)

lemma pack_byte_byte_bits [simp]: "pack_byte (byte_bits b) = b"
  by (rule bit_word_eqI) (auto simp: bit_pack_byte byte_bits_def)

text \<open>The bits of a flag list padded with false to whole bytes.\<close>

definition pad8 :: "bool list \<Rightarrow> bool list" where
  "pad8 vs = vs @ replicate (8 * div_ceil (length vs) 8 - length vs) False"

lemma length_pad8: "length (pad8 vs) = 8 * div_ceil (length vs) 8"
  by (simp add: pad8_def div_ceil_8)

lemma take_pad8 [simp]: "take (length vs) (pad8 vs) = vs"
  by (simp add: pad8_def)

lemma unpack_pack_chunks: "unpack_bits (map pack_byte (chunks 8 vs)) = pad8 vs"
proof (induction "8::nat" vs rule: chunks.induct)
  case (1 vs)
  show ?case
  proof (cases "length vs \<le> 8")
    case True
    show ?thesis
    proof (cases "vs = []")
      case False
      with True have "div_ceil (length vs) 8 = 1"
        by (simp add: div_ceil_step)
      with True False show ?thesis
        by (simp add: chunks_step byte_bits_pack_byte pad8_def)
    qed (simp add: pad8_def)
  next
    case False
    then have ne: "vs \<noteq> []" by auto
    from False have "8 * div_ceil (length vs) 8 - length vs
        = 8 * div_ceil (length vs - 8) 8 - (length vs - 8)"
      by (subst div_ceil_step) auto
    then have "pad8 vs = take 8 vs @ pad8 (drop 8 vs)"
      by (simp add: pad8_def flip: append_assoc)
    with 1 ne False show ?thesis
      by (simp add: chunks_step byte_bits_pack_byte)
  qed
qed

lemma test_bit_mask: "i < 8 \<Longrightarrow> (b AND push_bit i 1 \<noteq> (0 :: u8)) \<longleftrightarrow> bit b i"
proof -
  assume i: "i < 8"
  have "b AND push_bit i 1 = (0 :: u8) \<longleftrightarrow> \<not> bit b i"
    using i by (auto simp: and_exp_eq_0_iff_not_bit push_bit_eq_mult)
  then show ?thesis by simp
qed

lemma length_2_iff: "length xs = 2 \<longleftrightarrow> (\<exists>a b. xs = [a, b])"
  by (auto simp: length_Suc_conv numeral_2_eq_2)

section \<open>Number formatting\<close>

definition digit_char :: "nat \<Rightarrow> char" where
  "digit_char d = char_of (if d < 10 then 48 + d else 55 + d)"

fun show_nat :: "nat \<Rightarrow> string" where
  "show_nat n = (if n < 10 then [digit_char n] else show_nat (n div 10) @ [digit_char (n mod 10)])"

declare show_nat.simps [simp del]

text \<open>\<open>{:>w}\<close> and \<open>{:0w}\<close>: padding on the left, never truncating.\<close>

definition pad_left :: "char \<Rightarrow> nat \<Rightarrow> string \<Rightarrow> string" where
  "pad_left c w s = replicate (w - length s) c @ s"

text \<open>\<open>{:02X}\<close> of a byte.\<close>

definition hex2 :: "u8 \<Rightarrow> string" where
  "hex2 b = [digit_char (unat (drop_bit 4 b)), digit_char (unat (b AND 0x0F))]"

lemma length_hex2 [simp]: "length (hex2 b) = 2"
  by (simp add: hex2_def)

lemma length_pad_left [simp]: "length (pad_left c w s) = max w (length s)"
  by (simp add: pad_left_def)

end
