(* ===== verification/Modbus_Error.thy ===== *)
theory Modbus_Error
  imports Modbus_Prelude
begin

text \<open>
  \<open>src/error.rs\<close> and the retry classification of \<open>src/reconnect.rs\<close>: the structured
  client error \<open>ModbusError\<close>, its constructors, label, detail and display strings, the
  conversion from \<open>std::io::Error\<close>, and \<open>is_retryable\<close>.  Message constants keep the
  source's names.
\<close>

section \<open>Message constants\<close>

definition EXN_ILLEGAL_FUNCTION :: string where "EXN_ILLEGAL_FUNCTION = ''Illegal Function''"
definition EXN_ILLEGAL_DATA_ADDRESS :: string where "EXN_ILLEGAL_DATA_ADDRESS = ''Illegal Data Address''"
definition EXN_ILLEGAL_DATA_VALUE :: string where "EXN_ILLEGAL_DATA_VALUE = ''Illegal Data Value''"
definition EXN_SERVER_DEVICE_FAILURE :: string where "EXN_SERVER_DEVICE_FAILURE = ''Server Device Failure''"
definition EXN_ACKNOWLEDGE :: string where "EXN_ACKNOWLEDGE = ''Acknowledge''"
definition EXN_SERVER_DEVICE_BUSY :: string where "EXN_SERVER_DEVICE_BUSY = ''Server Device Busy''"
definition EXN_NEGATIVE_ACKNOWLEDGE :: string where "EXN_NEGATIVE_ACKNOWLEDGE = ''Negative Acknowledge''"
definition EXN_MEMORY_PARITY_ERROR :: string where "EXN_MEMORY_PARITY_ERROR = ''Memory Parity Error''"
definition EXN_GATEWAY_PATH_UNAVAILABLE :: string where "EXN_GATEWAY_PATH_UNAVAILABLE = ''Gateway Path Unavailable''"
definition EXN_GATEWAY_TARGET_FAILED :: string where "EXN_GATEWAY_TARGET_FAILED = ''Gateway Target Device Failed to Respond''"
definition EXN_UNKNOWN :: string where "EXN_UNKNOWN = ''Unknown Exception''"
definition ERR_OK :: string where "ERR_OK = ''OK''"
definition ERR_TIMEOUT :: string where "ERR_TIMEOUT = ''TIMEOUT''"
definition ERR_CONNECTION :: string where "ERR_CONNECTION = ''CONNECTION ERROR''"
definition ERR_PROTOCOL :: string where "ERR_PROTOCOL = ''PROTOCOL ERROR''"
definition ERR_EXCEPTION :: string where "ERR_EXCEPTION = ''MODBUS EXCEPTION''"
definition ERR_SERIAL :: string where "ERR_SERIAL = ''PORT ERROR''"
definition ERR_OTHER :: string where "ERR_OTHER = ''ERROR''"
definition TIMEOUT_PREFIX :: string where "TIMEOUT_PREFIX = ''TIMEOUT:''"
definition CONNECTION_PREFIX :: string where "CONNECTION_PREFIX = ''CONNECTION ERROR:''"
definition PROTOCOL_PREFIX :: string where "PROTOCOL_PREFIX = ''PROTOCOL ERROR:''"
definition PORT_PREFIX :: string where "PORT_PREFIX = ''PORT ERROR:''"
definition SEND_TIMEOUT :: string where "SEND_TIMEOUT = ''send timed out''"
definition RECV_TIMEOUT :: string where "RECV_TIMEOUT = ''recv timed out''"
definition TCP_RECV_TIMEOUT :: string where "TCP_RECV_TIMEOUT = ''TCP recv timed out''"
definition CONN_CLOSED :: string where "CONN_CLOSED = ''connection closed''"
definition TCP_EMPTY_RESP :: string where "TCP_EMPTY_RESP = ''empty TCP response PDU''"
definition RTU_RECV_TIMEOUT :: string where "RTU_RECV_TIMEOUT = ''RTU recv timed out''"
definition PDU_ENCODE_ERROR :: string where "PDU_ENCODE_ERROR = ''PDU encode:''"
definition PDU_DECODE_ERROR :: string where "PDU_DECODE_ERROR = ''PDU decode:''"
definition SLAVE_ID_MISMATCH :: string where "SLAVE_ID_MISMATCH = ''slave ID mismatch: expected''"

section \<open>The error type\<close>

datatype ModbusError =
    NoError
  | Timeout string
  | Connection string
  | Protocol string
  | Exception u8 u8  \<comment> \<open>function, code\<close>
  | Serial string
  | Other string

definition exception_name :: "u8 \<Rightarrow> string" where
  "exception_name code =
     (if code = 1 then EXN_ILLEGAL_FUNCTION
      else if code = 2 then EXN_ILLEGAL_DATA_ADDRESS
      else if code = 3 then EXN_ILLEGAL_DATA_VALUE
      else if code = 4 then EXN_SERVER_DEVICE_FAILURE
      else if code = 5 then EXN_ACKNOWLEDGE
      else if code = 6 then EXN_SERVER_DEVICE_BUSY
      else if code = 7 then EXN_NEGATIVE_ACKNOWLEDGE
      else if code = 8 then EXN_MEMORY_PARITY_ERROR
      else if code = 10 then EXN_GATEWAY_PATH_UNAVAILABLE
      else if code = 11 then EXN_GATEWAY_TARGET_FAILED
      else EXN_UNKNOWN)"

fun label :: "ModbusError \<Rightarrow> string" where
  "label NoError = ERR_OK"
| "label (Timeout m) = ERR_TIMEOUT"
| "label (Connection m) = ERR_CONNECTION"
| "label (Protocol m) = ERR_PROTOCOL"
| "label (ModbusError.Exception f c) = ERR_EXCEPTION"
| "label (Serial m) = ERR_SERIAL"
| "label (Other m) = ERR_OTHER"

fun display_error :: "ModbusError \<Rightarrow> string" where
  "display_error (ModbusError.Exception f code) =
     exception_name code @ '' (code='' @ show_nat (unat code) @ '')''"
| "display_error (Other m) = m"
| "display_error e = label e"

fun detail :: "ModbusError \<Rightarrow> string" where
  "detail NoError = ''OK''"
| "detail (Timeout m) = TIMEOUT_PREFIX @ '' '' @ m"
| "detail (Connection m) = CONNECTION_PREFIX @ '' '' @ m"
| "detail (Protocol m) = PROTOCOL_PREFIX @ '' '' @ m"
| "detail (ModbusError.Exception function code) =
     exception_name code @ '' (FC='' @ show_nat (unat function) @ '', code=''
       @ show_nat (unat code) @ '')''"
| "detail (Serial m) = PORT_PREFIX @ '' '' @ m"
| "detail (Other m) = m"

text \<open>The constructor functions, and the conversion from a string.\<close>

definition error_no_error :: ModbusError where "error_no_error = NoError"
definition error_timeout :: "string \<Rightarrow> ModbusError" where "error_timeout msg = Timeout msg"
definition error_connection :: "string \<Rightarrow> ModbusError" where "error_connection msg = Connection msg"
definition error_protocol :: "string \<Rightarrow> ModbusError" where "error_protocol msg = Protocol msg"
definition error_exception :: "u8 \<Rightarrow> u8 \<Rightarrow> ModbusError" where
  "error_exception function code = ModbusError.Exception function code"
definition error_serial :: "string \<Rightarrow> ModbusError" where "error_serial msg = Serial msg"
definition error_other :: "string \<Rightarrow> ModbusError" where "error_other msg = Other msg"
definition error_from_string :: "string \<Rightarrow> ModbusError" where "error_from_string s = Other s"

definition from_io_error :: "io_error \<Rightarrow> ModbusError" where
  "from_io_error e =
     (case err_kind e of
        TimedOut \<Rightarrow> Timeout (err_msg e)
      | WouldBlock \<Rightarrow> Timeout (err_msg e)
      | ConnectionRefused \<Rightarrow> Connection (err_msg e)
      | ConnectionReset \<Rightarrow> Connection (err_msg e)
      | ConnectionAborted \<Rightarrow> Connection (err_msg e)
      | BrokenPipe \<Rightarrow> Connection (err_msg e)
      | NotConnected \<Rightarrow> Connection (err_msg e)
      | _ \<Rightarrow> Other (err_msg e))"

section \<open>Retry classification\<close>

definition is_retryable :: "ModbusError \<Rightarrow> bool" where
  "is_retryable e = (case e of Connection _ \<Rightarrow> True | Serial _ \<Rightarrow> True | _ \<Rightarrow> False)"

lemma is_retryable_simps [simp]:
  "is_retryable (Connection m)" "is_retryable (Serial m)"
  "\<not> is_retryable NoError" "\<not> is_retryable (Timeout m)" "\<not> is_retryable (Protocol m)"
  "\<not> is_retryable (ModbusError.Exception f c)" "\<not> is_retryable (Other m)"
  by (simp_all add: is_retryable_def)

lemma is_retryable_iff: "is_retryable e \<longleftrightarrow> (\<exists>m. e = Connection m \<or> e = Serial m)"
  by (cases e) simp_all

text \<open>An I/O error is retried exactly when its kind says the connection itself failed.\<close>

lemma retryable_io_error:
  "is_retryable (from_io_error e) \<longleftrightarrow>
     err_kind e \<in> {ConnectionRefused, ConnectionReset, ConnectionAborted, BrokenPipe, NotConnected}"
  by (cases "err_kind e") (simp_all add: from_io_error_def)

end
