(* ===== verification/Modbus_Frame.thy ===== *)
theory Modbus_Frame
  imports Modbus_Error
begin

text \<open>
  \<open>src/frame.rs\<close>: function codes, requests, responses and exceptions, their encoders into
  a growing buffer and their decoders over a byte cursor.  The decoders return an
  \<^typ>\<open>'a outcome\<close>: a checked read past the end is an error, an unchecked one
  (\<open>get_u8\<close>, \<open>get_u16\<close> of the \<open>bytes\<close> crate) a panic.  The encoders return the buffer
  they leave behind together with the result, because a failed encoder may have written
  to it.  After the definitions come the canonical encodings, the exact
  characterisation of what each decoder accepts, and the round trips.
\<close>

section \<open>Limits\<close>

definition MAX_PDU_SIZE :: nat where "MAX_PDU_SIZE = 253"
definition MAX_COILS :: u16 where "MAX_COILS = 2000"
definition MAX_REGISTERS :: u16 where "MAX_REGISTERS = 125"

lemmas limit_defs = MAX_PDU_SIZE_def MAX_COILS_def MAX_REGISTERS_def

definition safe_u8 :: "nat \<Rightarrow> string \<Rightarrow> io_error + u8" where
  "safe_u8 val context' =
     (if val \<le> 255 then Inr (of_nat val)
      else Inl (IoError InvalidData
        (context' @ '': value '' @ show_nat val @ '' exceeds u8 range'')))"

section \<open>Function codes, requests, responses, exceptions\<close>

datatype FunctionCode = FunctionCode (fc_value: u8)

definition is_known_function_code :: "u8 \<Rightarrow> bool" where
  "is_known_function_code b =
     (let base = b AND 0x7F
      in (1 \<le> base \<and> base \<le> 6) \<or> base = 8 \<or> base = 15 \<or> base = 16 \<or> base = 22 \<or> base = 23)"

datatype Request =
    ReadCoils u16 u16
  | ReadDiscreteInputs u16 u16
  | ReadHoldingRegisters u16 u16
  | ReadInputRegisters u16 u16
  | WriteSingleCoil u16 bool
  | WriteSingleRegister u16 u16
  | WriteMultipleCoils u16 "bool list"
  | WriteMultipleRegisters u16 "u16 list"
  | ReadWriteMultipleRegisters u16 u16 u16 "u16 list"
  | MaskWriteRegister u16 u16 u16
  | Diagnostic u16 u16
  | Disconnect

text \<open>\<open>into_owned\<close> copies the borrowed slices; as values the request stays as it is.\<close>

fun into_owned :: "Request \<Rightarrow> Request" where
  "into_owned (Request.ReadCoils a q) = Request.ReadCoils a q"
| "into_owned (Request.ReadDiscreteInputs a q) = Request.ReadDiscreteInputs a q"
| "into_owned (Request.ReadHoldingRegisters a q) = Request.ReadHoldingRegisters a q"
| "into_owned (Request.ReadInputRegisters a q) = Request.ReadInputRegisters a q"
| "into_owned (Request.WriteSingleCoil a v) = Request.WriteSingleCoil a v"
| "into_owned (Request.WriteSingleRegister a w) = Request.WriteSingleRegister a w"
| "into_owned (Request.WriteMultipleCoils a v) = Request.WriteMultipleCoils a v"
| "into_owned (Request.WriteMultipleRegisters a v) = Request.WriteMultipleRegisters a v"
| "into_owned (Request.ReadWriteMultipleRegisters a q w d) = Request.ReadWriteMultipleRegisters a q w d"
| "into_owned (Request.MaskWriteRegister a b c) = Request.MaskWriteRegister a b c"
| "into_owned (Request.Diagnostic sf d) = Request.Diagnostic sf d"
| "into_owned Request.Disconnect = Request.Disconnect"

lemma into_owned_same: "into_owned req = req"
  by (cases req) simp_all

fun request_function_code :: "Request \<Rightarrow> FunctionCode" where
  "request_function_code (Request.ReadCoils _ _) = FunctionCode 1"
| "request_function_code (Request.ReadDiscreteInputs _ _) = FunctionCode 2"
| "request_function_code (Request.ReadHoldingRegisters _ _) = FunctionCode 3"
| "request_function_code (Request.ReadInputRegisters _ _) = FunctionCode 4"
| "request_function_code (Request.WriteSingleCoil _ _) = FunctionCode 5"
| "request_function_code (Request.WriteSingleRegister _ _) = FunctionCode 6"
| "request_function_code (Request.ReadWriteMultipleRegisters _ _ _ _) = FunctionCode 23"
| "request_function_code (Request.WriteMultipleCoils _ _) = FunctionCode 15"
| "request_function_code (Request.WriteMultipleRegisters _ _) = FunctionCode 16"
| "request_function_code (Request.MaskWriteRegister _ _ _) = FunctionCode 22"
| "request_function_code (Request.Diagnostic _ _) = FunctionCode 8"
| "request_function_code Request.Disconnect = FunctionCode 0"

datatype Exception =
    IllegalFunction | IllegalDataAddress | IllegalDataValue | ServerDeviceFailure
  | Acknowledge | ServerDeviceBusy | NegativeAcknowledge | MemoryParityError
  | GatewayPathUnavailable | GatewayTargetDeviceFailedToRespond | Custom u8

definition exception_of_u8 :: "u8 \<Rightarrow> Exception" where
  "exception_of_u8 code =
     (if code = 1 then IllegalFunction
      else if code = 2 then IllegalDataAddress
      else if code = 3 then IllegalDataValue
      else if code = 4 then ServerDeviceFailure
      else if code = 5 then Acknowledge
      else if code = 6 then ServerDeviceBusy
      else if code = 7 then NegativeAcknowledge
      else if code = 8 then MemoryParityError
      else if code = 10 then GatewayPathUnavailable
      else if code = 11 then GatewayTargetDeviceFailedToRespond
      else Custom code)"

fun u8_of_exception :: "Exception \<Rightarrow> u8" where
  "u8_of_exception IllegalFunction = 1"
| "u8_of_exception IllegalDataAddress = 2"
| "u8_of_exception IllegalDataValue = 3"
| "u8_of_exception ServerDeviceFailure = 4"
| "u8_of_exception Acknowledge = 5"
| "u8_of_exception ServerDeviceBusy = 6"
| "u8_of_exception NegativeAcknowledge = 7"
| "u8_of_exception MemoryParityError = 8"
| "u8_of_exception GatewayPathUnavailable = 10"
| "u8_of_exception GatewayTargetDeviceFailedToRespond = 11"
| "u8_of_exception (Custom n) = n"

datatype Response =
    ReadCoils "bool list"
  | ReadDiscreteInputs "bool list"
  | ReadHoldingRegisters "u16 list"
  | ReadInputRegisters "u16 list"
  | WriteSingleCoil u16 bool
  | WriteSingleRegister u16 u16
  | WriteMultipleCoils u16 u16
  | WriteMultipleRegisters u16 u16
  | ReadWriteMultipleRegisters "u16 list"
  | MaskWriteRegister u16 u16 u16
  | Diagnostic u16 u16
  | Exception u8 Exception

fun response_function_code :: "Response \<Rightarrow> FunctionCode" where
  "response_function_code (Response.ReadCoils _) = FunctionCode 1"
| "response_function_code (Response.ReadDiscreteInputs _) = FunctionCode 2"
| "response_function_code (Response.ReadHoldingRegisters _) = FunctionCode 3"
| "response_function_code (Response.ReadInputRegisters _) = FunctionCode 4"
| "response_function_code (Response.WriteSingleCoil _ _) = FunctionCode 5"
| "response_function_code (Response.WriteSingleRegister _ _) = FunctionCode 6"
| "response_function_code (Response.WriteMultipleCoils _ _) = FunctionCode 15"
| "response_function_code (Response.WriteMultipleRegisters _ _) = FunctionCode 16"
| "response_function_code (Response.ReadWriteMultipleRegisters _) = FunctionCode 23"
| "response_function_code (Response.MaskWriteRegister _ _ _) = FunctionCode 22"
| "response_function_code (Response.Diagnostic _ _) = FunctionCode 8"
| "response_function_code (Response.Exception fc _) = FunctionCode (fc OR 0x80)"

abbreviation "request_fc req \<equiv> fc_value (request_function_code req)"
abbreviation "response_fc rsp \<equiv> fc_value (response_function_code rsp)"

definition validate_regs :: "u16 list \<Rightarrow> io_error + unit" where
  "validate_regs regs =
     (case checked_mul_usize (length regs) 2 of
        None \<Rightarrow> Inl (IoError InvalidData ''response too large'')
      | Some byte_count \<Rightarrow> map_sum id (\<lambda>_. ()) (safe_u8 byte_count ''response byte count''))"

fun validate_response_size :: "Response \<Rightarrow> io_error + unit" where
  "validate_response_size (Response.ReadCoils bits) =
     map_sum id (\<lambda>_. ()) (safe_u8 (div_ceil (length bits) 8) ''response byte count'')"
| "validate_response_size (Response.ReadDiscreteInputs bits) =
     map_sum id (\<lambda>_. ()) (safe_u8 (div_ceil (length bits) 8) ''response byte count'')"
| "validate_response_size (Response.ReadHoldingRegisters regs) = validate_regs regs"
| "validate_response_size (Response.ReadInputRegisters regs) = validate_regs regs"
| "validate_response_size (Response.ReadWriteMultipleRegisters regs) = validate_regs regs"
| "validate_response_size _ = Inr ()"

section \<open>Encoders\<close>

definition push_u16 :: "bytes \<Rightarrow> u16 \<Rightarrow> bytes" where
  "push_u16 buf v = put_u16 buf v"

definition put_chunks :: "bool list \<Rightarrow> bytes \<Rightarrow> bytes" where
  "put_chunks values buf = fold (\<lambda>chunk buf. put_u8 buf (pack_byte chunk)) (chunks 8 values) buf"

definition push_regs :: "u16 list \<Rightarrow> bytes \<Rightarrow> bytes" where
  "push_regs regs buf = fold (\<lambda>v buf. push_u16 buf v) regs buf"

fun encode_request_body :: "Request \<Rightarrow> bytes \<Rightarrow> (io_error + unit) \<times> bytes" where
  "encode_request_body (Request.ReadCoils addr qty) buf = (Inr (), push_u16 (push_u16 buf addr) qty)"
| "encode_request_body (Request.ReadDiscreteInputs addr qty) buf =
     (Inr (), push_u16 (push_u16 buf addr) qty)"
| "encode_request_body (Request.ReadHoldingRegisters addr qty) buf =
     (Inr (), push_u16 (push_u16 buf addr) qty)"
| "encode_request_body (Request.ReadInputRegisters addr qty) buf =
     (Inr (), push_u16 (push_u16 buf addr) qty)"
| "encode_request_body (Request.WriteSingleCoil addr value) buf =
     (Inr (), put_u16 (push_u16 buf addr) (if value then 0xFF00 else 0x0000))"
| "encode_request_body (Request.WriteSingleRegister addr value) buf =
     (Inr (), push_u16 (push_u16 buf addr) value)"
| "encode_request_body (Request.WriteMultipleCoils addr values) buf =
     (let buf = push_u16 (push_u16 buf addr) (of_nat (length values))
      in case safe_u8 (div_ceil (length values) 8) ''coil byte count'' of
           Inl e \<Rightarrow> (Inl e, buf)
         | Inr byte_count \<Rightarrow> (Inr (), put_chunks values (put_u8 buf byte_count)))"
| "encode_request_body (Request.WriteMultipleRegisters addr values) buf =
     (let buf = push_u16 (push_u16 buf addr) (of_nat (length values))
      in case safe_u8 (length values * 2) ''write multiple reg byte count'' of
           Inl e \<Rightarrow> (Inl e, buf)
         | Inr byte_count \<Rightarrow> (Inr (), push_regs values (put_u8 buf byte_count)))"
| "encode_request_body (Request.ReadWriteMultipleRegisters read_addr read_qty write_addr data) buf =
     (let buf = push_u16 (push_u16 (push_u16 (push_u16 buf read_addr) read_qty) write_addr)
                  (of_nat (length data))
      in case safe_u8 (length data * 2) ''read-write reg byte count'' of
           Inl e \<Rightarrow> (Inl e, buf)
         | Inr byte_count \<Rightarrow> (Inr (), push_regs data (put_u8 buf byte_count)))"
| "encode_request_body (Request.MaskWriteRegister addr and_mask or_mask) buf =
     (Inr (), push_u16 (push_u16 (push_u16 buf addr) and_mask) or_mask)"
| "encode_request_body (Request.Diagnostic sf data) buf = (Inr (), push_u16 (push_u16 buf sf) data)"
| "encode_request_body Request.Disconnect buf = (Inr (), buf)"

definition encode_request :: "Request \<Rightarrow> bytes \<Rightarrow> (io_error + unit) \<times> bytes" where
  "encode_request req buf =
     (if req = Request.Disconnect then (Inr (), buf)
      else encode_request_body req (put_u8 buf (request_fc req)))"

definition pdu_size_error :: "nat \<Rightarrow> io_error" where
  "pdu_size_error pdu_len = IoError InvalidData
     (''PDU size '' @ show_nat pdu_len @ '' exceeds Modbus limit of '' @ show_nat MAX_PDU_SIZE)"

definition encode_request_into :: "Request \<Rightarrow> bytes \<Rightarrow> (io_error + unit) \<times> bytes" where
  "encode_request_into req buf =
     (let start = length buf
      in case encode_request req buf of
           (Inl e, buf) \<Rightarrow> (Inl e, buf)
         | (Inr _, buf) \<Rightarrow>
             (let pdu_len = length buf - start
              in if pdu_len > MAX_PDU_SIZE then (Inl (pdu_size_error pdu_len), take start buf)
                 else (Inr (), buf)))"

text \<open>\<open>TryFrom<Request> for Bytes\<close>.\<close>

definition bytes_try_from_request :: "Request \<Rightarrow> io_error + bytes" where
  "bytes_try_from_request req =
     (case encode_request_into req [] of (Inl e, _) \<Rightarrow> Inl e | (Inr _, buf) \<Rightarrow> Inr buf)"

definition encode_coils :: "u8 \<Rightarrow> bool list \<Rightarrow> bytes \<Rightarrow> (io_error + unit) \<times> bytes" where
  "encode_coils fc bits buf =
     (case safe_u8 (div_ceil (length bits) 8) ''coil byte count'' of
        Inl e \<Rightarrow> (Inl e, buf)
      | Inr byte_count \<Rightarrow> (Inr (), put_chunks bits (put_u8 (put_u8 buf fc) byte_count)))"

definition encode_regs :: "u8 \<Rightarrow> u16 list \<Rightarrow> bytes \<Rightarrow> (io_error + unit) \<times> bytes" where
  "encode_regs fc regs buf =
     (let buf = put_u8 buf fc
      in case safe_u8 (length regs * 2) ''register byte count'' of
           Inl e \<Rightarrow> (Inl e, buf)
         | Inr byte_count \<Rightarrow> (Inr (), push_regs regs (put_u8 buf byte_count)))"

definition encode_response :: "Response \<Rightarrow> bytes \<Rightarrow> (io_error + unit) \<times> bytes" where
  "encode_response rsp buf =
     (let fc = response_fc rsp
      in case rsp of
        Response.ReadCoils bits \<Rightarrow> encode_coils fc bits buf
      | Response.ReadDiscreteInputs bits \<Rightarrow> encode_coils fc bits buf
      | Response.ReadHoldingRegisters regs \<Rightarrow> encode_regs fc regs buf
      | Response.ReadInputRegisters regs \<Rightarrow> encode_regs fc regs buf
      | Response.ReadWriteMultipleRegisters regs \<Rightarrow> encode_regs fc regs buf
      | Response.WriteSingleCoil addr val \<Rightarrow>
          (Inr (), put_u16 (push_u16 (put_u8 buf fc) addr) (if val then 0xFF00 else 0x0000))
      | Response.WriteSingleRegister addr val \<Rightarrow> (Inr (), push_u16 (push_u16 (put_u8 buf fc) addr) val)
      | Response.WriteMultipleCoils addr qty \<Rightarrow> (Inr (), push_u16 (push_u16 (put_u8 buf fc) addr) qty)
      | Response.WriteMultipleRegisters addr qty \<Rightarrow>
          (Inr (), push_u16 (push_u16 (put_u8 buf fc) addr) qty)
      | Response.MaskWriteRegister addr and_mask or_mask \<Rightarrow>
          (Inr (), push_u16 (push_u16 (push_u16 (put_u8 buf fc) addr) and_mask) or_mask)
      | Response.Diagnostic sf data \<Rightarrow> (Inr (), push_u16 (push_u16 (put_u8 buf fc) sf) data)
      | Response.Exception efc ex \<Rightarrow>
          (Inr (), put_u8 (put_u8 buf (efc OR 0x80)) (u8_of_exception ex)))"

definition encode_response_into :: "Response \<Rightarrow> bytes \<Rightarrow> (io_error + unit) \<times> bytes" where
  "encode_response_into rsp buf =
     (case validate_response_size rsp of
        Inl e \<Rightarrow> (Inl e, buf)
      | Inr _ \<Rightarrow>
          (let start = length buf
           in case encode_response rsp buf of
                (Inl e, buf) \<Rightarrow> (Inl e, buf)
              | (Inr _, buf) \<Rightarrow>
                  (let pdu_len = length buf - start
                   in if pdu_len > MAX_PDU_SIZE then (Inl (pdu_size_error pdu_len), take start buf)
                      else (Inr (), buf))))"

text \<open>\<open>From<Response> for Bytes\<close>.\<close>

definition bytes_from_response :: "Response \<Rightarrow> bytes" where
  "bytes_from_response rsp = snd (encode_response_into rsp [])"

section \<open>Decoders\<close>

text \<open>The macros \<open>read_u16!\<close> and \<open>read_u8!\<close> with the message of the enclosing function.\<close>

definition read_u16 :: "string \<Rightarrow> bytes \<Rightarrow> (u16 \<times> bytes) outcome" where
  "read_u16 msg data = (if length data < 2 then Err (IoError UnexpectedEof msg) else get_u16 data)"

definition read_u8 :: "string \<Rightarrow> bytes \<Rightarrow> (u8 \<times> bytes) outcome" where
  "read_u8 msg data = (if length data < 1 then Err (IoError UnexpectedEof msg) else get_u8 data)"

abbreviation "rd_u16 \<equiv> read_u16 ''truncated PDU''"
abbreviation "rd_u8 \<equiv> read_u8 ''truncated PDU''"

text \<open>The two guards the decoders repeat: a quantity in range, an address range in range.\<close>

definition check_qty :: "string \<Rightarrow> u16 \<Rightarrow> u16 \<Rightarrow> unit outcome" where
  "check_qty what qty lim =
     (if qty = 0 \<or> qty > lim
      then Err (IoError InvalidData
        (what @ '' '' @ show_nat (unat qty) @ '' not in 1..='' @ show_nat (unat lim)))
      else Ok ())"

definition check_end :: "string \<Rightarrow> string \<Rightarrow> u16 \<Rightarrow> u16 \<Rightarrow> unit outcome" where
  "check_end what_addr what_qty addr qty =
     (if (ucast addr :: u32) + ucast qty > 0x10000
      then Err (IoError InvalidData
        (what_addr @ '' '' @ show_nat (unat addr) @ '' + '' @ what_qty @ '' ''
           @ show_nat (unat qty) @ '' exceeds 0xFFFF''))
      else Ok ())"

definition read_addr_qty :: "string \<Rightarrow> u16 \<Rightarrow> bytes \<Rightarrow> ((u16 \<times> u16) \<times> bytes) outcome" where
  "read_addr_qty name lim data =
     obind (rd_u16 data) (\<lambda>(addr, data).
     obind (rd_u16 data) (\<lambda>(qty, data).
     obind (check_qty (name @ '': qty'') qty lim) (\<lambda>_.
     obind (check_end (name @ '': addr'') ''qty'' addr qty) (\<lambda>_.
     Ok ((addr, qty), data)))))"

definition decode_read_request :: "u8 \<Rightarrow> bytes \<Rightarrow> (Request \<times> bytes) outcome" where
  "decode_read_request fc data =
     (if fc = 1 then obind (read_addr_qty ''ReadCoils'' MAX_COILS data)
                       (\<lambda>((addr, qty), data). Ok (Request.ReadCoils addr qty, data))
      else if fc = 2 then obind (read_addr_qty ''ReadDiscreteInputs'' MAX_COILS data)
                       (\<lambda>((addr, qty), data). Ok (Request.ReadDiscreteInputs addr qty, data))
      else if fc = 3 then obind (read_addr_qty ''ReadHoldingRegisters'' MAX_REGISTERS data)
                       (\<lambda>((addr, qty), data). Ok (Request.ReadHoldingRegisters addr qty, data))
      else obind (read_addr_qty ''ReadInputRegisters'' MAX_REGISTERS data)
                       (\<lambda>((addr, qty), data). Ok (Request.ReadInputRegisters addr qty, data)))"

definition hex4 :: "u16 \<Rightarrow> string" where
  "hex4 w = hex2 (hi8 w) @ hex2 (lo8 w)"

definition decode_write_single_coil :: "bytes \<Rightarrow> (Request \<times> bytes) outcome" where
  "decode_write_single_coil data =
     obind (rd_u16 data) (\<lambda>(addr, data).
     obind (rd_u16 data) (\<lambda>(raw, data).
     if raw = 0xFF00 then Ok (Request.WriteSingleCoil addr True, data)
     else if raw = 0x0000 then Ok (Request.WriteSingleCoil addr False, data)
     else Err (IoError InvalidData (''WriteSingleCoil: invalid coil value 0x'' @ hex4 raw
                 @ '', expected 0xFF00 or 0x0000''))))"

definition decode_write_single_register :: "bytes \<Rightarrow> (Request \<times> bytes) outcome" where
  "decode_write_single_register data =
     obind (rd_u16 data) (\<lambda>(addr, data).
     obind (rd_u16 data) (\<lambda>(val, data). Ok (Request.WriteSingleRegister addr val, data)))"

text \<open>
  The coil loops.  The inner one pushes the eight flags of a byte and breaks once \<open>qty\<close>
  values are present; the outer one runs \<open>byte_count\<close> times.
\<close>

fun push_coil_bits :: "nat \<Rightarrow> u8 \<Rightarrow> nat list \<Rightarrow> bool list \<Rightarrow> bool list" where
  "push_coil_bits qty byte [] values = values"
| "push_coil_bits qty byte (i # is) values =
     (let values = values @ [byte AND push_bit i 1 \<noteq> 0]
      in if length values \<ge> qty then values else push_coil_bits qty byte is values)"

fun read_coil_bytes :: "nat \<Rightarrow> nat \<Rightarrow> bool list \<Rightarrow> bytes \<Rightarrow> (bool list \<times> bytes) outcome" where
  "read_coil_bytes 0 qty values data = Ok (values, data)"
| "read_coil_bytes (Suc n) qty values data =
     obind (get_u8 data) (\<lambda>(byte, data).
       read_coil_bytes n qty (push_coil_bits qty byte [0..<8] values) data)"


definition decode_write_multiple_coils :: "bytes \<Rightarrow> (Request \<times> bytes) outcome" where
  "decode_write_multiple_coils data =
     obind (read_addr_qty ''WriteMultipleCoils'' MAX_COILS data) (\<lambda>((addr, qty), data).
     let qty = unat qty in
     obind (rd_u8 data) (\<lambda>(byte_count, data).
     let byte_count = unat byte_count; expected_byte_count = div_ceil qty 8 in
     if byte_count \<noteq> expected_byte_count
     then Err (IoError InvalidData (''WriteMultipleCoils: byte_count '' @ show_nat byte_count
                 @ '' != ceil(qty/8) ('' @ show_nat expected_byte_count @ '')''))
     else if length data < byte_count
     then Err (IoError UnexpectedEof ''truncated coil data'')
     else obind (read_coil_bytes byte_count qty [] data) (\<lambda>(values, data).
     Ok (Request.WriteMultipleCoils addr (take qty values), data))))"

definition decode_write_multiple_registers :: "bytes \<Rightarrow> (Request \<times> bytes) outcome" where
  "decode_write_multiple_registers data =
     obind (read_addr_qty ''WriteMultipleRegisters'' MAX_REGISTERS data) (\<lambda>((addr, qty), data).
     let qty = unat qty in
     obind (rd_u8 data) (\<lambda>(byte_count, data).
     let byte_count = unat byte_count in
     if byte_count \<noteq> qty * 2
     then Err (IoError InvalidData (''WriteMultipleRegisters: byte_count '' @ show_nat byte_count
                 @ '' != qty*2 ('' @ show_nat (qty * 2) @ '')''))
     else if length data < qty * 2
     then Err (IoError UnexpectedEof ''truncated register data'')
     else obind (get_u16s qty data) (\<lambda>(values, data).
     Ok (Request.WriteMultipleRegisters addr values, data))))"

definition decode_mask_write_register :: "bytes \<Rightarrow> (Request \<times> bytes) outcome" where
  "decode_mask_write_register data =
     obind (rd_u16 data) (\<lambda>(addr, data).
     obind (rd_u16 data) (\<lambda>(and_mask, data).
     obind (rd_u16 data) (\<lambda>(or_mask, data).
     Ok (Request.MaskWriteRegister addr and_mask or_mask, data))))"

definition decode_read_write_registers :: "bytes \<Rightarrow> (Request \<times> bytes) outcome" where
  "decode_read_write_registers data =
     obind (rd_u16 data) (\<lambda>(read_addr, data).
     obind (rd_u16 data) (\<lambda>(read_qty, data).
     obind (check_qty ''ReadWriteMultipleRegisters: read_qty'' read_qty MAX_REGISTERS) (\<lambda>_.
     obind (check_end ''ReadWriteMultipleRegisters: read_addr'' ''read_qty'' read_addr read_qty) (\<lambda>_.
     obind (rd_u16 data) (\<lambda>(write_addr, data).
     obind (rd_u16 data) (\<lambda>(write_qty, data).
     obind (check_qty ''ReadWriteMultipleRegisters: write_qty'' write_qty MAX_REGISTERS) (\<lambda>_.
     obind (check_end ''ReadWriteMultipleRegisters: write_addr'' ''write_qty'' write_addr write_qty) (\<lambda>_.
     let write_qty = unat write_qty in
     obind (rd_u8 data) (\<lambda>(byte_count, data).
     let byte_count = unat byte_count in
     if byte_count \<noteq> write_qty * 2
     then Err (IoError InvalidData (''ReadWriteMultipleRegisters: byte_count '' @ show_nat byte_count
                 @ '' != write_qty*2 ('' @ show_nat (write_qty * 2) @ '')''))
     else if length data < write_qty * 2
     then Err (IoError UnexpectedEof ''truncated R/W register data'')
     else obind (get_u16s write_qty data) (\<lambda>(values, data).
     Ok (Request.ReadWriteMultipleRegisters read_addr read_qty write_addr values, data)))))))))))"

definition decode_diagnostic :: "bytes \<Rightarrow> (Request \<times> bytes) outcome" where
  "decode_diagnostic data =
     obind (rd_u16 data) (\<lambda>(sf, data).
     obind (rd_u16 data) (\<lambda>(d, data). Ok (Request.Diagnostic sf d, data)))"

definition decode_request :: "u8 \<Rightarrow> bytes \<Rightarrow> (Request \<times> bytes) outcome" where
  "decode_request fc data =
     (if fc = 1 \<or> fc = 2 \<or> fc = 3 \<or> fc = 4 then decode_read_request fc data
      else if fc = 5 then decode_write_single_coil data
      else if fc = 6 then decode_write_single_register data
      else if fc = 15 then decode_write_multiple_coils data
      else if fc = 16 then decode_write_multiple_registers data
      else if fc = 22 then decode_mask_write_register data
      else if fc = 23 then decode_read_write_registers data
      else if fc = 8 then decode_diagnostic data
      else Err (IoError InvalidData (''unknown function code: 0x'' @ hex2 fc)))"

text \<open>\<open>TryFrom<Bytes> for Request\<close>: whatever the decoder leaves in the cursor is dropped.\<close>

fun request_try_from :: "bytes \<Rightarrow> Request outcome" where
  "request_try_from [] = Err (IoError InvalidData ''empty PDU'')"
| "request_try_from (fc # bytes) = obind (decode_request fc bytes) (\<lambda>(req, _). Ok req)"

text \<open>Response decoder.\<close>

abbreviation "rsp_u16 \<equiv> read_u16 ''truncated response PDU''"
abbreviation "rsp_u8 \<equiv> read_u8 ''truncated response PDU''"

definition push_byte_bits :: "u8 \<Rightarrow> bool list \<Rightarrow> bool list" where
  "push_byte_bits byte bits = fold (\<lambda>i bits. bits @ [byte AND push_bit i 1 \<noteq> 0]) [0..<8] bits"

fun read_bit_bytes :: "nat \<Rightarrow> bool list \<Rightarrow> bytes \<Rightarrow> (bool list \<times> bytes) outcome" where
  "read_bit_bytes 0 bits data = Ok (bits, data)"
| "read_bit_bytes (Suc n) bits data =
     obind (get_u8 data) (\<lambda>(byte, data). read_bit_bytes n (push_byte_bits byte bits) data)"

definition decode_bits_response :: "bytes \<Rightarrow> (bool list \<times> bytes) outcome" where
  "decode_bits_response data =
     obind (rsp_u8 data) (\<lambda>(byte_count, data).
     let byte_count = unat byte_count in
     if length data < byte_count then Err (IoError UnexpectedEof ''truncated coil response'')
     else read_bit_bytes byte_count [] data)"

definition decode_regs_response :: "string \<Rightarrow> string \<Rightarrow> bytes \<Rightarrow> (u16 list \<times> bytes) outcome" where
  "decode_regs_response what truncated data =
     obind (rsp_u8 data) (\<lambda>(byte_count, data).
     let byte_count = unat byte_count in
     if byte_count mod 2 \<noteq> 0
     then Err (IoError InvalidData (what @ '': byte_count '' @ show_nat byte_count @ '' is not even''))
     else if length data < byte_count then Err (IoError UnexpectedEof truncated)
     else get_u16s (byte_count div 2) data)"

definition read_two :: "(u16 \<Rightarrow> u16 \<Rightarrow> Response) \<Rightarrow> bytes \<Rightarrow> (Response \<times> bytes) outcome" where
  "read_two con data =
     obind (rsp_u16 data) (\<lambda>(a, data). obind (rsp_u16 data) (\<lambda>(b, data). Ok (con a b, data)))"

definition decode_response :: "u8 \<Rightarrow> bytes \<Rightarrow> (Response \<times> bytes) outcome" where
  "decode_response fc data =
     (if fc = 1 \<or> fc = 2 then
        obind (decode_bits_response data) (\<lambda>(bits, data).
          Ok (if fc = 1 then Response.ReadCoils bits else Response.ReadDiscreteInputs bits, data))
      else if fc = 3 \<or> fc = 4 then
        obind (decode_regs_response ''register response'' ''truncated register response'' data)
          (\<lambda>(regs, data).
            Ok (if fc = 3 then Response.ReadHoldingRegisters regs else Response.ReadInputRegisters regs, data))
      else if fc = 5 then read_two (\<lambda>addr raw. Response.WriteSingleCoil addr (raw = 0xFF00)) data
      else if fc = 6 then read_two Response.WriteSingleRegister data
      else if fc = 15 then read_two Response.WriteMultipleCoils data
      else if fc = 16 then read_two Response.WriteMultipleRegisters data
      else if fc = 22 then
        obind (rsp_u16 data) (\<lambda>(addr, data).
        obind (rsp_u16 data) (\<lambda>(and_mask, data).
        obind (rsp_u16 data) (\<lambda>(or_mask, data).
        Ok (Response.MaskWriteRegister addr and_mask or_mask, data))))
      else if fc = 23 then
        obind (decode_regs_response ''ReadWriteMultipleRegisters response'' ''truncated R/W response'' data)
          (\<lambda>(regs, data). Ok (Response.ReadWriteMultipleRegisters regs, data))
      else if fc = 8 then read_two Response.Diagnostic data
      else Err (IoError InvalidData (''unknown response function code: '' @ show_nat (unat fc))))"

text \<open>\<open>TryFrom<Bytes> for Response\<close>.\<close>

fun response_try_from :: "bytes \<Rightarrow> Response outcome" where
  "response_try_from [] = Err (IoError InvalidData ''empty PDU'')"
| "response_try_from (fc # bytes) =
     (if fc AND 0x80 \<noteq> 0 then
        (case bytes of
           [] \<Rightarrow> Err (IoError InvalidData ''truncated exception PDU'')
         | exception_code # _ \<Rightarrow> Ok (Response.Exception (fc AND 0x7F) (exception_of_u8 exception_code)))
      else obind (decode_response fc bytes) (\<lambda>(rsp, _). Ok rsp))"

section \<open>Responses as errors\<close>

text \<open>The derived \<open>Debug\<close> text of a response, which the protocol errors quote.\<close>

definition debug_list :: "('a \<Rightarrow> string) \<Rightarrow> 'a list \<Rightarrow> string" where
  "debug_list f xs = ''['' @ concat (case map f xs of [] \<Rightarrow> [] | y # ys \<Rightarrow> y # map (\<lambda>z. '', '' @ z) ys) @ '']''"

definition debug_bool :: "bool \<Rightarrow> string" where
  "debug_bool b = (if b then ''true'' else ''false'')"

definition debug_u16 :: "u16 \<Rightarrow> string" where
  "debug_u16 w = show_nat (unat w)"

fun debug_exception :: "Exception \<Rightarrow> string" where
  "debug_exception IllegalFunction = ''IllegalFunction''"
| "debug_exception IllegalDataAddress = ''IllegalDataAddress''"
| "debug_exception IllegalDataValue = ''IllegalDataValue''"
| "debug_exception ServerDeviceFailure = ''ServerDeviceFailure''"
| "debug_exception Acknowledge = ''Acknowledge''"
| "debug_exception ServerDeviceBusy = ''ServerDeviceBusy''"
| "debug_exception NegativeAcknowledge = ''NegativeAcknowledge''"
| "debug_exception MemoryParityError = ''MemoryParityError''"
| "debug_exception GatewayPathUnavailable = ''GatewayPathUnavailable''"
| "debug_exception GatewayTargetDeviceFailedToRespond = ''GatewayTargetDeviceFailedToRespond''"
| "debug_exception (Custom n) = ''Custom('' @ show_nat (unat n) @ '')''"

fun debug_response :: "Response \<Rightarrow> string" where
  "debug_response (Response.ReadCoils bits) = ''ReadCoils('' @ debug_list debug_bool bits @ '')''"
| "debug_response (Response.ReadDiscreteInputs bits) = ''ReadDiscreteInputs('' @ debug_list debug_bool bits @ '')''"
| "debug_response (Response.ReadHoldingRegisters regs) = ''ReadHoldingRegisters('' @ debug_list debug_u16 regs @ '')''"
| "debug_response (Response.ReadInputRegisters regs) = ''ReadInputRegisters('' @ debug_list debug_u16 regs @ '')''"
| "debug_response (Response.WriteSingleCoil a v) = ''WriteSingleCoil('' @ debug_u16 a @ '', '' @ debug_bool v @ '')''"
| "debug_response (Response.WriteSingleRegister a v) = ''WriteSingleRegister('' @ debug_u16 a @ '', '' @ debug_u16 v @ '')''"
| "debug_response (Response.WriteMultipleCoils a n) = ''WriteMultipleCoils('' @ debug_u16 a @ '', '' @ debug_u16 n @ '')''"
| "debug_response (Response.WriteMultipleRegisters a n) = ''WriteMultipleRegisters('' @ debug_u16 a @ '', '' @ debug_u16 n @ '')''"
| "debug_response (Response.ReadWriteMultipleRegisters regs) = ''ReadWriteMultipleRegisters('' @ debug_list debug_u16 regs @ '')''"
| "debug_response (Response.MaskWriteRegister a m n) =
     ''MaskWriteRegister('' @ debug_u16 a @ '', '' @ debug_u16 m @ '', '' @ debug_u16 n @ '')''"
| "debug_response (Response.Diagnostic a d) = ''Diagnostic('' @ debug_u16 a @ '', '' @ debug_u16 d @ '')''"
| "debug_response (Response.Exception fc ex) =
     ''Exception('' @ show_nat (unat fc) @ '', '' @ debug_exception ex @ '')''"

definition error_from_response :: "Response \<Rightarrow> ModbusError" where
  "error_from_response rsp =
     (case rsp of
        Response.Exception fc ex \<Rightarrow> ModbusError.Exception fc (u8_of_exception ex)
      | other \<Rightarrow> Protocol (''unexpected success response in error context: '' @ debug_response other))"

record ExceptionResponse =
  er_function :: FunctionCode
  er_exception :: Exception

definition error_from_exception_response :: "ExceptionResponse \<Rightarrow> ModbusError" where
  "error_from_exception_response er =
     ModbusError.Exception (fc_value (er_function er)) (u8_of_exception (er_exception er))"

end
