(* ===== verification/Modbus_Pdu.thy ===== *)
theory Modbus_Pdu
  imports Modbus_Frame
begin

text \<open>
  Correctness of the PDU encoders and decoders of \<^theory_text>\<open>Modbus_Frame\<close>.
  \<open>request_pdu\<close> and \<open>response_pdu\<close> are the canonical wire forms, \<open>request_fits\<close> and
  \<open>response_fits\<close> the sizes the encoders accept, \<open>request_legal\<close> the quantities and
  address ranges the request decoder accepts.  The central facts are exact: an encoder
  succeeds iff the message fits and then appends the canonical form, and a byte string
  decodes to a message iff it starts with a wire form of it.
\<close>

section \<open>Checked reads\<close>

lemma read_u16_Ok_iff [outcome_simps]:
  "read_u16 msg data = Ok (w, rest) \<longleftrightarrow> data = hi8 w # lo8 w # rest"
  by (auto simp: read_u16_def get_u16_Ok_iff)

lemma read_u8_Ok_iff [outcome_simps]: "read_u8 msg data = Ok (b, rest) \<longleftrightarrow> data = b # rest"
  by (cases data) (auto simp: read_u8_def)

lemma read_u16_not_Panic [simp, no_panic]: "read_u16 msg data \<noteq> Panic"
  using get_u16_not_Panic [of data] by (auto simp: read_u16_def)

lemma read_u8_not_Panic [simp, no_panic]: "read_u8 msg data \<noteq> Panic"
  by (cases data) (auto simp: read_u8_def)

lemma check_qty_Ok_iff [outcome_simps]: "check_qty what qty lim = Ok u \<longleftrightarrow> qty \<noteq> 0 \<and> qty \<le> lim"
  by (auto simp: check_qty_def)

lemma check_qty_not_Panic [simp, no_panic]: "check_qty what qty lim \<noteq> Panic"
  by (simp add: check_qty_def)

lemma end_in_range: "(ucast (a :: u16) :: u32) + ucast (q :: u16) > 0x10000 \<longleftrightarrow> unat a + unat q > 0x10000"
proof -
  have "unat (ucast w :: u32) = unat w" for w :: u16
    by (simp add: unsigned_ucast_eq take_bit_nat_eq_self order.strict_trans [OF unat_u16_less])
  then show ?thesis
    using unat_u16_less [of a] unat_u16_less [of q]
    by (simp add: word_less_nat_alt unat_word_ariths del: unat_u16_less)
qed

lemma check_end_Ok_iff [outcome_simps]:
  "check_end x y a q = Ok u \<longleftrightarrow> unat a + unat q \<le> 0x10000"
  by (simp add: check_end_def end_in_range not_less)

lemma check_end_not_Panic [simp, no_panic]: "check_end x y a q \<noteq> Panic"
  by (simp add: check_end_def)

text \<open>A legal quantity at a legal address.\<close>

definition range_ok :: "u16 \<Rightarrow> nat \<Rightarrow> nat \<Rightarrow> bool" where
  "range_ok addr n lim \<longleftrightarrow> 1 \<le> n \<and> n \<le> lim \<and> unat addr + n \<le> 0x10000"

lemma read_addr_qty_Ok_iff [outcome_simps]:
  "read_addr_qty name lim data = Ok ((a, q), rest) \<longleftrightarrow>
     data = hi8 a # lo8 a # hi8 q # lo8 q # rest \<and> range_ok a (unat q) (unat lim)"
  by (auto simp: read_addr_qty_def outcome_simps range_ok_def word_le_nat_alt
      unat_gt_0 Suc_le_eq)

lemma read_u16_eval [simp]: "read_u16 msg (h # l # rest) = Ok (be16 h l, rest)"
  by (simp add: read_u16_def)

lemma read_u8_eval [simp]: "read_u8 msg (b # rest) = Ok (b, rest)"
  by (simp add: read_u8_def)

lemma check_qty_eval: "1 \<le> unat q \<Longrightarrow> unat q \<le> unat lim \<Longrightarrow> check_qty what q lim = Ok ()"
  by (auto simp: check_qty_Ok_iff word_le_nat_alt)

lemma check_end_eval: "unat a + unat q \<le> 0x10000 \<Longrightarrow> check_end x y a q = Ok ()"
  by (simp add: check_end_Ok_iff)

lemma read_addr_qty_eval:
  "range_ok a (unat q) (unat lim) \<Longrightarrow>
     read_addr_qty name lim (hi8 a # lo8 a # hi8 q # lo8 q # rest) = Ok ((a, q), rest)"
  by (simp add: read_addr_qty_Ok_iff)

lemmas read_evals = read_addr_qty_eval check_qty_eval check_end_eval

lemma read_addr_qty_not_Panic [simp, no_panic]: "read_addr_qty name lim data \<noteq> Panic"
  by (auto simp: read_addr_qty_def outcome_simps)

section \<open>The coil loops\<close>

lemma push_coil_bits_eq:
  "length values < qty \<Longrightarrow> (\<forall>i \<in> set ixs. i < 8) \<Longrightarrow>
     push_coil_bits qty byte ixs values = take qty (values @ map (bit byte) ixs)"
proof (induction ixs arbitrary: "values")
  case Nil
  then show ?case by simp
next
  case (Cons i ixs)
  then have i: "(byte AND push_bit i 1 \<noteq> 0) = bit byte i"
    by (intro test_bit_mask) simp
  show ?case
  proof (cases "qty \<le> length values + 1")
    case True
    with Cons.prems have "qty = length values + 1" by simp
    with i show ?thesis by simp
  next
    case False
    with Cons i show ?thesis by (simp add: take_Cons')
  qed
qed

lemma read_coil_bytes_append:
  assumes "length values + 8 * n < qty + 8" and "length values < qty \<or> n = 0" and "length packed = n"
  shows "read_coil_bytes n qty values (packed @ rest)
       = Ok (take qty (values @ unpack_bits packed), rest) \<or> qty < length values"
  using assms
proof (induction n arbitrary: "values" packed)
  case 0
  then show ?case by auto
next
  case (Suc n)
  then obtain b bs where packed: "packed = b # bs" and bs: "length bs = n"
    by (cases packed) auto
  let ?v = "push_coil_bits qty b [0..<8] values"
  have v: "?v = take qty (values @ byte_bits b)"
    using Suc.prems by (simp add: push_coil_bits_eq byte_bits_def)
  show ?case
  proof (cases "n = 0")
    case True
    with packed bs v show ?thesis by simp
  next
    case False
    with Suc.prems have "length values + 8 < qty" by simp
    with v have v': "?v = values @ byte_bits b" by simp
    have "read_coil_bytes n qty ?v (bs @ rest) = Ok (take qty (?v @ unpack_bits bs), rest)
          \<or> qty < length ?v"
      using Suc.prems bs \<open>length values + 8 < qty\<close>
      by (intro Suc.IH) (simp_all add: v')
    with packed v' \<open>length values + 8 < qty\<close> show ?thesis by simp
  qed
qed

lemma read_coil_bytes_eq:
  assumes "0 < qty" and "length packed = div_ceil qty 8"
  shows "read_coil_bytes (div_ceil qty 8) qty [] (packed @ rest)
       = Ok (take qty (unpack_bits packed), rest)"
proof -
  have "8 * div_ceil qty 8 < qty + 8" by (simp add: div_ceil_8)
  with read_coil_bytes_append [of "[]" "div_ceil qty 8" qty packed rest] assms
  show ?thesis by simp
qed

lemma read_coil_bytes_Ok_iff:
  assumes "div_ceil qty 8 \<le> length data" and "0 < qty"
  shows "read_coil_bytes (div_ceil qty 8) qty [] data = Ok (vs, rest) \<longleftrightarrow>
    (\<exists>packed. data = packed @ rest \<and> length packed = div_ceil qty 8
       \<and> vs = take qty (unpack_bits packed))"
proof
  assume read: "read_coil_bytes (div_ceil qty 8) qty [] data = Ok (vs, rest)"
  let ?p = "take (div_ceil qty 8) data" and ?r = "drop (div_ceil qty 8) data"
  have "read_coil_bytes (div_ceil qty 8) qty [] (?p @ ?r) = Ok (take qty (unpack_bits ?p), ?r)"
    using assms by (intro read_coil_bytes_eq) simp_all
  with read have "vs = take qty (unpack_bits ?p)" and "rest = ?r" by simp_all
  with assms show "\<exists>packed. data = packed @ rest \<and> length packed = div_ceil qty 8
       \<and> vs = take qty (unpack_bits packed)"
    by (intro exI [of _ ?p]) simp
next
  assume "\<exists>packed. data = packed @ rest \<and> length packed = div_ceil qty 8
       \<and> vs = take qty (unpack_bits packed)"
  with assms(2) show "read_coil_bytes (div_ceil qty 8) qty [] data = Ok (vs, rest)"
    using read_coil_bytes_eq by auto
qed

lemma read_coil_bytes_not_Panic [no_panic]:
  "n \<le> length data \<Longrightarrow> read_coil_bytes n qty values data \<noteq> Panic"
proof (induction n arbitrary: "values" data)
  case 0
  then show ?case by simp
next
  case (Suc n)
  then obtain b bs where "data = b # bs" by (cases data) auto
  with Suc show ?case by (simp add: outcome_simps)
qed

lemma push_byte_bits_eq: "push_byte_bits byte bits = bits @ byte_bits byte"
proof -
  have "fold (\<lambda>i bits. bits @ [byte AND push_bit i 1 \<noteq> 0]) ixs bits = bits @ map (bit byte) ixs"
    if "\<forall>i \<in> set ixs. i < 8" for ixs bits
    using that
  proof (induction ixs arbitrary: bits)
    case (Cons i ixs)
    then show ?case using test_bit_mask [of i byte] by simp
  qed simp
  then show ?thesis by (simp add: push_byte_bits_def byte_bits_def)
qed

lemma read_bit_bytes_append:
  "read_bit_bytes (length packed) bits (packed @ rest) = Ok (bits @ unpack_bits packed, rest)"
  by (induction packed arbitrary: bits) (auto simp: push_byte_bits_eq)

lemma read_bit_bytes_not_Panic [no_panic]:
  "n \<le> length data \<Longrightarrow> read_bit_bytes n bits data \<noteq> Panic"
proof (induction n arbitrary: bits data)
  case 0
  then show ?case by simp
next
  case (Suc n)
  then obtain b bs where "data = b # bs" by (cases data) auto
  with Suc show ?case by (simp add: outcome_simps)
qed

section \<open>Canonical wire forms\<close>

abbreviation be_bytes :: "u16 \<Rightarrow> bytes" where
  "be_bytes w \<equiv> [hi8 w, lo8 w]"

definition coil_value :: "bool \<Rightarrow> u16" where
  "coil_value v = (if v then 0xFF00 else 0x0000)"

lemma coil_value_inject [simp]: "coil_value v = coil_value v' \<longleftrightarrow> v = v'"
  by (simp add: coil_value_def)

definition packed_coils :: "bool list \<Rightarrow> bytes" where
  "packed_coils vs = map pack_byte (chunks 8 vs)"

lemma length_packed_coils [simp]: "length (packed_coils vs) = div_ceil (length vs) 8"
  by (simp add: packed_coils_def)

lemma unpack_packed_coils [simp]: "unpack_bits (packed_coils vs) = pad8 vs"
  by (simp add: packed_coils_def unpack_pack_chunks)

fun request_pdu :: "Request \<Rightarrow> bytes" where
  "request_pdu (Request.ReadCoils a q) = 1 # be_bytes a @ be_bytes q"
| "request_pdu (Request.ReadDiscreteInputs a q) = 2 # be_bytes a @ be_bytes q"
| "request_pdu (Request.ReadHoldingRegisters a q) = 3 # be_bytes a @ be_bytes q"
| "request_pdu (Request.ReadInputRegisters a q) = 4 # be_bytes a @ be_bytes q"
| "request_pdu (Request.WriteSingleCoil a v) = 5 # be_bytes a @ be_bytes (coil_value v)"
| "request_pdu (Request.WriteSingleRegister a w) = 6 # be_bytes a @ be_bytes w"
| "request_pdu (Request.WriteMultipleCoils a vs) =
     15 # be_bytes a @ be_bytes (of_nat (length vs)) @ of_nat (div_ceil (length vs) 8) # packed_coils vs"
| "request_pdu (Request.WriteMultipleRegisters a ws) =
     16 # be_bytes a @ be_bytes (of_nat (length ws)) @ of_nat (length ws * 2) # u16_bytes ws"
| "request_pdu (Request.ReadWriteMultipleRegisters ra rq wa ws) =
     23 # be_bytes ra @ be_bytes rq @ be_bytes wa @ be_bytes (of_nat (length ws))
        @ of_nat (length ws * 2) # u16_bytes ws"
| "request_pdu (Request.MaskWriteRegister a m n) = 22 # be_bytes a @ be_bytes m @ be_bytes n"
| "request_pdu (Request.Diagnostic sf d) = 8 # be_bytes sf @ be_bytes d"
| "request_pdu Request.Disconnect = []"

fun request_fits :: "Request \<Rightarrow> bool" where
  "request_fits (Request.WriteMultipleCoils a vs) = (length vs \<le> 1976)"
| "request_fits (Request.WriteMultipleRegisters a ws) = (length ws \<le> 123)"
| "request_fits (Request.ReadWriteMultipleRegisters ra rq wa ws) = (length ws \<le> 121)"
| "request_fits _ = True"

fun request_legal :: "Request \<Rightarrow> bool" where
  "request_legal (Request.ReadCoils a q) = range_ok a (unat q) 2000"
| "request_legal (Request.ReadDiscreteInputs a q) = range_ok a (unat q) 2000"
| "request_legal (Request.ReadHoldingRegisters a q) = range_ok a (unat q) 125"
| "request_legal (Request.ReadInputRegisters a q) = range_ok a (unat q) 125"
| "request_legal (Request.WriteMultipleCoils a vs) = range_ok a (length vs) 2000"
| "request_legal (Request.WriteMultipleRegisters a ws) = range_ok a (length ws) 125"
| "request_legal (Request.ReadWriteMultipleRegisters ra rq wa ws) =
     (range_ok ra (unat rq) 125 \<and> range_ok wa (length ws) 125)"
| "request_legal Request.Disconnect = False"
| "request_legal _ = True"

text \<open>
  The wire forms of a request: the canonical one, and for a multiple-coil write any filling
  of the padding bits of the last byte.
\<close>

definition request_wire :: "Request \<Rightarrow> bytes \<Rightarrow> bool" where
  "request_wire req pdu \<longleftrightarrow>
     (case req of
        Request.WriteMultipleCoils a vs \<Rightarrow>
          (\<exists>packed. length packed = div_ceil (length vs) 8 \<and> take (length vs) (unpack_bits packed) = vs
             \<and> pdu = 15 # be_bytes a @ be_bytes (of_nat (length vs)) @ of_nat (length packed) # packed)
      | _ \<Rightarrow> pdu = request_pdu req)"

lemma request_wire_pdu: "request_wire req (request_pdu req)"
  by (cases req) (auto simp: request_wire_def intro!: exI [of _ "packed_coils _"])

section \<open>Encoders succeed exactly on what fits\<close>

lemma put_chunks_eq [simp]: "put_chunks vs buf = buf @ packed_coils vs"
proof -
  have "fold (\<lambda>chunk buf. put_u8 buf (pack_byte chunk)) cs buf = buf @ map pack_byte cs" for cs
    by (induction cs arbitrary: buf) (auto simp: put_u8_def)
  then show ?thesis by (simp add: put_chunks_def packed_coils_def)
qed

lemma push_regs_eq [simp]: "push_regs ws buf = buf @ u16_bytes ws"
  by (simp add: push_regs_def push_u16_def fold_put_u16)

lemma push_u16_eq [simp]: "push_u16 buf w = buf @ be_bytes w"
  by (simp add: push_u16_def put_u16_def)

lemma safe_u8_cases [simp]:
  "n \<le> 255 \<Longrightarrow> safe_u8 n c = Inr (of_nat n)"
  "\<not> n \<le> 255 \<Longrightarrow> safe_u8 n c = Inl (IoError InvalidData (c @ '': value '' @ show_nat n @ '' exceeds u8 range''))"
  by (simp_all add: safe_u8_def)

lemma encode_request_pdu:
  "encode_request req buf = (Inr (), buf') \<longleftrightarrow>
     buf' = buf @ request_pdu req \<and>
     (case req of Request.WriteMultipleCoils a vs \<Rightarrow> div_ceil (length vs) 8 \<le> 255
      | Request.WriteMultipleRegisters a ws \<Rightarrow> length ws \<le> 127
      | Request.ReadWriteMultipleRegisters ra rq wa ws \<Rightarrow> length ws \<le> 127
      | _ \<Rightarrow> True)"
proof (cases req)
  case (WriteMultipleCoils a vs)
  then show ?thesis
    by (cases "div_ceil (length vs) 8 \<le> 255") (auto simp: encode_request_def put_u8_def Let_def)
next
  case (WriteMultipleRegisters a ws)
  then show ?thesis
    by (cases "length ws * 2 \<le> 255") (auto simp: encode_request_def put_u8_def Let_def)
next
  case (ReadWriteMultipleRegisters ra rq wa ws)
  then show ?thesis
    by (cases "length ws * 2 \<le> 255") (auto simp: encode_request_def put_u8_def Let_def)
qed (auto simp: encode_request_def put_u8_def put_u16_def coil_value_def)

lemma length_request_pdu_fits:
  assumes "encode_request req buf = (Inr (), buf')"
  shows "length (request_pdu req) \<le> MAX_PDU_SIZE \<longleftrightarrow> request_fits req"
  using assms unfolding encode_request_pdu
  by (cases req) (auto simp: limit_defs div_ceil_8)

lemma encode_request_into_fits:
  assumes "request_fits req"
  shows "encode_request_into req buf = (Inr (), buf @ request_pdu req)"
proof -
  have "encode_request req buf = (Inr (), buf @ request_pdu req)"
    unfolding encode_request_pdu using assms by (cases req) (auto simp: div_ceil_8)
  moreover from length_request_pdu_fits [OF this] assms
  have "length (request_pdu req) \<le> MAX_PDU_SIZE" by simp
  ultimately show ?thesis by (simp add: encode_request_into_def)
qed

lemma encode_request_into_oversized:
  assumes "\<not> request_fits req"
  shows "isl (fst (encode_request_into req buf))"
proof (cases "encode_request req buf")
  case (Pair r buf')
  show ?thesis
  proof (cases r)
    case (Inl e)
    with Pair show ?thesis by (simp add: encode_request_into_def)
  next
    case (Inr u)
    with Pair have enc: "encode_request req buf = (Inr (), buf')" by simp
    then have "buf' = buf @ request_pdu req" by (simp add: encode_request_pdu)
    moreover from length_request_pdu_fits [OF enc] assms
    have "\<not> length (request_pdu req) \<le> MAX_PDU_SIZE" by simp
    ultimately show ?thesis using enc by (simp add: encode_request_into_def)
  qed
qed

section \<open>What the request decoder accepts\<close>

lemma unat_of_nat_u16: "n < 65536 \<Longrightarrow> unat (of_nat n :: u16) = n"
  by (simp add: unat_of_nat take_bit_nat_eq_self)

lemma unat_of_nat_u8: "n < 256 \<Longrightarrow> unat (of_nat n :: u8) = n"
  by (simp add: unat_of_nat take_bit_nat_eq_self)

lemma unat_eq_u16: "n < 65536 \<Longrightarrow> unat (w :: u16) = n \<longleftrightarrow> w = of_nat n"
  using unat_of_nat_u16 [of n] by auto

lemma unat_eq_u8: "n < 256 \<Longrightarrow> unat (b :: u8) = n \<longleftrightarrow> b = of_nat n"
  using unat_of_nat_u8 [of n] by auto

lemma unat_limits [simp]: "unat MAX_COILS = 2000" "unat MAX_REGISTERS = 125"
  by (simp_all add: limit_defs)

lemma raw_coil_iff:
  "(if raw = 0xFF00 then Ok (f True) else if raw = 0x0000 then Ok (f False) else Err e) = Ok y
    \<longleftrightarrow> (\<exists>v. raw = coil_value v \<and> y = f v)"
  by (auto simp: coil_value_def split: if_splits)

lemma decode_write_multiple_coils_Ok_iff:
  "decode_write_multiple_coils data = Ok (req, rest) \<longleftrightarrow>
     (\<exists>a vs pdu. req = Request.WriteMultipleCoils a vs \<and> request_legal req
        \<and> request_wire req (15 # pdu) \<and> data = pdu @ rest)"
  (is "?L \<longleftrightarrow> ?R")
proof
  assume ?L
  then obtain a q bc data' packed where
    data: "data = be_bytes a @ be_bytes q @ bc # data'" and ok: "range_ok a (unat q) 2000"
    and bc: "unat bc = div_ceil (unat q) 8"
    and packed: "data' = packed @ rest" "length packed = div_ceil (unat q) 8"
    and req: "req = Request.WriteMultipleCoils a (take (unat q) (unpack_bits packed))"
    unfolding decode_write_multiple_coils_def
    by (auto simp: outcome_simps Let_def range_ok_def read_coil_bytes_Ok_iff not_less
        simp del: unpack_bits_simps split: if_splits)
  let ?vs = "take (unat q) (unpack_bits packed)"
  have len: "length ?vs = unat q"
    using packed(2) by (simp add: div_ceil_8)
  have "bc = of_nat (length packed)"
    using packed(2) by (simp flip: bc)
  moreover have "q = of_nat (length ?vs)" using len by simp
  ultimately have "request_wire req (15 # be_bytes a @ be_bytes q @ bc # packed)"
    unfolding req request_wire_def using len packed(2) by (auto intro!: exI [of _ packed])
  then show ?R
    using req ok len data packed(1) by (intro exI [of _ a] exI [of _ ?vs]
        exI [of _ "be_bytes a @ be_bytes q @ bc # packed"]) simp
next
  assume ?R
  then obtain a vs packed where req: "req = Request.WriteMultipleCoils a vs"
    and legal: "range_ok a (length vs) 2000"
    and packed: "length packed = div_ceil (length vs) 8" "take (length vs) (unpack_bits packed) = vs"
    and data: "data = be_bytes a @ be_bytes (of_nat (length vs)) @ of_nat (length packed) # packed @ rest"
    by (auto simp: request_wire_def)
  from legal have n: "unat (of_nat (length vs) :: u16) = length vs"
    by (simp add: range_ok_def unat_of_nat_u16)
  from legal packed(1) have m: "unat (of_nat (length packed) :: u8) = length packed"
    unfolding packed(1) div_ceil_8 range_ok_def by (intro unat_of_nat_u8) linarith
  from legal have pos: "0 < length vs" unfolding range_ok_def by linarith
  have "read_coil_bytes (div_ceil (length vs) 8) (length vs) [] (packed @ rest) = Ok (vs, rest)"
    using read_coil_bytes_eq [OF pos packed(1)] packed(2) by simp
  then show ?L
    unfolding decode_write_multiple_coils_def data req
    using legal n m packed(1)
    by (simp add: read_evals Let_def not_less)
qed

lemma decode_write_multiple_registers_Ok_iff:
  "decode_write_multiple_registers data = Ok (req, rest) \<longleftrightarrow>
     (\<exists>a ws pdu. req = Request.WriteMultipleRegisters a ws \<and> request_legal req
        \<and> request_wire req (16 # pdu) \<and> data = pdu @ rest)"
  (is "?L \<longleftrightarrow> ?R")
proof
  assume ?L
  then obtain a q bc ws where
    data: "data = be_bytes a @ be_bytes q @ bc # u16_bytes ws @ rest"
    and ok: "range_ok a (unat q) 125" and bc: "unat bc = unat q * 2" and len: "length ws = unat q"
    and req: "req = Request.WriteMultipleRegisters a ws"
    unfolding decode_write_multiple_registers_def
    by (auto simp: outcome_simps Let_def get_u16s_Ok_iff not_less split: if_splits)
  have "q = of_nat (length ws)" "bc = of_nat (length ws * 2)" 
    by (simp_all add: len flip: bc)
  then show ?R using data ok len req by (auto simp: request_wire_def)
next
  assume ?R
  then obtain a ws where req: "req = Request.WriteMultipleRegisters a ws"
    and legal: "range_ok a (length ws) 125"
    and data: "data = be_bytes a @ be_bytes (of_nat (length ws)) @ of_nat (length ws * 2) # u16_bytes ws @ rest"
    by (auto simp: request_wire_def)
  from legal have n: "unat (of_nat (length ws) :: u16) = length ws"
    "unat (of_nat (length ws * 2) :: u8) = length ws * 2"
    by (auto simp: range_ok_def intro!: unat_of_nat_u16 unat_of_nat_u8 simp del: of_nat_mult)
  then show ?L
    unfolding decode_write_multiple_registers_def data req using legal
    by (simp add: read_evals Let_def not_less del: of_nat_mult)
qed

lemma decode_read_write_registers_Ok_iff:
  "decode_read_write_registers data = Ok (req, rest) \<longleftrightarrow>
     (\<exists>ra rq wa ws pdu. req = Request.ReadWriteMultipleRegisters ra rq wa ws \<and> request_legal req
        \<and> request_wire req (23 # pdu) \<and> data = pdu @ rest)"
  (is "?L \<longleftrightarrow> ?R")
proof
  assume ?L
  then obtain ra rq wa q bc ws where
    data: "data = be_bytes ra @ be_bytes rq @ be_bytes wa @ be_bytes q @ bc # u16_bytes ws @ rest"
    and ok: "range_ok ra (unat rq) 125" "range_ok wa (unat q) 125"
    and bc: "unat bc = unat q * 2" and len: "length ws = unat q"
    and req: "req = Request.ReadWriteMultipleRegisters ra rq wa ws"
    unfolding decode_read_write_registers_def
    by (auto simp: outcome_simps Let_def get_u16s_Ok_iff not_less range_ok_def word_le_nat_alt
        unat_gt_0 Suc_le_eq split: if_splits)
  have "q = of_nat (length ws)" "bc = of_nat (length ws * 2)"
    by (simp_all add: len flip: bc)
  then show ?R using data ok len req by (auto simp: request_wire_def)
next
  assume ?R
  then obtain ra rq wa ws where req: "req = Request.ReadWriteMultipleRegisters ra rq wa ws"
    and legal: "range_ok ra (unat rq) 125" "range_ok wa (length ws) 125"
    and data: "data = be_bytes ra @ be_bytes rq @ be_bytes wa @ be_bytes (of_nat (length ws))
        @ of_nat (length ws * 2) # u16_bytes ws @ rest"
    by (auto simp: request_wire_def)
  from legal have n: "unat (of_nat (length ws) :: u16) = length ws"
    "unat (of_nat (length ws * 2) :: u8) = length ws * 2"
    by (auto simp: range_ok_def intro!: unat_of_nat_u16 unat_of_nat_u8 simp del: of_nat_mult)
  then show ?L
    unfolding decode_read_write_registers_def data req using legal
    by (simp add: range_ok_def read_evals Let_def not_less del: of_nat_mult)
qed

lemma decode_simple_Ok_iffs:
  "decode_write_single_coil data = Ok (req, rest) \<longleftrightarrow>
     (\<exists>a v. req = Request.WriteSingleCoil a v \<and> data = be_bytes a @ be_bytes (coil_value v) @ rest)"
  "decode_write_single_register data = Ok (req, rest) \<longleftrightarrow>
     (\<exists>a w. req = Request.WriteSingleRegister a w \<and> data = be_bytes a @ be_bytes w @ rest)"
  "decode_mask_write_register data = Ok (req, rest) \<longleftrightarrow>
     (\<exists>a m n. req = Request.MaskWriteRegister a m n \<and> data = be_bytes a @ be_bytes m @ be_bytes n @ rest)"
  "decode_diagnostic data = Ok (req, rest) \<longleftrightarrow>
     (\<exists>sf d. req = Request.Diagnostic sf d \<and> data = be_bytes sf @ be_bytes d @ rest)"
  by (fastforce simp: decode_write_single_coil_def decode_write_single_register_def
      decode_mask_write_register_def decode_diagnostic_def outcome_simps coil_value_def
      split: if_splits)+

lemma decode_read_request_Ok_iff:
  "decode_read_request fc data = Ok (req, rest) \<longleftrightarrow>
     (\<exists>a q. data = be_bytes a @ be_bytes q @ rest \<and>
       (if fc = 1 then req = Request.ReadCoils a q \<and> range_ok a (unat q) 2000
        else if fc = 2 then req = Request.ReadDiscreteInputs a q \<and> range_ok a (unat q) 2000
        else if fc = 3 then req = Request.ReadHoldingRegisters a q \<and> range_ok a (unat q) 125
        else req = Request.ReadInputRegisters a q \<and> range_ok a (unat q) 125))"
  by (auto simp: decode_read_request_def outcome_simps)

lemma request_wire_fc: "request_wire req (fc # pdu) \<Longrightarrow> fc = request_fc req"
  by (cases req) (auto simp: request_wire_def)

lemma decode_request_Ok_iff:
  "decode_request fc data = Ok (req, rest) \<longleftrightarrow>
     request_legal req \<and> (\<exists>pdu. request_wire req (fc # pdu) \<and> data = pdu @ rest)"
proof (cases req)
  case (WriteMultipleCoils a vs)
  then show ?thesis
    by (auto simp: decode_request_def decode_write_multiple_coils_Ok_iff decode_simple_Ok_iffs
        decode_read_request_Ok_iff decode_write_multiple_registers_Ok_iff
        decode_read_write_registers_Ok_iff dest: request_wire_fc)
next
  case (WriteMultipleRegisters a ws)
  then show ?thesis
    by (auto simp: decode_request_def decode_write_multiple_coils_Ok_iff decode_simple_Ok_iffs
        decode_read_request_Ok_iff decode_write_multiple_registers_Ok_iff
        decode_read_write_registers_Ok_iff dest: request_wire_fc)
next
  case (ReadWriteMultipleRegisters ra rq wa ws)
  then show ?thesis
    by (auto simp: decode_request_def decode_write_multiple_coils_Ok_iff decode_simple_Ok_iffs
        decode_read_request_Ok_iff decode_write_multiple_registers_Ok_iff
        decode_read_write_registers_Ok_iff dest: request_wire_fc)
qed (auto simp: decode_request_def decode_write_multiple_coils_Ok_iff decode_simple_Ok_iffs
        decode_read_request_Ok_iff decode_write_multiple_registers_Ok_iff
        decode_read_write_registers_Ok_iff request_wire_def)

lemma request_try_from_Ok_iff:
  "request_try_from bs = Ok req \<longleftrightarrow>
     request_legal req \<and> (\<exists>pdu rest. request_wire req pdu \<and> bs = pdu @ rest)"
proof (cases bs)
  case Nil
  then show ?thesis by (cases req) (auto simp: request_wire_def)
next
  case (Cons fc data)
  have "(\<exists>pdu rest. request_wire req pdu \<and> bs = pdu @ rest) \<longleftrightarrow>
      (\<exists>pdu rest. request_wire req (fc # pdu) \<and> data = pdu @ rest)"
    if "request_legal req"
  proof
    assume "\<exists>pdu rest. request_wire req pdu \<and> bs = pdu @ rest"
    then obtain pdu rest where w: "request_wire req pdu" "bs = pdu @ rest" by blast
    then have "pdu \<noteq> []" using that by (cases req) (auto simp: request_wire_def)
    with w Cons show "\<exists>pdu rest. request_wire req (fc # pdu) \<and> data = pdu @ rest"
      by (cases pdu) auto
  next
    assume "\<exists>pdu rest. request_wire req (fc # pdu) \<and> data = pdu @ rest"
    with Cons show "\<exists>pdu rest. request_wire req pdu \<and> bs = pdu @ rest" by fastforce
  qed
  with Cons show ?thesis
    by (auto simp: outcome_simps decode_request_Ok_iff)
qed

section \<open>No panic\<close>

lemma decode_write_multiple_coils_not_Panic: "decode_write_multiple_coils data \<noteq> Panic"
  unfolding decode_write_multiple_coils_def Let_def
  by (auto simp: outcome_simps not_less read_coil_bytes_not_Panic split: if_splits)

lemma decode_write_multiple_registers_not_Panic: "decode_write_multiple_registers data \<noteq> Panic"
  unfolding decode_write_multiple_registers_def Let_def
  by (auto simp: outcome_simps not_less mult.commute get_u16s_not_Panic split: if_splits)

lemma decode_read_write_registers_not_Panic: "decode_read_write_registers data \<noteq> Panic"
  unfolding decode_read_write_registers_def Let_def
  by (auto simp: outcome_simps not_less mult.commute get_u16s_not_Panic split: if_splits)

lemma decode_request_not_Panic: "decode_request fc data \<noteq> Panic"
  by (auto simp: decode_request_def decode_read_request_def decode_write_single_coil_def
      decode_write_single_register_def decode_mask_write_register_def decode_diagnostic_def
      decode_write_multiple_coils_not_Panic decode_write_multiple_registers_not_Panic
      decode_read_write_registers_not_Panic
      outcome_simps split: if_splits)

section \<open>Responses\<close>

lemma top_bit_simps [simp]:
  "(b OR 0x80) AND 0x80 \<noteq> (0 :: u8)" "(b OR 0x80) AND 0x7F = b AND (0x7F :: u8)"
  by (simp_all add: bit.conj_disj_distrib2 or_eq_0_iff)

lemma u8_of_exception_of_u8 [simp]: "u8_of_exception (exception_of_u8 c) = c"
  by (simp add: exception_of_u8_def)

text \<open>
  The exception codes of the Modbus specification.  A custom exception has its own code; when that is
  a code of the table, the receiver sees the exception named there.
\<close>

definition named_exceptions :: "(u8 \<times> Exception) list" where
  "named_exceptions =
     [(1, IllegalFunction), (2, IllegalDataAddress), (3, IllegalDataValue), (4, ServerDeviceFailure),
      (5, Acknowledge), (6, ServerDeviceBusy), (7, NegativeAcknowledge), (8, MemoryParityError),
      (10, GatewayPathUnavailable), (11, GatewayTargetDeviceFailedToRespond)]"

definition exception_code :: "Exception \<Rightarrow> u8" where
  "exception_code ex =
     (case ex of Custom n \<Rightarrow> n | _ \<Rightarrow> the (map_of (map prod.swap named_exceptions) ex))"

definition exception_seen :: "Exception \<Rightarrow> Exception" where
  "exception_seen ex =
     (case ex of Custom n \<Rightarrow> (case map_of named_exceptions n of Some named \<Rightarrow> named | None \<Rightarrow> ex) | _ \<Rightarrow> ex)"

lemma exception_code_eq [simp]: "exception_code ex = u8_of_exception ex"
  by (cases ex) (simp_all add: exception_code_def named_exceptions_def)

lemma exception_seen_eq [simp]: "exception_seen ex = exception_of_u8 (u8_of_exception ex)"
  by (cases ex) (simp_all add: exception_seen_def named_exceptions_def exception_of_u8_def)

lemma take_bit_7 [simp]: "take_bit 7 (fc :: u8) = fc AND 0x7F"
  by (simp add: take_bit_eq_mask mask_eq_exp_minus_1)

fun response_pdu :: "Response \<Rightarrow> bytes" where
  "response_pdu (Response.ReadCoils bits) = 1 # of_nat (div_ceil (length bits) 8) # packed_coils bits"
| "response_pdu (Response.ReadDiscreteInputs bits) =
     2 # of_nat (div_ceil (length bits) 8) # packed_coils bits"
| "response_pdu (Response.ReadHoldingRegisters ws) = 3 # of_nat (length ws * 2) # u16_bytes ws"
| "response_pdu (Response.ReadInputRegisters ws) = 4 # of_nat (length ws * 2) # u16_bytes ws"
| "response_pdu (Response.WriteSingleCoil a v) = 5 # be_bytes a @ be_bytes (coil_value v)"
| "response_pdu (Response.WriteSingleRegister a w) = 6 # be_bytes a @ be_bytes w"
| "response_pdu (Response.WriteMultipleCoils a q) = 15 # be_bytes a @ be_bytes q"
| "response_pdu (Response.WriteMultipleRegisters a q) = 16 # be_bytes a @ be_bytes q"
| "response_pdu (Response.ReadWriteMultipleRegisters ws) = 23 # of_nat (length ws * 2) # u16_bytes ws"
| "response_pdu (Response.MaskWriteRegister a m n) = 22 # be_bytes a @ be_bytes m @ be_bytes n"
| "response_pdu (Response.Diagnostic sf d) = 8 # be_bytes sf @ be_bytes d"
| "response_pdu (Response.Exception fc ex) = [fc OR 0x80, exception_code ex]"

fun response_fits :: "Response \<Rightarrow> bool" where
  "response_fits (Response.ReadCoils bits) = (length bits \<le> 2008)"
| "response_fits (Response.ReadDiscreteInputs bits) = (length bits \<le> 2008)"
| "response_fits (Response.ReadHoldingRegisters ws) = (length ws \<le> 125)"
| "response_fits (Response.ReadInputRegisters ws) = (length ws \<le> 125)"
| "response_fits (Response.ReadWriteMultipleRegisters ws) = (length ws \<le> 125)"
| "response_fits _ = True"

text \<open>
  What a decoder makes of an encoded response: coil lists come back padded to bytes, the function
  code of an exception without its top bit, a custom exception as the named one of its code.  The
  responses that need none of this come back as they are.
\<close>

fun response_view :: "Response \<Rightarrow> Response" where
  "response_view (Response.ReadCoils bits) = Response.ReadCoils (pad8 bits)"
| "response_view (Response.ReadDiscreteInputs bits) = Response.ReadDiscreteInputs (pad8 bits)"
| "response_view (Response.Exception fc ex) =
     Response.Exception (take_bit 7 fc) (exception_seen ex)"
| "response_view rsp = rsp"

fun response_plain :: "Response \<Rightarrow> bool" where
  "response_plain (Response.ReadCoils bits) = (8 dvd length bits)"
| "response_plain (Response.ReadDiscreteInputs bits) = (8 dvd length bits)"
| "response_plain (Response.Exception fc ex) =
     (fc < 0x80 \<and> (case ex of Custom n \<Rightarrow> n \<notin> set (map fst named_exceptions) | _ \<Rightarrow> True))"
| "response_plain rsp = True"

lemma response_view_plain:
  assumes "response_plain rsp"
  shows "response_view rsp = rsp"
proof (cases rsp)
  case (Exception fc ex)
  have "exception_seen ex = ex"
    using assms Exception
    by (auto simp: exception_seen_def map_of_eq_None_iff [THEN iffD2] split: Exception.split option.split
        simp del: exception_seen_eq dest!: map_of_SomeD)
      force
  moreover have "take_bit 7 fc = fc"
    using assms Exception
    by (intro word_unat_eq_iff [THEN iffD2])
      (simp add: unsigned_take_bit_eq take_bit_nat_eq_self_iff word_less_nat_alt del: take_bit_7)
  ultimately show ?thesis using Exception by (simp del: exception_seen_eq take_bit_7)
qed (use assms in \<open>auto simp: pad8_def div_ceil_8 elim: dvdE\<close>)

lemma coils_fit: "2 + div_ceil n 8 \<le> MAX_PDU_SIZE \<longleftrightarrow> n \<le> 2008"
  unfolding limit_defs div_ceil_8 by linarith

lemma encode_coils_eq:
  "div_ceil (length bits) 8 \<le> 255 \<Longrightarrow>
     encode_coils fc bits buf = (Inr (), buf @ fc # of_nat (div_ceil (length bits) 8) # packed_coils bits)"
  by (simp add: encode_coils_def put_u8_def)

lemma encode_regs_eq:
  "length ws \<le> 127 \<Longrightarrow>
     encode_regs fc ws buf = (Inr (), buf @ fc # of_nat (length ws * 2) # u16_bytes ws)"
  by (simp add: encode_regs_def put_u8_def Let_def)

lemma validate_regs_iff: "validate_regs ws = Inr () \<longleftrightarrow> length ws \<le> 127"
  by (cases "length ws \<le> 127") (auto simp: validate_regs_def checked_mul_usize_def USIZE_MAX_def)

lemma validate_regs_isl: "isl (validate_regs ws) \<longleftrightarrow> \<not> length ws \<le> 127"
  by (cases "length ws \<le> 127") (auto simp: validate_regs_def checked_mul_usize_def USIZE_MAX_def)

lemma isl_validate_response_size:
  "isl (validate_response_size rsp) \<longleftrightarrow>
     (case rsp of Response.ReadCoils bits \<Rightarrow> \<not> div_ceil (length bits) 8 \<le> 255
      | Response.ReadDiscreteInputs bits \<Rightarrow> \<not> div_ceil (length bits) 8 \<le> 255
      | Response.ReadHoldingRegisters ws \<Rightarrow> \<not> length ws \<le> 127
      | Response.ReadInputRegisters ws \<Rightarrow> \<not> length ws \<le> 127
      | Response.ReadWriteMultipleRegisters ws \<Rightarrow> \<not> length ws \<le> 127
      | _ \<Rightarrow> False)"
  by (cases rsp) (auto simp: validate_regs_isl safe_u8_def)

lemma encode_response_pdu:
  "\<not> isl (validate_response_size rsp) \<Longrightarrow> encode_response rsp buf = (Inr (), buf @ response_pdu rsp)"
  by (cases rsp)
    (auto simp: isl_validate_response_size encode_response_def encode_coils_eq encode_regs_eq
      put_u8_def put_u16_def coil_value_def simp del: validate_response_size.simps)

lemma length_response_pdu_fits:
  "\<not> isl (validate_response_size rsp) \<Longrightarrow> length (response_pdu rsp) \<le> MAX_PDU_SIZE \<longleftrightarrow> response_fits rsp"
  using coils_fit by (cases rsp) (auto simp: limit_defs simp del: validate_response_size.simps)

lemma response_fits_valid: "response_fits rsp \<Longrightarrow> \<not> isl (validate_response_size rsp)"
  unfolding isl_validate_response_size by (cases rsp) (auto simp: div_ceil_8)

lemma encode_response_into_fits:
  assumes "response_fits rsp"
  shows "encode_response_into rsp buf = (Inr (), buf @ response_pdu rsp)"
proof -
  note ok = response_fits_valid [OF assms]
  from ok have "validate_response_size rsp = Inr ()"
    by (cases "validate_response_size rsp") auto
  with encode_response_pdu [OF ok] length_response_pdu_fits [OF ok] assms show ?thesis
    by (simp add: encode_response_into_def)
qed

lemma encode_response_into_oversized:
  assumes "\<not> response_fits rsp"
  shows "\<exists>e. encode_response_into rsp buf = (Inl e, buf)"
proof (cases "validate_response_size rsp")
  case (Inl e)
  then show ?thesis by (simp add: encode_response_into_def)
next
  case (Inr u)
  then have ok: "\<not> isl (validate_response_size rsp)" by simp
  with encode_response_pdu [OF ok] length_response_pdu_fits [OF ok] assms Inr show ?thesis
    by (simp add: encode_response_into_def)
qed

lemma encode_response_into_cases:
  obtains (fits) "response_fits rsp" "encode_response_into rsp buf = (Inr (), buf @ response_pdu rsp)"
  | (oversized) e where "\<not> response_fits rsp" "encode_response_into rsp buf = (Inl e, buf)"
  using encode_response_into_fits encode_response_into_oversized by blast

lemma decode_bits_response_Ok_iff [outcome_simps]:
  "decode_bits_response data = Ok (bits, rest) \<longleftrightarrow>
     (\<exists>packed. length packed \<le> 255 \<and> bits = unpack_bits packed
        \<and> data = of_nat (length packed) # packed @ rest)"
  (is "?L \<longleftrightarrow> ?R")
proof
  assume ?L
  then obtain n data' where data: "data = n # data'" "unat n \<le> length data'"
    and read: "read_bit_bytes (unat n) [] data' = Ok (bits, rest)"
    by (auto simp: decode_bits_response_def outcome_simps Let_def not_less split: if_splits)
  let ?p = "take (unat n) data'"
  have len: "length ?p = unat n" using data by simp
  have "read_bit_bytes (length ?p) [] (?p @ drop (unat n) data') = Ok ([] @ unpack_bits ?p, drop (unat n) data')"
    by (rule read_bit_bytes_append)
  with read len have "bits = unpack_bits ?p" "data' = ?p @ rest" by simp_all
  with data len show ?R
    using unat_u8_less [of n] by (intro exI [of _ ?p]) (simp del: unat_u8_less)
next
  assume ?R
  then show ?L
    by (auto simp: decode_bits_response_def Let_def unat_of_nat_u8 read_bit_bytes_append)
qed

lemma decode_regs_response_Ok_iff [outcome_simps]:
  "decode_regs_response what trunc data = Ok (ws, rest) \<longleftrightarrow>
     length ws \<le> 127 \<and> data = of_nat (length ws * 2) # u16_bytes ws @ rest"
  (is "?L \<longleftrightarrow> ?R")
proof
  assume ?L
  then obtain n where n: "even (unat n)" "length ws = unat n div 2"
    and data: "data = n # u16_bytes ws @ rest"
    by (auto simp: decode_regs_response_def outcome_simps Let_def get_u16s_Ok_iff split: if_splits)
  then have len: "unat n = length ws * 2" by auto
  then have "n = of_nat (length ws * 2)" by (metis unat_eq_u8 unat_u8_less)
  with data len show ?R using unat_u8_less [of n] by (simp del: unat_u8_less)
next
  assume ?R
  moreover from this have "unat (of_nat (length ws * 2) :: u8) = length ws * 2"
    by (intro unat_of_nat_u8) simp
  ultimately show ?L by (simp add: decode_regs_response_def Let_def del: of_nat_mult)
qed

lemma read_two_Ok_iff [outcome_simps]:
  "read_two con data = Ok (rsp, rest) \<longleftrightarrow>
     (\<exists>a b. rsp = con a b \<and> data = be_bytes a @ be_bytes b @ rest)"
  by (auto simp: read_two_def outcome_simps)

lemma response_view_roundtrip:
  assumes "response_fits rsp"
  shows "response_try_from (response_pdu rsp @ junk) = Ok (response_view rsp)"
proof (cases rsp)
  case (ReadCoils bits)
  with assms have "decode_bits_response (of_nat (div_ceil (length bits) 8) # packed_coils bits @ junk)
      = Ok (pad8 bits, junk)"
    unfolding decode_bits_response_Ok_iff
    by (intro exI [of _ "packed_coils bits"]) (simp add: div_ceil_8)
  with ReadCoils show ?thesis by (simp add: decode_response_def)
next
  case (ReadDiscreteInputs bits)
  with assms have "decode_bits_response (of_nat (div_ceil (length bits) 8) # packed_coils bits @ junk)
      = Ok (pad8 bits, junk)"
    unfolding decode_bits_response_Ok_iff
    by (intro exI [of _ "packed_coils bits"]) (simp add: div_ceil_8)
  with ReadDiscreteInputs show ?thesis by (simp add: decode_response_def)
next
  case (ReadHoldingRegisters ws)
  with assms show ?thesis
    using decode_regs_response_Ok_iff [of _ _ "of_nat (length ws * 2) # u16_bytes ws @ junk" ws junk]
    by (simp add: decode_response_def del: of_nat_mult)
next
  case (ReadInputRegisters ws)
  with assms show ?thesis
    using decode_regs_response_Ok_iff [of _ _ "of_nat (length ws * 2) # u16_bytes ws @ junk" ws junk]
    by (simp add: decode_response_def del: of_nat_mult)
next
  case (ReadWriteMultipleRegisters ws)
  with assms show ?thesis
    using decode_regs_response_Ok_iff [of _ _ "of_nat (length ws * 2) # u16_bytes ws @ junk" ws junk]
    by (simp add: decode_response_def del: of_nat_mult)
qed (auto simp: decode_response_def read_two_def coil_value_def)

lemma decode_response_not_Panic: "decode_response fc data \<noteq> Panic"
  by (auto simp: decode_response_def decode_bits_response_def decode_regs_response_def read_two_def
      outcome_simps Let_def not_less read_bit_bytes_not_Panic get_u16s_not_Panic split: if_splits)

end
