(* ===== verification/Modbus_Store.thy ===== *)
theory Modbus_Store
  imports Modbus_Pdu
begin

text \<open>
  \<open>src/slave_store.rs\<close>: the in-memory register store.  Coils and discrete inputs are
  bit-packed byte vectors, registers are word vectors; all four grow on demand.  Each
  \<open>RwLock\<close> is taken for one operation at a time, so an operation is a function from the store
  to its result and the updated store.  The abstract store is four total functions of the
  address; \<open>store_call_refines\<close> is the refinement of every request.
\<close>

section \<open>Vectors\<close>

text \<open>\<open>Vec::resize\<close>.\<close>

definition vec_resize :: "nat \<Rightarrow> 'a \<Rightarrow> 'a list \<Rightarrow> 'a list" where
  "vec_resize n x xs = take n xs @ replicate (n - length xs) x"

lemma length_vec_resize [simp]: "length (vec_resize n x xs) = n"
  by (simp add: vec_resize_def)

lemma nth_vec_resize: "i < n \<Longrightarrow> vec_resize n x xs ! i = (if i < length xs then xs ! i else x)"
  by (simp add: vec_resize_def nth_append min_def)

section \<open>The store\<close>

definition DEFAULT_REG_COUNT :: nat where "DEFAULT_REG_COUNT = 1024"

record SlaveStore =
  coils :: bytes
  discrete_inputs :: bytes
  holding_registers :: "u16 list"
  input_registers :: "u16 list"

definition store_new :: SlaveStore where
  "store_new =
     \<lparr> coils = replicate (DEFAULT_REG_COUNT div 8) 0,
       discrete_inputs = replicate (DEFAULT_REG_COUNT div 8) 0,
       holding_registers = replicate DEFAULT_REG_COUNT 0,
       input_registers = replicate DEFAULT_REG_COUNT 0 \<rparr>"

definition with_holding_registers :: "(u16 \<times> u16) list \<Rightarrow> SlaveStore" where
  "with_holding_registers regs =
     (let store = store_new;
          max_addr = fold max (map (\<lambda>(a, _). unat a) regs) 0;
          hr = holding_registers store;
          hr = (if length hr \<le> max_addr then vec_resize (max_addr + 1) 0 hr else hr);
          hr = fold (\<lambda>(addr, val) hr. hr[unat addr := val]) regs hr
      in store \<lparr> holding_registers := hr \<rparr>)"

section \<open>Bit and register vectors\<close>

definition get_bit :: "bytes \<Rightarrow> nat \<Rightarrow> bool" where
  "get_bit bytes a =
     (let byte_idx = a div 8; bit_idx = a mod 8
      in if byte_idx < length bytes then drop_bit bit_idx (bytes ! byte_idx) AND 1 \<noteq> 0 else False)"

definition put_bit :: "bytes \<Rightarrow> nat \<Rightarrow> bool \<Rightarrow> bytes" where
  "put_bit bytes a value =
     (let byte_idx = a div 8; bit_idx = a mod 8;
          bytes = (if byte_idx \<ge> length bytes then vec_resize (byte_idx + 1) 0 bytes else bytes)
      in if value then bytes[byte_idx := bytes ! byte_idx OR push_bit bit_idx 1]
         else bytes[byte_idx := bytes ! byte_idx AND NOT (push_bit bit_idx 1)])"

definition read_bit :: "bytes \<Rightarrow> u16 \<Rightarrow> bool" where
  "read_bit bytes addr = get_bit bytes (unat addr)"

definition write_bit :: "bytes \<Rightarrow> u16 \<Rightarrow> bool \<Rightarrow> bytes" where
  "write_bit bytes addr value = put_bit bytes (unat addr) value"

definition read_bits :: "bytes \<Rightarrow> u16 \<Rightarrow> u16 \<Rightarrow> bool list" where
  "read_bits bytes addr count = map (\<lambda>i. get_bit bytes (unat addr + i)) [0..<unat count]"

definition get_reg :: "u16 list \<Rightarrow> nat \<Rightarrow> u16" where
  "get_reg regs a = (if a < length regs then regs ! a else 0)"

definition put_reg :: "u16 list \<Rightarrow> nat \<Rightarrow> u16 \<Rightarrow> u16 list" where
  "put_reg regs a value =
     (let regs = (if a \<ge> length regs then vec_resize (a + 1) 0 regs else regs) in regs[a := value])"

definition read_registers :: "u16 list \<Rightarrow> u16 \<Rightarrow> u16 \<Rightarrow> u16 list" where
  "read_registers regs addr count =
     (let start = unat addr
      in if start \<ge> length regs then replicate (unat count) 0
         else let end' = min (start + unat count) (length regs);
                  result = replicate (unat count) 0
              in take (end' - start) (drop start regs) @ drop (end' - start) result)"

definition write_register :: "u16 list \<Rightarrow> u16 \<Rightarrow> u16 \<Rightarrow> u16 list" where
  "write_register regs addr value = put_reg regs (unat addr) value"

section \<open>The public operations\<close>

definition read_coil :: "SlaveStore \<Rightarrow> u16 \<Rightarrow> bool" where
  "read_coil store addr = read_bit (coils store) addr"

definition write_coil :: "SlaveStore \<Rightarrow> u16 \<Rightarrow> bool \<Rightarrow> SlaveStore" where
  "write_coil store addr value = store \<lparr> coils := write_bit (coils store) addr value \<rparr>"

definition read_coils_range :: "SlaveStore \<Rightarrow> u16 \<Rightarrow> u16 \<Rightarrow> bool list" where
  "read_coils_range store addr count = read_bits (coils store) addr count"

definition read_discrete_input :: "SlaveStore \<Rightarrow> u16 \<Rightarrow> bool" where
  "read_discrete_input store addr = read_bit (discrete_inputs store) addr"

definition write_discrete_input :: "SlaveStore \<Rightarrow> u16 \<Rightarrow> bool \<Rightarrow> SlaveStore" where
  "write_discrete_input store addr value =
     store \<lparr> discrete_inputs := write_bit (discrete_inputs store) addr value \<rparr>"

definition read_discrete_inputs_range :: "SlaveStore \<Rightarrow> u16 \<Rightarrow> u16 \<Rightarrow> bool list" where
  "read_discrete_inputs_range store addr count = read_bits (discrete_inputs store) addr count"

definition read_holding_register :: "SlaveStore \<Rightarrow> u16 \<Rightarrow> u16" where
  "read_holding_register store addr = get_reg (holding_registers store) (unat addr)"

definition read_holding_range :: "SlaveStore \<Rightarrow> u16 \<Rightarrow> u16 \<Rightarrow> u16 list" where
  "read_holding_range store addr count = read_registers (holding_registers store) addr count"

definition write_holding_register :: "SlaveStore \<Rightarrow> u16 \<Rightarrow> u16 \<Rightarrow> SlaveStore" where
  "write_holding_register store addr value =
     store \<lparr> holding_registers := write_register (holding_registers store) addr value \<rparr>"

definition read_input_register :: "SlaveStore \<Rightarrow> u16 \<Rightarrow> u16" where
  "read_input_register store addr = get_reg (input_registers store) (unat addr)"

definition read_input_range :: "SlaveStore \<Rightarrow> u16 \<Rightarrow> u16 \<Rightarrow> u16 list" where
  "read_input_range store addr count = read_registers (input_registers store) addr count"

definition write_input_register :: "SlaveStore \<Rightarrow> u16 \<Rightarrow> u16 \<Rightarrow> SlaveStore" where
  "write_input_register store addr value =
     store \<lparr> input_registers := write_register (input_registers store) addr value \<rparr>"

section \<open>The service\<close>

text \<open>The batch loops \<open>for (i, &v) in values.iter().enumerate()\<close>.\<close>

definition put_bits :: "bytes \<Rightarrow> nat \<Rightarrow> bool list \<Rightarrow> bytes" where
  "put_bits bytes addr values =
     fold (\<lambda>(i, v) bytes. put_bit bytes (addr + i) v) (enumerate 0 values) bytes"

definition put_regs :: "u16 list \<Rightarrow> nat \<Rightarrow> u16 list \<Rightarrow> u16 list" where
  "put_regs regs addr values =
     fold (\<lambda>(i, v) regs. put_reg regs (addr + i) v) (enumerate 0 values) regs"

fun store_call :: "SlaveStore \<Rightarrow> Request \<Rightarrow> (Exception + Response) \<times> SlaveStore" where
  "store_call store (Request.ReadCoils addr cnt) =
     (Inr (Response.ReadCoils (read_coils_range store addr cnt)), store)"
| "store_call store (Request.ReadDiscreteInputs addr cnt) =
     (Inr (Response.ReadDiscreteInputs (read_discrete_inputs_range store addr cnt)), store)"
| "store_call store (Request.ReadHoldingRegisters addr cnt) =
     (Inr (Response.ReadHoldingRegisters (read_holding_range store addr cnt)), store)"
| "store_call store (Request.ReadInputRegisters addr cnt) =
     (Inr (Response.ReadInputRegisters (read_input_range store addr cnt)), store)"
| "store_call store (Request.WriteSingleCoil addr value) =
     (Inr (Response.WriteSingleCoil addr value), write_coil store addr value)"
| "store_call store (Request.WriteSingleRegister addr value) =
     (Inr (Response.WriteSingleRegister addr value), write_holding_register store addr value)"
| "store_call store (Request.WriteMultipleCoils addr values) =
     (Inr (Response.WriteMultipleCoils addr (of_nat (length values))),
      store \<lparr> coils := put_bits (coils store) (unat addr) values \<rparr>)"
| "store_call store (Request.WriteMultipleRegisters addr values) =
     (Inr (Response.WriteMultipleRegisters addr (of_nat (length values))),
      store \<lparr> holding_registers := put_regs (holding_registers store) (unat addr) values \<rparr>)"
| "store_call store (Request.MaskWriteRegister addr and_mask or_mask) =
     (let hr = holding_registers store;
          a = unat addr;
          hr = (if a \<ge> length hr then vec_resize (a + 1) 0 hr else hr);
          current = hr ! a;
          hr = hr[a := (current AND and_mask) OR (or_mask AND NOT and_mask)]
      in (Inr (Response.MaskWriteRegister addr and_mask or_mask), store \<lparr> holding_registers := hr \<rparr>))"
| "store_call store (Request.ReadWriteMultipleRegisters read_addr read_qty write_addr values) =
     (let regs = read_holding_range store read_addr read_qty
      in (Inr (Response.ReadWriteMultipleRegisters regs),
          store \<lparr> holding_registers := put_regs (holding_registers store) (unat write_addr) values \<rparr>))"
| "store_call store (Request.Diagnostic sf data) =
     (if sf = 0x0000 then (Inr (Response.Diagnostic sf data), store)
      else if sf = 0x000A then (Inr (Response.Diagnostic sf 0x0000), store)
      else if 0x000B \<le> sf \<and> sf \<le> 0x000E then (Inr (Response.Diagnostic sf 0x0000), store)
      else (Inl IllegalDataValue, store))"
| "store_call store Request.Disconnect = (Inl IllegalFunction, store)"

section \<open>Banks: addressable cells\<close>

text \<open>
  What the lemmas need of a vector: a cell read back after a write holds what was written and
  every other cell is untouched, and the space a vector takes is bounded by the addresses
  written.
\<close>

locale bank =
  fixes rd :: "'s \<Rightarrow> nat \<Rightarrow> 'a" and wr :: "'s \<Rightarrow> nat \<Rightarrow> 'a \<Rightarrow> 's"
  assumes rd_wr: "rd (wr s a v) b = (if a = b then v else rd s b)"
begin

definition wr_all :: "'s \<Rightarrow> nat \<Rightarrow> 'a list \<Rightarrow> 's" where
  "wr_all s a vs = fold (\<lambda>(i, v) s. wr s (a + i) v) (enumerate 0 vs) s"

lemma rd_fold_wr:
  "rd (fold (\<lambda>(i, v) s. wr s (a + i) v) (enumerate k vs) s) b =
     (if a + k \<le> b \<and> b < a + k + length vs then vs ! (b - a - k) else rd s b)"
proof (induction vs arbitrary: k s b)
  case Nil
  then show ?case by auto
next
  case (Cons v vs)
  show ?case
  proof (cases "b = a + k")
    case False
    then have "(v # vs) ! (b - a - k) = vs ! (b - a - Suc k)" if "a + k \<le> b"
      using that by (simp add: nth_Cons')
    with False show ?thesis by (auto simp: Cons.IH rd_wr)
  qed (simp add: Cons.IH rd_wr)
qed

lemma rd_wr_all: "rd (wr_all s a vs) b = (if a \<le> b \<and> b < a + length vs then vs ! (b - a) else rd s b)"
  using rd_fold_wr [of a 0 vs s b] by (simp add: wr_all_def)

lemma wr_all_read_back: "map (rd (wr_all s a vs)) [a..<a + length vs] = vs"
  by (rule nth_equalityI) (auto simp: rd_wr_all)

end

locale bounded_bank = bank rd wr for rd :: "'s \<Rightarrow> nat \<Rightarrow> 'a" and wr :: "'s \<Rightarrow> nat \<Rightarrow> 'a \<Rightarrow> 's" +
  fixes cells :: "'s \<Rightarrow> nat"
  assumes cells_wr: "cells s \<le> n \<Longrightarrow> a < n \<Longrightarrow> 8 dvd n \<Longrightarrow> cells (wr s a v) \<le> n"
    and cells_mono: "cells s \<le> cells (wr s a v)"
begin

lemma cells_fold_wr:
  "cells s \<le> n \<Longrightarrow> a + k + length vs \<le> n \<Longrightarrow> 8 dvd n \<Longrightarrow>
     cells (fold (\<lambda>(i, v) s. wr s (a + i) v) (enumerate k vs) s) \<le> n"
proof (induction vs arbitrary: k s)
  case (Cons v vs)
  then have "cells (wr s (a + k) v) \<le> n" by (intro cells_wr) auto
  with Cons show ?case by auto
qed simp

lemma cells_wr_all: "cells s \<le> n \<Longrightarrow> a + length vs \<le> n \<Longrightarrow> 8 dvd n \<Longrightarrow> cells (wr_all s a vs) \<le> n"
  using cells_fold_wr [of s n a 0 vs] by (simp add: wr_all_def)

lemma cells_mono_all: "cells s \<le> cells (wr_all s a vs)"
proof -
  have "cells s \<le> cells (fold (\<lambda>(i, v) s. wr s (a + i) v) (enumerate k vs) s)" for k
    by (induction vs arbitrary: k s) (auto intro: order_trans [OF cells_mono])
  then show ?thesis by (simp add: wr_all_def)
qed

end

lemma get_bit_iff: "get_bit bs a \<longleftrightarrow> a div 8 < length bs \<and> bit (bs ! (a div 8)) (a mod 8)"
  by (simp add: get_bit_def Let_def and_one_eq bit_iff_odd_drop_bit odd_iff_mod_2_eq_one)

lemma nth_put_bit:
  "put_bit bs a v =
     (let bs = (if length bs \<le> a div 8 then vec_resize (a div 8 + 1) 0 bs else bs)
      in bs[a div 8 := (if v then Bit_Operations.set_bit (a mod 8) (bs ! (a div 8))
                        else unset_bit (a mod 8) (bs ! (a div 8)))])"
  by (simp add: put_bit_def Let_def set_bit_eq_or unset_bit_eq_and_not)

lemma same_bit: "a div 8 = b div 8 \<Longrightarrow> a mod 8 = b mod (8::nat) \<longleftrightarrow> a = b"
  by (metis div_mult_mod_eq)

lemma get_put_bit: "get_bit (put_bit bs a v) b = (if a = b then v else get_bit bs b)"
proof (cases "a div 8 = b div 8")
  case True
  then show ?thesis
    by (auto simp: get_bit_iff nth_put_bit Let_def nth_vec_resize bit_simps same_bit
        not_le possible_bit_def)
next
  case False
  then have "a \<noteq> b" by auto
  with False show ?thesis
    by (auto simp: get_bit_iff nth_put_bit Let_def nth_vec_resize split: if_splits)
qed

lemma length_put_bit: "length (put_bit bs a v) = max (length bs) (a div 8 + 1)"
  by (simp add: put_bit_def Let_def)

lemma get_put_reg: "get_reg (put_reg rs a v) b = (if a = b then v else get_reg rs b)"
  by (auto simp: get_reg_def put_reg_def Let_def nth_vec_resize nth_list_update)

lemma length_put_reg: "length (put_reg rs a v) = max (length rs) (a + 1)"
  by (simp add: put_reg_def Let_def)

interpretation bits: bounded_bank get_bit put_bit "\<lambda>bs. 8 * length bs"
proof
  show "get_bit (put_bit bs a v) b = (if a = b then v else get_bit bs b)" for bs a v b
    by (rule get_put_bit)
  show "8 * length (put_bit bs a v) \<le> n" if "8 * length bs \<le> n" "a < n" "8 dvd n" for bs a v n
    using that by (auto simp: length_put_bit elim!: dvdE)
  show "8 * length bs \<le> 8 * length (put_bit bs a v)" for bs a v
    by (simp add: length_put_bit)
qed

interpretation regs: bounded_bank get_reg put_reg length
  by unfold_locales (simp_all add: get_put_reg length_put_reg)

lemma put_bits_wr_all: "put_bits bs a vs = bits.wr_all bs a vs"
  by (simp add: put_bits_def bits.wr_all_def)

lemma put_regs_wr_all: "put_regs rs a vs = regs.wr_all rs a vs"
  by (simp add: put_regs_def regs.wr_all_def)

lemma read_bits_eq: "read_bits bs a n = map (get_bit bs) [unat a..<unat a + unat n]"
  by (rule nth_equalityI) (simp_all add: read_bits_def)

lemma read_registers_eq: "read_registers rs a n = map (get_reg rs) [unat a..<unat a + unat n]"
  by (rule nth_equalityI)
    (auto simp: read_registers_def Let_def get_reg_def nth_append min_def split: if_splits)

section \<open>The abstract store and the refinement\<close>

record memory =
  coil :: "nat \<Rightarrow> bool"
  input :: "nat \<Rightarrow> bool"
  holding :: "nat \<Rightarrow> u16"
  input_reg :: "nat \<Rightarrow> u16"

definition abs_store :: "SlaveStore \<Rightarrow> memory" where
  "abs_store s =
     \<lparr> coil = get_bit (coils s), input = get_bit (discrete_inputs s),
       holding = get_reg (holding_registers s), input_reg = get_reg (input_registers s) \<rparr>"

definition overwrite :: "(nat \<Rightarrow> 'a) \<Rightarrow> nat \<Rightarrow> 'a list \<Rightarrow> nat \<Rightarrow> 'a" where
  "overwrite m a vs = (\<lambda>b. if a \<le> b \<and> b < a + length vs then vs ! (b - a) else m b)"

fun memory_call :: "memory \<Rightarrow> Request \<Rightarrow> (Exception + Response) \<times> memory" where
  "memory_call m (Request.ReadCoils a n) =
     (Inr (Response.ReadCoils (map (coil m) [unat a..<unat a + unat n])), m)"
| "memory_call m (Request.ReadDiscreteInputs a n) =
     (Inr (Response.ReadDiscreteInputs (map (input m) [unat a..<unat a + unat n])), m)"
| "memory_call m (Request.ReadHoldingRegisters a n) =
     (Inr (Response.ReadHoldingRegisters (map (holding m) [unat a..<unat a + unat n])), m)"
| "memory_call m (Request.ReadInputRegisters a n) =
     (Inr (Response.ReadInputRegisters (map (input_reg m) [unat a..<unat a + unat n])), m)"
| "memory_call m (Request.WriteSingleCoil a v) =
     (Inr (Response.WriteSingleCoil a v), m \<lparr> coil := (coil m)(unat a := v) \<rparr>)"
| "memory_call m (Request.WriteSingleRegister a w) =
     (Inr (Response.WriteSingleRegister a w), m \<lparr> holding := (holding m)(unat a := w) \<rparr>)"
| "memory_call m (Request.WriteMultipleCoils a vs) =
     (Inr (Response.WriteMultipleCoils a (of_nat (length vs))),
      m \<lparr> coil := overwrite (coil m) (unat a) vs \<rparr>)"
| "memory_call m (Request.WriteMultipleRegisters a ws) =
     (Inr (Response.WriteMultipleRegisters a (of_nat (length ws))),
      m \<lparr> holding := overwrite (holding m) (unat a) ws \<rparr>)"
| "memory_call m (Request.MaskWriteRegister a and_mask or_mask) =
     (Inr (Response.MaskWriteRegister a and_mask or_mask),
      m \<lparr> holding := (holding m)(unat a := (holding m (unat a) AND and_mask) OR (or_mask AND NOT and_mask)) \<rparr>)"
| "memory_call m (Request.ReadWriteMultipleRegisters ra n wa ws) =
     (Inr (Response.ReadWriteMultipleRegisters (map (holding m) [unat ra..<unat ra + unat n])),
      m \<lparr> holding := overwrite (holding m) (unat wa) ws \<rparr>)"
| "memory_call m (Request.Diagnostic sf d) =
     ((if sf = 0 then Inr (Response.Diagnostic sf d)
       else if sf \<in> {10, 11, 12, 13, 14} then Inr (Response.Diagnostic sf 0)
       else Inl IllegalDataValue), m)"
| "memory_call m Request.Disconnect = (Inl IllegalFunction, m)"

lemma get_bits_put_bits: "get_bit (put_bits bs a vs) = overwrite (get_bit bs) a vs"
  by (rule ext) (simp add: put_bits_wr_all bits.rd_wr_all overwrite_def)

lemma get_regs_put_regs: "get_reg (put_regs rs a ws) = overwrite (get_reg rs) a ws"
  by (rule ext) (simp add: put_regs_wr_all regs.rd_wr_all overwrite_def)

lemma get_bit_put_bit_upd: "get_bit (put_bit bs a v) = (get_bit bs)(a := v)"
  by (rule ext) (simp add: get_put_bit)

lemma get_reg_put_reg_upd: "get_reg (put_reg rs a v) = (get_reg rs)(a := v)"
  by (rule ext) (simp add: get_put_reg)

lemmas store_ops =
  read_coil_def write_coil_def read_coils_range_def read_discrete_input_def write_discrete_input_def
  read_discrete_inputs_range_def read_holding_register_def read_holding_range_def
  write_holding_register_def read_input_register_def read_input_range_def write_input_register_def
  read_bit_def write_bit_def write_register_def

lemmas cell_simps =
  read_bits_eq read_registers_eq get_bits_put_bits get_regs_put_regs get_bit_put_bit_upd
  get_reg_put_reg_upd

lemma mask_write_put_reg:
  "(let hr = (if length hr \<le> a then vec_resize (a + 1) 0 hr else hr) in hr[a := f (hr ! a)])
     = put_reg hr a (f (get_reg hr a))"
  by (simp add: put_reg_def get_reg_def Let_def nth_vec_resize)

lemma diag_range: "(11 \<le> sf \<and> sf \<le> 14) \<longleftrightarrow> sf \<in> {11, 12, 13, 14 :: u16}"
proof
  assume "11 \<le> sf \<and> sf \<le> 14"
  then have "unat sf \<in> {11..14}" by (simp add: word_le_nat_alt)
  then have "unat sf = 11 \<or> unat sf = 12 \<or> unat sf = 13 \<or> unat sf = 14" by auto
  then show "sf \<in> {11, 12, 13, 14}" by (auto simp: unat_eq_u16)
qed auto

lemma store_call_mask_write:
  "store_call s (Request.MaskWriteRegister a m n) =
     (Inr (Response.MaskWriteRegister a m n),
      s \<lparr> holding_registers := put_reg (holding_registers s) (unat a)
            ((get_reg (holding_registers s) (unat a) AND m) OR (n AND NOT m)) \<rparr>)"
  using mask_write_put_reg [of "holding_registers s" "unat a" "\<lambda>w. (w AND m) OR (n AND NOT m)"]
  by (simp add: Let_def)

lemma store_call_refines_aux:
  "map_prod id abs_store (store_call s req) = memory_call (abs_store s) req"
proof (cases req)
  case (Diagnostic sf d)
  then show ?thesis by (auto simp: diag_range)
next
  case (MaskWriteRegister a m n)
  show ?thesis
    unfolding MaskWriteRegister store_call_mask_write by (simp add: abs_store_def cell_simps)
qed (simp_all add: abs_store_def store_ops cell_simps Let_def)

section \<open>Growth\<close>

definition store_bounded :: "SlaveStore \<Rightarrow> bool" where
  "store_bounded s \<longleftrightarrow>
     length (coils s) \<le> 8192 \<and> length (discrete_inputs s) \<le> 8192
     \<and> length (holding_registers s) \<le> 65536 \<and> length (input_registers s) \<le> 65536"

lemma store_new_bounded: "store_bounded store_new"
  by (simp add: store_bounded_def store_new_def DEFAULT_REG_COUNT_def)

lemma range_ok_end: "range_ok a n lim \<Longrightarrow> unat a + n \<le> 65536"
  by (simp add: range_ok_def)

lemma put_bits_bounded: "length bs \<le> 8192 \<Longrightarrow> a + length vs \<le> 65536 \<Longrightarrow> length (put_bits bs a vs) \<le> 8192"
  using bits.cells_wr_all [of bs 65536 a vs] by (simp add: put_bits_wr_all)

lemma put_regs_bounded: "length rs \<le> 65536 \<Longrightarrow> a + length vs \<le> 65536 \<Longrightarrow> length (put_regs rs a vs) \<le> 65536"
  unfolding put_regs_wr_all by (rule regs.cells_wr_all) simp_all

lemma put_bit_bounded: "length bs \<le> 8192 \<Longrightarrow> length (put_bit bs (unat (a :: u16)) v) \<le> 8192"
  using bits.cells_wr [of bs 65536 "unat a" v] by simp

lemma put_reg_bounded: "length rs \<le> 65536 \<Longrightarrow> length (put_reg rs (unat (a :: u16)) v) \<le> 65536"
  by (rule regs.cells_wr) simp_all

lemma store_call_bounded_aux:
  assumes "store_bounded s" and "request_legal req"
  shows "store_bounded (snd (store_call s req))"
proof (cases req)
  case (MaskWriteRegister a m n)
  show ?thesis
    unfolding MaskWriteRegister store_call_mask_write
    using assms(1) by (simp add: store_bounded_def put_reg_bounded)
qed (use assms in \<open>auto simp: store_bounded_def store_ops put_bit_bounded put_reg_bounded
       dest!: range_ok_end intro!: put_bits_bounded put_regs_bounded\<close>)

section \<open>What a legal request gets\<close>

lemma store_call_response_fits:
  "request_legal req \<Longrightarrow> fst (store_call s req) = Inr rsp \<Longrightarrow> response_fits rsp"
  by (cases req) (auto simp: range_ok_def store_ops read_bits_eq read_registers_eq Let_def split: if_splits)

lemma store_call_fc: "fst (store_call s req) = Inr rsp \<Longrightarrow> response_fc rsp = request_fc req"
  by (cases req) (auto simp: Let_def split: if_splits)

end
