(* ===== verification/Modbus_Service.thy ===== *)
theory Modbus_Service
  imports Modbus_Store
begin

text \<open>
  \<open>src/server.rs\<close> and \<open>process_server_request\<close> of \<open>src/transport/send_recv.rs\<close>: the service
  interface a server calls, the hook wrapper around a service, and the processing of one
  request.  A service is a function of the task-local slave id (\<open>None\<close> where it is not set),
  its state and the request.  The locale \<open>service\<close> holds the contract the servers rely on;
  the store and every hooked service whose hook keeps the contract are instances of it.
\<close>

section \<open>Services and hooks\<close>

type_synonym 's service = "u8 option \<Rightarrow> 's \<Rightarrow> Request \<Rightarrow> (Exception + Response) \<times> 's"

definition store_service :: "SlaveStore service" where
  "store_service slave store request = store_call store request"

record 'h ServerHook =
  before_call :: "'h \<Rightarrow> u8 \<Rightarrow> Request \<Rightarrow> Response option \<times> 'h"
  after_call :: "'h \<Rightarrow> u8 \<Rightarrow> Exception + Response \<Rightarrow> (Exception + Response) \<times> 'h"

text \<open>The default methods of the trait.\<close>

definition default_hook :: "'h ServerHook" where
  "default_hook = \<lparr> before_call = (\<lambda>h slave request. (None, h)), after_call = (\<lambda>h slave result. (result, h)) \<rparr>"

definition hooked_call :: "'s service \<Rightarrow> 'h ServerHook \<Rightarrow> ('s \<times> 'h) service" where
  "hooked_call inner hook slave_ctx sh request =
     (let (s, h) = sh;
          slave = (case slave_ctx of Some sid \<Rightarrow> sid | None \<Rightarrow> 0xFF)
      in case before_call hook h slave request of
           (Some rsp, h) \<Rightarrow> (Inr rsp, (s, h))
         | (None, h) \<Rightarrow>
             (let (result, s) = inner slave_ctx s request;
                  (result, h) = after_call hook h slave result
              in (result, (s, h))))"

section \<open>One request on the server\<close>

text \<open>
  The reply (if any), the response buffer left behind and the service's state.  The reply is
  the slave id followed by the response PDU, before the transport frames it.
\<close>

definition process_server_request ::
  "'s service \<Rightarrow> bytes \<Rightarrow> u8 \<Rightarrow> bytes \<Rightarrow> 's \<Rightarrow> (bytes option \<times> bytes \<times> 's) outcome" where
  "process_server_request service raw slave_id rsp_buf s =
     (if slave_id = 0 then Ok (None, rsp_buf, s)
      else if raw = [] then Ok (None, rsp_buf, s)
      else case request_try_from raw of
        Panic \<Rightarrow> Panic
      | Err e \<Rightarrow> Ok (None, rsp_buf, s)
      | Ok request \<Rightarrow>
          (let req_fc = request_fc request;
               (response, s) = service (Some slave_id) s request;
               response = (case response of Inr rsp \<Rightarrow> rsp | Inl ex \<Rightarrow> Response.Exception req_fc ex)
           in case encode_response_into response (put_u8 [] slave_id) of
                (Inl _, rsp_buf) \<Rightarrow> Ok (None, rsp_buf, s)
              | (Inr _, rsp_buf) \<Rightarrow> Ok (Some rsp_buf, [], s)))"

lemma request_try_from_not_Panic: "request_try_from bs \<noteq> Panic"
  by (cases bs) (auto simp: outcome_simps decode_request_not_Panic)

lemma process_server_request_not_Panic: "process_server_request service raw slave_id rsp_buf s \<noteq> Panic"
  using request_try_from_not_Panic [of raw]
  by (auto simp: process_server_request_def Let_def split: outcome.splits prod.splits sum.splits)

lemma request_try_from_legal: "request_try_from raw = Ok req \<Longrightarrow> request_legal req"
  by (simp add: request_try_from_Ok_iff)

text \<open>The response a service's result stands for.\<close>

definition reply_of :: "Request \<Rightarrow> Exception + Response \<Rightarrow> Response" where
  "reply_of req result = (case result of Inr rsp \<Rightarrow> rsp | Inl ex \<Rightarrow> Response.Exception (request_fc req) ex)"

lemma process_ignored:
  "slave_id = 0 \<or> raw = [] \<or> (\<forall>req. request_try_from raw \<noteq> Ok req) \<Longrightarrow>
     process_server_request service raw slave_id rsp_buf s = Ok (None, rsp_buf, s)"
  using request_try_from_not_Panic [of raw]
  by (auto simp: process_server_request_def split: outcome.splits)

lemma process_decoded:
  assumes "slave_id \<noteq> 0" and "request_try_from raw = Ok req"
    and "response_fits (reply_of req (fst (service (Some slave_id) s req)))"
  shows "process_server_request service raw slave_id rsp_buf s =
     Ok (Some (slave_id # response_pdu (reply_of req (fst (service (Some slave_id) s req)))), [],
         snd (service (Some slave_id) s req))"
proof -
  from assms(2) have "raw \<noteq> []" by auto
  moreover obtain result s' where "service (Some slave_id) s req = (result, s')" by fastforce
  ultimately show ?thesis
    using assms encode_response_into_fits [OF assms(3), of "[slave_id]"]
    by (simp add: process_server_request_def Let_def put_u8_def reply_of_def)
qed

lemma process_oversized:
  assumes "slave_id \<noteq> 0" and "request_try_from raw = Ok req"
    and "\<not> response_fits (reply_of req (fst (service (Some slave_id) s req)))"
  shows "process_server_request service raw slave_id rsp_buf s =
     Ok (None, [slave_id], snd (service (Some slave_id) s req))"
proof -
  from assms(2) have "raw \<noteq> []" by auto
  moreover obtain result s' where "service (Some slave_id) s req = (result, s')" by fastforce
  moreover obtain e where
    "encode_response_into (reply_of req (fst (service (Some slave_id) s req))) [slave_id] = (Inl e, [slave_id])"
    using encode_response_into_oversized [OF assms(3)] by blast
  ultimately show ?thesis
    using assms(1,2) by (simp add: process_server_request_def Let_def put_u8_def reply_of_def)
qed

section \<open>The contract of a service\<close>

locale service =
  fixes call :: "'s service" and inv :: "'s \<Rightarrow> bool"
  assumes call_fits:
      "inv s \<Longrightarrow> request_legal req \<Longrightarrow> fst (call ctx s req) = Inr rsp \<Longrightarrow> response_fits rsp"
    and call_fc:
      "inv s \<Longrightarrow> request_legal req \<Longrightarrow> fst (call ctx s req) = Inr rsp \<Longrightarrow>
         response_fc rsp \<in> {request_fc req, request_fc req OR 0x80}"
    and call_inv: "inv s \<Longrightarrow> request_legal req \<Longrightarrow> inv (snd (call ctx s req))"
begin

lemma reply_fits: "inv s \<Longrightarrow> request_legal req \<Longrightarrow> response_fits (reply_of req (fst (call ctx s req)))"
  by (auto simp: reply_of_def split: sum.splits intro: call_fits)

lemma reply_fc:
  "inv s \<Longrightarrow> request_legal req \<Longrightarrow>
     response_fc (reply_of req (fst (call ctx s req))) \<in> {request_fc req, request_fc req OR 0x80}"
  by (auto simp: reply_of_def split: sum.splits dest: call_fc)

lemma answers:
  assumes "inv s" "slave_id \<noteq> 0" "request_try_from raw = Ok req"
  shows "process_server_request call raw slave_id rsp_buf s =
     Ok (Some (slave_id # response_pdu (reply_of req (fst (call (Some slave_id) s req)))), [],
         snd (call (Some slave_id) s req))"
  using assms by (intro process_decoded reply_fits request_try_from_legal)

lemma process_inv:
  assumes "inv s" "process_server_request call raw slave_id rsp_buf s = Ok (reply, rsp_buf', s')"
  shows "inv s'"
proof (cases "slave_id = 0 \<or> (\<forall>req. request_try_from raw \<noteq> Ok req)")
  case True
  then have "process_server_request call raw slave_id rsp_buf s = Ok (None, rsp_buf, s)"
    by (intro process_ignored) blast
  with assms show ?thesis by simp
next
  case False
  then obtain req where req: "request_try_from raw = Ok req" and "slave_id \<noteq> 0" by blast
  with assms answers [OF assms(1), of slave_id raw req rsp_buf]
  have "s' = snd (call (Some slave_id) s req)" by auto
  with assms(1) call_inv [OF _ request_try_from_legal [OF req]] show ?thesis by simp
qed

end

interpretation store: service store_service store_bounded
proof
  fix s req ctx rsp
  assume "request_legal req" "fst (store_service ctx s req) = Inr rsp"
  then show "response_fits rsp" by (simp add: store_service_def store_call_response_fits)
next
  fix s req ctx rsp
  assume "fst (store_service ctx s req) = Inr rsp"
  then show "response_fc rsp \<in> {request_fc req, request_fc req OR 0x80}"
    by (simp add: store_service_def store_call_fc)
next
  fix s req ctx
  assume "store_bounded s" "request_legal req"
  then show "store_bounded (snd (store_service ctx s req))"
    by (simp add: store_service_def store_call_bounded_aux)
qed

text \<open>
  A hook keeps the contract when what it puts in place of a response fits and echoes the function
  code of the request, or that of its exception.
\<close>

locale hooked_service = service inner inv for inner :: "'s service" and inv :: "'s \<Rightarrow> bool" +
  fixes hook :: "'h ServerHook"
  assumes before_fits:
      "request_legal req \<Longrightarrow> fst (before_call hook h slave req) = Some rsp \<Longrightarrow>
         response_fits rsp \<and> response_fc rsp \<in> {request_fc req, request_fc req OR 0x80}"
    and after_fits:
      "request_legal req \<Longrightarrow>
         (\<And>rsp. result = Inr rsp \<Longrightarrow>
            response_fits rsp \<and> response_fc rsp \<in> {request_fc req, request_fc req OR 0x80}) \<Longrightarrow>
         fst (after_call hook h slave result) = Inr rsp' \<Longrightarrow>
         response_fits rsp' \<and> response_fc rsp' \<in> {request_fc req, request_fc req OR 0x80}"
begin

lemma hooked_result:
  fixes sh :: "'s \<times> 'h"
  assumes "inv (fst sh)" "request_legal req" "fst (hooked_call inner hook ctx sh req) = Inr rsp"
  shows "response_fits rsp \<and> response_fc rsp \<in> {request_fc req, request_fc req OR 0x80}"
proof -
  obtain s h where sh: "sh = (s, h)" by (cases sh)
  let ?slave = "case ctx of Some sid \<Rightarrow> sid | None \<Rightarrow> 0xFF"
  obtain rsp0 h' where before: "before_call hook h ?slave req = (rsp0, h')"
    by (cases "before_call hook h ?slave req")
  show ?thesis
  proof (cases rsp0)
    case (Some rsp1)
    with assms(3) before have "fst (before_call hook h ?slave req) = Some rsp"
      by (simp add: sh hooked_call_def split: option.splits)
    with assms(2) show ?thesis by (rule before_fits)
  next
    case None
    let ?result = "fst (inner ctx s req)"
    have "fst (after_call hook h' ?slave ?result) = Inr rsp"
      using assms(3) before None by (simp add: sh hooked_call_def Let_def split: prod.splits option.splits)
    moreover have "response_fits r \<and> response_fc r \<in> {request_fc req, request_fc req OR 0x80}" if "?result = Inr r" for r
      using that assms(1,2) call_fits call_fc by (simp add: sh)
    ultimately show ?thesis using assms(2) after_fits by blast
  qed
qed

lemma hooked_state:
  "fst (snd (hooked_call inner hook ctx sh req)) \<in> {fst sh, snd (inner ctx (fst sh) req)}"
  by (auto simp: hooked_call_def Let_def split: prod.splits option.splits)

end

sublocale hooked_service \<subseteq> hooked: service "hooked_call inner hook" "\<lambda>sh. inv (fst sh)"
proof
  fix sh :: "'s \<times> 'h" and req ctx
  assume "inv (fst sh)" "request_legal req"
  then show "inv (fst (snd (hooked_call inner hook ctx sh req)))"
    using hooked_state [of ctx sh req] call_inv by auto
qed (use hooked_result in blast)+

interpretation default_hooked: hooked_service store_service store_bounded "default_hook :: unit ServerHook"
  by unfold_locales (auto simp: default_hook_def)

end
