(* ===== verification/Modbus_Timing.thy ===== *)
theory Modbus_Timing
  imports Modbus_Error
begin

text \<open>
  \<open>src/bus_timing.rs\<close>, \<open>src/reconnect.rs\<close> and \<open>src/options.rs\<close>: the spacing between frames on
  a bus, and the option records of the clients.  A \<open>Duration\<close> is a number of nanoseconds; the
  clock of the bus timing counts microseconds in a \<open>u64\<close>.
\<close>

type_synonym duration = nat  \<comment> \<open>nanoseconds\<close>

definition from_micros :: "nat \<Rightarrow> duration" where "from_micros us = us * 1000"
definition from_millis :: "nat \<Rightarrow> duration" where "from_millis ms = ms * 1000000"
definition from_secs :: "nat \<Rightarrow> duration" where "from_secs s = s * 1000000000"
definition as_micros :: "duration \<Rightarrow> nat" where "as_micros d = d div 1000"

lemma as_micros_from_micros [simp]: "as_micros (from_micros n) = n"
  by (simp add: as_micros_def from_micros_def)

section \<open>Bus timing\<close>

record BusTiming =
  last_event_us :: u64
  min_spacing_us :: u64

definition timing_custom :: "duration \<Rightarrow> BusTiming" where
  "timing_custom min_spacing' = \<lparr> last_event_us = 0, min_spacing_us = of_nat (as_micros min_spacing') \<rparr>"

definition rtu_35t_raw :: "u32 \<Rightarrow> BusTiming" where
  "rtu_35t_raw baud_rate =
     \<lparr> last_event_us = 0, min_spacing_us = (3500000 * 11) div ucast (max baud_rate 1) \<rparr>"

definition rtu_35t :: "u32 \<Rightarrow> BusTiming" where
  "rtu_35t baud_rate =
     (let min_spacing_us = (if baud_rate > 19200 then 1750
                            else (3500000 * 11) div ucast (max baud_rate 1))
      in \<lparr> last_event_us = 0, min_spacing_us = min_spacing_us \<rparr>)"

definition ascii_35t :: "u32 \<Rightarrow> BusTiming" where
  "ascii_35t baud_rate = rtu_35t baud_rate"

text \<open>\<open>touch\<close> and \<open>wait_if_needed\<close> at the clock reading \<open>now\<close>; the latter gives the sleep.\<close>

definition touch :: "u64 \<Rightarrow> BusTiming \<Rightarrow> BusTiming" where
  "touch now t = t \<lparr> last_event_us := max now 1 \<rparr>"

definition saturating_sub :: "u64 \<Rightarrow> u64 \<Rightarrow> u64" where
  "saturating_sub a b = (if b \<le> a then a - b else 0)"

definition wait_if_needed :: "u64 \<Rightarrow> BusTiming \<Rightarrow> duration" where
  "wait_if_needed now t =
     (let last' = last_event_us t
      in if last' = 0 then 0
         else let elapsed = saturating_sub now last'
              in if elapsed < min_spacing_us t
                 then from_micros (unat (min_spacing_us t - elapsed)) else 0)"

definition min_spacing :: "BusTiming \<Rightarrow> duration" where
  "min_spacing t = from_micros (unat (min_spacing_us t))"

section \<open>Client options\<close>

record ReconnectConfig =
  max_retries :: u32
  interval :: duration

definition reconnect_new :: "u32 \<Rightarrow> duration \<Rightarrow> ReconnectConfig" where
  "reconnect_new retries ivl = \<lparr> max_retries = retries, interval = ivl \<rparr>"

record 'tap ClientOptions =
  opt_timeout :: duration
  opt_tap :: "'tap option"
  opt_reconnect :: "ReconnectConfig option"
  opt_bus_timing :: "BusTiming option"
  data_channel_capacity :: "nat option"
  tap_channel_capacity :: "nat option"

definition options_default :: "'tap ClientOptions" where
  "options_default =
     \<lparr> opt_timeout = from_secs 1, opt_tap = None, opt_reconnect = None,
       opt_bus_timing = Some (rtu_35t 9600), data_channel_capacity = None,
       tap_channel_capacity = None \<rparr>"

definition opts_with_timeout :: "'tap ClientOptions \<Rightarrow> duration \<Rightarrow> 'tap ClientOptions" where
  "opts_with_timeout o' timeout = o' \<lparr> opt_timeout := timeout \<rparr>"

definition opts_with_tap :: "'tap ClientOptions \<Rightarrow> 'tap \<Rightarrow> 'tap ClientOptions" where
  "opts_with_tap o' tap = o' \<lparr> opt_tap := Some tap \<rparr>"

definition opts_with_reconnect :: "'tap ClientOptions \<Rightarrow> u32 \<Rightarrow> duration \<Rightarrow> 'tap ClientOptions" where
  "opts_with_reconnect o' retries ivl = o' \<lparr> opt_reconnect := Some (reconnect_new retries ivl) \<rparr>"

definition opts_with_bus_timing :: "'tap ClientOptions \<Rightarrow> BusTiming \<Rightarrow> 'tap ClientOptions" where
  "opts_with_bus_timing o' timing = o' \<lparr> opt_bus_timing := Some timing \<rparr>"

definition opts_with_data_channel_capacity :: "'tap ClientOptions \<Rightarrow> nat \<Rightarrow> 'tap ClientOptions" where
  "opts_with_data_channel_capacity o' n = o' \<lparr> data_channel_capacity := Some n \<rparr>"

definition opts_with_tap_channel_capacity :: "'tap ClientOptions \<Rightarrow> nat \<Rightarrow> 'tap ClientOptions" where
  "opts_with_tap_channel_capacity o' n = o' \<lparr> tap_channel_capacity := Some n \<rparr>"

section \<open>What the spacing guarantees\<close>

lemma unat_saturating_sub: "unat (saturating_sub a b) = unat a - unat b"
  by (simp add: saturating_sub_def unat_sub word_le_nat_alt)

lemma wait_if_needed_eq:
  "last_event_us t \<noteq> 0 \<Longrightarrow>
     wait_if_needed now t = from_micros (unat (min_spacing_us t) - (unat now - unat (last_event_us t)))"
  by (auto simp: wait_if_needed_def Let_def unat_saturating_sub word_less_nat_alt unat_sub word_le_nat_alt
      from_micros_def)

lemma spacing_kept:
  assumes "last_event_us t \<noteq> 0" and "last_event_us t \<le> now"
  shows "unat (last_event_us t) + unat (min_spacing_us t) \<le> unat now + as_micros (wait_if_needed now t)"
  using assms by (simp add: wait_if_needed_eq word_le_nat_alt)

lemma no_wait_when_spaced:
  "unat (last_event_us t) + unat (min_spacing_us t) \<le> unat now \<Longrightarrow> wait_if_needed now t = 0"
  by (cases "last_event_us t = 0") (simp_all add: wait_if_needed_eq, simp_all add: wait_if_needed_def from_micros_def)

lemma touch_nonzero: "last_event_us (touch now t) \<noteq> 0"
  by (auto simp: touch_def max_def word_le_nat_alt)

lemma unat_max1: "unat (max (b :: u32) 1) = max (unat b) 1"
  by (simp add: max_def word_le_nat_alt)

lemma unat_ucast_u32: "unat (ucast (b :: u32) :: u64) = unat b"
proof -
  have "unat b < 2 ^ 32" using unsigned_less [of b] by simp
  then have "unat b < 2 ^ 64" by (rule order.strict_trans) simp
  then show ?thesis by (simp add: unsigned_ucast_eq take_bit_nat_eq_self)
qed

lemma spacing_formula: "unat ((38500000 :: u64) div ucast (max b 1)) = 38500000 div max (unat (b :: u32)) 1"
  by (simp add: unat_div unat_ucast_u32 unat_max1)

lemma unat_rtu_35t:
  "unat (min_spacing_us (rtu_35t b)) =
     (if unat b > 19200 then 1750 else 38500000 div max (unat b) 1)"
  using spacing_formula [of b] by (auto simp: rtu_35t_def Let_def word_less_nat_alt)

lemma rtu_35t_at_least: "1750 \<le> unat (min_spacing_us (rtu_35t b))"
proof -
  have "1750 \<le> 38500000 div n" if "0 < n" "n \<le> 19200" for n :: nat
    using that div_le_mono2 [of n 19200 38500000] by simp
  then show ?thesis by (auto simp: unat_rtu_35t)
qed

lemma rtu_35t_antimono:
  assumes "b \<le> c"
  shows "unat (min_spacing_us (rtu_35t c)) \<le> unat (min_spacing_us (rtu_35t b))"
proof (cases "unat c > 19200")
  case True
  then show ?thesis using rtu_35t_at_least [of b] by (simp add: unat_rtu_35t)
next
  case False
  with assms show ?thesis
    by (auto simp: unat_rtu_35t word_le_nat_alt intro!: div_le_mono2)
qed

end
