(* ===== verification/Modbus_Send_Recv.thy ===== *)
theory Modbus_Send_Recv
  imports Modbus_Service Modbus_Timing
begin

text \<open>
  \<open>src/transport/send_recv.rs\<close>, client side: draining stale input before a request, sending a
  framed request, reading with a deadline, and the reconnect loop.

  The byte transport is code of other crates.  A stream is described by what it will do: the
  arrivals, in time order, that its reads return (a chunk of bytes, the empty chunk for the end
  of the stream, or an error), and what its next writes do.  Time is the reading of the
  monotonic clock in nanoseconds; it advances while the code waits.  An arrival that is due by
  the end of a timed read is returned by it, otherwise the read elapses.  A stream carries the
  \<open>SniffIo\<close> layers around the transport, outermost first, the frames sent and the events the
  taps recorded.
\<close>

section \<open>Streams\<close>

datatype arrival = Data bytes | ReadFail io_error
datatype write_result = Written | WriteFail io_error | WriteStall
datatype poll_result = Got bytes | Failed io_error | Elapsed
datatype tap_event = TapTx bytes | TapRx bytes

text \<open>
  A \<open>SniffIo\<close> layer as the client's code sees it; the rooms of its two channels are kept, but the
  stream model does not let them overflow (\<open>Modbus_Sniff\<close> models the channels themselves).
\<close>

record layer =
  has_tap :: bool
  has_timing :: bool
  data_room :: nat
  tap_room :: nat

record stream =
  clock :: nat
  arrivals :: "(nat \<times> arrival) list"
  write_plan :: "write_result list"
  sent :: "bytes list"
  bus :: "BusTiming option"
  layers :: "layer list"
  tap_log :: "tap_event list"

definition now_micros :: "stream \<Rightarrow> u64" where
  "now_micros st = of_nat (as_micros (clock st))"

text \<open>Activity on the wire touches the shared timing once per layer that carries it.\<close>

definition touch_bus :: "stream \<Rightarrow> stream" where
  "touch_bus st =
     (if \<exists>l \<in> set (layers st). has_timing l
      then st \<lparr> bus := map_option (touch (now_micros st)) (bus st) \<rparr> else st)"

definition tap_count :: "stream \<Rightarrow> nat" where
  "tap_count st = length (filter has_tap (layers st))"

definition record_tap :: "tap_event \<Rightarrow> stream \<Rightarrow> stream" where
  "record_tap ev st = st \<lparr> tap_log := tap_log st @ replicate (tap_count st) ev \<rparr>"

text \<open>Under a tapped layer the end of the stream arrives as an error of the background reader.\<close>

definition read_event :: "stream \<Rightarrow> arrival \<Rightarrow> poll_result" where
  "read_event st a =
     (case a of
        Data bs \<Rightarrow> (if bs = [] \<and> tap_count st > 0
                    then Failed (IoError UnexpectedEof ''transport closed'') else Got bs)
      | ReadFail e \<Rightarrow> Failed e)"

definition read_timed :: "nat \<Rightarrow> stream \<Rightarrow> poll_result \<times> stream" where
  "read_timed wait st =
     (case arrivals st of
        [] \<Rightarrow> (Elapsed, st \<lparr> clock := clock st + wait \<rparr>)
      | (t, a) # rest \<Rightarrow>
          (if t \<le> clock st + wait then
             (let st = st \<lparr> clock := max (clock st) t, arrivals := rest \<rparr>
              in (read_event st a,
                  case a of Data (b # bs) \<Rightarrow> record_tap (TapRx (b # bs)) (touch_bus st) | _ \<Rightarrow> st))
           else (Elapsed, st \<lparr> clock := clock st + wait \<rparr>)))"

definition write_timed :: "nat \<Rightarrow> bytes \<Rightarrow> stream \<Rightarrow> (ModbusError + unit) \<times> stream" where
  "write_timed timeout frame st =
     (let plan = (case write_plan st of [] \<Rightarrow> Written | w # _ \<Rightarrow> w);
          st = st \<lparr> write_plan := tl (write_plan st) \<rparr>
      in case plan of
           Written \<Rightarrow> (Inr (), record_tap (TapTx frame) (touch_bus (st \<lparr> sent := sent st @ [frame] \<rparr>)))
         | WriteFail e \<Rightarrow> (Inl (from_io_error e), st)
         | WriteStall \<Rightarrow> (Inl (Timeout SEND_TIMEOUT), st \<lparr> clock := clock st + timeout \<rparr>))"

text \<open>\<open>SniffIo::prepare_send\<close> consults the timing of the outermost layer only.\<close>

definition prepare_send :: "stream \<Rightarrow> stream" where
  "prepare_send st =
     (case (layers st, bus st) of
        (l # _, Some t) \<Rightarrow>
          (if has_timing l then st \<lparr> clock := clock st + wait_if_needed (now_micros st) t \<rparr> else st)
      | _ \<Rightarrow> st)"

lemma clock_record_tap [simp]: "clock (record_tap ev st) = clock st"
  by (simp add: record_tap_def)

lemma clock_touch_bus [simp]: "clock (touch_bus st) = clock st"
  by (simp add: touch_bus_def)

lemma arrivals_record_tap [simp]: "arrivals (record_tap ev st) = arrivals st"
  by (simp add: record_tap_def)

lemma arrivals_touch_bus [simp]: "arrivals (touch_bus st) = arrivals st"
  by (simp add: touch_bus_def)

lemma read_timed_cases:
  obtains (elapsed) "read_timed wait st = (Elapsed, st \<lparr> clock := clock st + wait \<rparr>)"
      "\<forall>ta \<in> set (take 1 (arrivals st)). clock st + wait < fst ta"
  | (arrival) t a st' where "arrivals st = (t, a) # arrivals st'" "t \<le> clock st + wait"
      "clock st' = max (clock st) t" "read_timed wait st = (read_event st a, st')"
proof (cases "arrivals st")
  case Nil
  then show thesis by (intro elapsed) (simp_all add: read_timed_def)
next
  case (Cons ta rest)
  obtain t a where ta: "ta = (t, a)" by (cases ta)
  show thesis
  proof (cases "t \<le> clock st + wait")
    case True
    let ?st = "st \<lparr> clock := max (clock st) t, arrivals := rest \<rparr>"
    let ?st' = "case a of Data (b # bs) \<Rightarrow> record_tap (TapRx (b # bs)) (touch_bus ?st) | _ \<Rightarrow> ?st"
    have "read_event ?st a = read_event st a"
      by (cases a) (simp_all add: read_event_def tap_count_def)
    then have "read_timed wait st = (read_event st a, ?st')"
      using Cons ta True by (simp add: read_timed_def Let_def)
    moreover have "arrivals ?st' = rest" "clock ?st' = max (clock st) t"
      by (auto split: arrival.splits list.splits)
    ultimately show thesis using Cons ta True by (intro arrival [of t a ?st']) auto
  next
    case False
    with Cons ta show thesis by (intro elapsed) (simp_all add: read_timed_def)
  qed
qed

lemma read_timed_clock:
  assumes "read_timed wait st = (ev, st')"
  shows "clock st \<le> clock st'" and "clock st' \<le> clock st + wait"
  using assms by (cases st wait rule: read_timed_cases; auto)+

lemma read_timed_progress:
  assumes "read_timed wait st = (ev, st')" and "ev \<noteq> Elapsed"
  shows "length (arrivals st') < length (arrivals st)"
  using assms by (cases st wait rule: read_timed_cases) auto

section \<open>Draining before a request\<close>

definition DRAIN_QUIET_MS :: nat where "DRAIN_QUIET_MS = 10"
definition DRAIN_MAX_MS :: nat where "DRAIN_MAX_MS = 200"
definition QUICK_POLL_MS :: nat where "QUICK_POLL_MS = 1"

lemmas drain_consts = DRAIN_QUIET_MS_def DRAIN_MAX_MS_def QUICK_POLL_MS_def from_millis_def

function drain_loop :: "nat \<Rightarrow> stream \<Rightarrow> (ModbusError + unit) \<times> stream" where
  "drain_loop deadline st =
     (let remaining = deadline - clock st
      in if remaining = 0
         then (Inl (Connection ''bus busy: data received during quiet period''), st)
         else let wait = min remaining (from_millis DRAIN_QUIET_MS)
              in case read_timed wait st of
                   (Got bs, st) \<Rightarrow> (if bs = [] then (Inl (Connection ''connection closed''), st)
                                   else drain_loop deadline st)
                 | (Failed e, st) \<Rightarrow> (Inl (from_io_error e), st)
                 | (Elapsed, st) \<Rightarrow> (Inr (), st))"
  by pat_completeness auto
termination
  by (relation "measure (\<lambda>(deadline, st). length (arrivals st))")
    (auto dest!: read_timed_progress [OF sym])

declare drain_loop.simps [simp del]

definition drain_stale_data :: "stream \<Rightarrow> (ModbusError + unit) \<times> stream" where
  "drain_stale_data st =
     (case read_timed (from_millis QUICK_POLL_MS) st of
        (Got bs, st) \<Rightarrow>
          (if bs = [] then (Inl (Connection ''connection closed''), st)
           else let deadline = clock st + from_millis DRAIN_MAX_MS in drain_loop deadline st)
      | (Failed e, st) \<Rightarrow> (Inl (from_io_error e), st)
      | (Elapsed, st) \<Rightarrow> (Inr (), st))"

section \<open>Sending\<close>

definition send_frame ::
  "stream \<Rightarrow> bytes \<Rightarrow> u8 \<Rightarrow> nat \<Rightarrow> Request \<Rightarrow> (bytes \<Rightarrow> bytes \<Rightarrow> bytes)
     \<Rightarrow> (ModbusError + unit) \<times> bytes \<times> stream" where
  "send_frame st write_buf slave_id timeout request encode_fn =
     (let write_buf = put_u8 [] slave_id
      in case encode_request_into request write_buf of
           (Inl e, write_buf) \<Rightarrow> (Inl (Protocol (PDU_ENCODE_ERROR @ '' '' @ err_msg e)), write_buf, st)
         | (Inr _, write_buf) \<Rightarrow>
             (let send_buf = write_buf;
                  frame_bytes = encode_fn send_buf []
              in case write_timed timeout frame_bytes st of
                   (Inl e, st) \<Rightarrow> (Inl e, [], st)
                 | (Inr _, st) \<Rightarrow> (Inr (), [], st)))"

section \<open>Reading with a deadline\<close>

function read_at_least :: "stream \<Rightarrow> bytes \<Rightarrow> nat \<Rightarrow> nat \<Rightarrow> (ModbusError + nat) \<times> bytes \<times> stream" where
  "read_at_least st read_buf deadline least =
     (if length read_buf < least then
        let remaining = deadline - clock st
        in if remaining = 0 then (Inr (length read_buf), read_buf, st)
           else case read_timed remaining st of
                  (Got bs, st) \<Rightarrow>
                    (if bs = [] then
                       (if read_buf = [] then (Inl (Connection CONN_CLOSED), read_buf, st)
                        else (Inr (length read_buf), read_buf, st))
                     else read_at_least st (read_buf @ bs) deadline least)
                | (Failed e, st) \<Rightarrow> (Inl (from_io_error e), read_buf, st)
                | (Elapsed, st) \<Rightarrow>
                    (if read_buf \<noteq> [] then (Inr (length read_buf), read_buf, st)
                     else (Inl (Timeout RECV_TIMEOUT), read_buf, st))
      else (Inr (length read_buf), read_buf, st))"
  by pat_completeness auto
termination
  by (relation "measure (\<lambda>(st, read_buf, deadline, least). length (arrivals st))")
    (auto dest!: read_timed_progress [OF sym])

declare read_at_least.simps [simp del]

section \<open>The reconnect loop\<close>

text \<open>
  \<open>send\<close> and \<open>rebuild\<close> act on the client's state; \<open>sleep\<close> lets the interval pass.  The
  counters are \<open>u32\<close> and wrap as in a release build.  The loop need not end, so its value is
  an option: \<open>None\<close> when it runs forever.
\<close>

partial_function (option) reconnect_loop ::
  "ReconnectConfig \<Rightarrow> ('s \<Rightarrow> (ModbusError + Response) \<times> 's) \<Rightarrow> ('s \<Rightarrow> bool \<times> 's)
     \<Rightarrow> (duration \<Rightarrow> 's \<Rightarrow> 's) \<Rightarrow> (string \<Rightarrow> ModbusError)
     \<Rightarrow> u32 \<Rightarrow> u32 \<Rightarrow> 's \<Rightarrow> ((ModbusError + Response) \<times> 's) option" where
  "reconnect_loop cfg send rebuild sleep exceeded_err failures rebuild_failures s =
     (case send s of (result, s) \<Rightarrow>
        case result of
          Inr rsp \<Rightarrow> Some (Inr rsp, s)
        | Inl e \<Rightarrow>
            if \<not> is_retryable e then Some (Inl e, s)
            else if max_retries cfg > 0 \<and> failures + 1 > max_retries cfg
            then Some (Inl (exceeded_err (''reconnect max_retries('' @ show_nat (unat (max_retries cfg))
                     @ '') exceeded: '' @ detail e)), s)
            else case rebuild (sleep (interval cfg) s) of (rebuilt, s) \<Rightarrow>
              if rebuilt
              then reconnect_loop cfg send rebuild sleep exceeded_err (failures + 1) 0 s
              else if rebuild_failures + 1 \<ge> 3
              then Some (Inl (exceeded_err
                     ''reconnect: transport rebuild failed 3 consecutive times''), s)
              else reconnect_loop cfg send rebuild sleep exceeded_err (failures + 1)
                     (rebuild_failures + 1) s)"

definition run_with_reconnect ::
  "ReconnectConfig option \<Rightarrow> ('s \<Rightarrow> (ModbusError + Response) \<times> 's) \<Rightarrow> ('s \<Rightarrow> bool \<times> 's)
     \<Rightarrow> (duration \<Rightarrow> 's \<Rightarrow> 's) \<Rightarrow> (string \<Rightarrow> ModbusError) \<Rightarrow> 's
     \<Rightarrow> ((ModbusError + Response) \<times> 's) option" where
  "run_with_reconnect reconnect send rebuild sleep exceeded_err s =
     (case reconnect of
        None \<Rightarrow> Some (send s)
      | Some cfg \<Rightarrow> reconnect_loop cfg send rebuild sleep exceeded_err 0 0 s)"

section \<open>Time bounds\<close>

lemma drain_loop_clock:
  "drain_loop deadline st = (r, st') \<Longrightarrow> clock st \<le> clock st' \<and> clock st' \<le> max (clock st) deadline"
proof (induction deadline st arbitrary: r st' rule: drain_loop.induct)
  case (1 deadline st)
  show ?case
  proof (cases "deadline - clock st = 0")
    case True
    with 1(2) show ?thesis by (simp add: drain_loop.simps)
  next
    case False
    let ?wait = "min (deadline - clock st) (from_millis DRAIN_QUIET_MS)"
    obtain ev st1 where read: "read_timed ?wait st = (ev, st1)" by fastforce
    note clk = read_timed_clock [OF read]
    show ?thesis
    proof (cases "\<exists>b bs. ev = Got (b # bs)")
      case True
      with 1(2) read False have "drain_loop deadline st1 = (r, st')"
        by (subst (asm) drain_loop.simps) (auto simp: Let_def)
      moreover from True obtain b bs where "ev = Got (b # bs)" by blast
      ultimately have "clock st1 \<le> clock st' \<and> clock st' \<le> max (clock st1) deadline"
        using False read by (intro 1(1)) auto
      with clk False show ?thesis by (auto simp: max_def min_def split: if_splits)
    next
      case no: False
      then have "st' = st1"
        using 1(2) read False by (subst (asm) drain_loop.simps)
          (auto simp: Let_def neq_Nil_conv split: poll_result.splits if_splits)
      with clk False show ?thesis by (auto simp: max_def min_def split: if_splits)
    qed
  qed
qed

lemma drain_clock_aux:
  assumes "drain_stale_data st = (r, st')"
  shows "clock st' \<le> clock st + from_millis 201"
proof -
  obtain ev st1 where read: "read_timed (from_millis QUICK_POLL_MS) st = (ev, st1)" by fastforce
  note clk = read_timed_clock [OF read]
  have "st' = st1 \<or> drain_loop (clock st1 + from_millis DRAIN_MAX_MS) st1 = (r, st')"
    using assms read by (auto simp: drain_stale_data_def Let_def split: poll_result.splits if_splits)
  then have "clock st' \<le> clock st1 + from_millis DRAIN_MAX_MS"
    by (auto dest: drain_loop_clock)
  with clk show ?thesis by (simp add: drain_consts)
qed

text \<open>No input is pending at time \<open>clock st\<close>.\<close>

definition quiet :: "stream \<Rightarrow> bool" where
  "quiet st \<longleftrightarrow> (\<forall>ta \<in> set (take 1 (arrivals st)). clock st < fst ta)"

lemma read_timed_Elapsed:
  assumes "read_timed wait st = (Elapsed, st')"
  shows "quiet st' \<and> clock st' = clock st + wait \<and> arrivals st' = arrivals st"
proof (cases st wait rule: read_timed_cases)
  case elapsed
  with assms have "st' = st \<lparr> clock := clock st + wait \<rparr>" by simp
  with elapsed(2) show ?thesis by (simp add: quiet_def)
next
  case (arrival t a st1)
  with assms show ?thesis by (auto simp: read_event_def split: arrival.splits if_splits)
qed

lemma drain_loop_quiet: "drain_loop deadline st = (Inr (), st') \<Longrightarrow> quiet st'"
proof (induction deadline st arbitrary: st' rule: drain_loop.induct)
  case (1 deadline st)
  let ?wait = "min (deadline - clock st) (from_millis DRAIN_QUIET_MS)"
  obtain ev st1 where read: "read_timed ?wait st = (ev, st1)" by fastforce
  from 1(2) have ne: "deadline - clock st \<noteq> 0"
    by (auto simp: drain_loop.simps Let_def split: if_splits)
  show ?case
  proof (cases ev)
    case (Got bs)
    with 1(2) read ne have "drain_loop deadline st1 = (Inr (), st')" "bs \<noteq> []"
      by (subst (asm) drain_loop.simps, auto simp: Let_def split: if_splits)+
    with Got read ne show ?thesis by (intro 1(1)) auto
  next
    case Elapsed
    with 1(2) read ne have "st' = st1" by (subst (asm) drain_loop.simps) (auto simp: Let_def)
    with read Elapsed show ?thesis by (auto dest: read_timed_Elapsed)
  next
    case (Failed e)
    with 1(2) read ne show ?thesis by (subst (asm) drain_loop.simps) (auto simp: Let_def)
  qed
qed

lemma drain_quiet_aux:
  assumes "drain_stale_data st = (Inr (), st')"
  shows "quiet st'"
  using assms read_timed_Elapsed
  by (auto simp: drain_stale_data_def Let_def split: prod.splits poll_result.splits if_splits
      intro: drain_loop_quiet)

lemma read_at_least_clock:
  "read_at_least st buf deadline least = (r, buf', st') \<Longrightarrow>
     clock st \<le> clock st' \<and> clock st' \<le> max (clock st) deadline"
proof (induction st buf deadline least arbitrary: r buf' st' rule: read_at_least.induct)
  case (1 st buf deadline least)
  show ?case
  proof (cases "length buf < least \<and> deadline - clock st \<noteq> 0")
    case False
    with 1(2) show ?thesis by (subst (asm) read_at_least.simps) (auto simp: Let_def split: if_splits)
  next
    case True
    obtain ev st1 where read: "read_timed (deadline - clock st) st = (ev, st1)" by fastforce
    note clk = read_timed_clock [OF read]
    show ?thesis
    proof (cases "\<exists>b bs. ev = Got (b # bs)")
      case got: True
      then obtain b bs where ev: "ev = Got (b # bs)" by blast
      with 1(2) read True have "read_at_least st1 (buf @ b # bs) deadline least = (r, buf', st')"
        by (subst (asm) read_at_least.simps) (auto simp: Let_def)
      with ev True read have "clock st1 \<le> clock st' \<and> clock st' \<le> max (clock st1) deadline"
        by (intro 1(1)) auto
      with clk True show ?thesis by (auto simp: max_def split: if_splits)
    next
      case no: False
      then have "st' = st1"
        using 1(2) read True by (subst (asm) read_at_least.simps)
          (auto simp: Let_def neq_Nil_conv split: poll_result.splits if_splits)
      with clk True show ?thesis by (auto simp: max_def split: if_splits)
    qed
  qed
qed

section \<open>An undisturbed exchange\<close>

text \<open>What an operation on the stream leaves alone.\<close>

definition same_line :: "stream \<Rightarrow> stream \<Rightarrow> bool" where
  "same_line st st' \<longleftrightarrow> arrivals st' = arrivals st \<and> sent st' = sent st \<and> write_plan st' = write_plan st
     \<and> layers st' = layers st \<and> clock st \<le> clock st'"

lemma same_line_trans: "same_line a b \<Longrightarrow> same_line b c \<Longrightarrow> same_line a c"
  by (auto simp: same_line_def)

lemma same_line_prepare: "same_line st (prepare_send st)"
  by (auto simp: same_line_def prepare_send_def split: list.splits option.splits)

lemma drain_line_quiet:
  assumes "\<forall>ta \<in> set (take 1 (arrivals st)). clock st + from_millis 1 < fst ta"
  shows "drain_stale_data st = (Inr (), st \<lparr> clock := clock st + from_millis 1 \<rparr>)"
proof -
  have "read_timed (from_millis 1) st = (Elapsed, st \<lparr> clock := clock st + from_millis 1 \<rparr>)"
    using assms by (auto simp: read_timed_def split: list.splits)
  then show ?thesis by (simp add: drain_stale_data_def QUICK_POLL_MS_def)
qed

lemma write_timed_written:
  assumes "write_plan st = []"
  obtains st' where "write_timed d f st = (Inr (), st')" "sent st' = sent st @ [f]"
    "arrivals st' = arrivals st" "clock st' = clock st" "write_plan st' = []" "layers st' = layers st"
  using assms by (auto simp: write_timed_def Let_def record_tap_def touch_bus_def)

lemma send_frame_written:
  assumes "write_plan st = []" and "request_fits req"
  obtains st' where "send_frame st wb slave d req enc = (Inr (), [], st')"
    "sent st' = sent st @ [enc (slave # request_pdu req) []]"
    "arrivals st' = arrivals st" "clock st' = clock st"
proof -
  obtain st' where "write_timed d (enc (slave # request_pdu req) []) st = (Inr (), st')"
      "sent st' = sent st @ [enc (slave # request_pdu req) []]"
      "arrivals st' = arrivals st" "clock st' = clock st"
    by (rule write_timed_written [OF assms(1)])
  then show thesis
    using encode_request_into_fits [OF assms(2), of "[slave]"]
    by (intro that [of st']) (simp_all add: send_frame_def put_u8_def)
qed

lemma read_at_least_one:
  assumes "arrivals st = [(t, Data bs)]" "bs \<noteq> []" "t \<le> deadline" "clock st < deadline" "0 < least"
  obtains st' where "read_at_least st [] deadline least = (Inr (length bs), bs, st')"
    "sent st' = sent st" "arrivals st' = []"
proof -
  obtain b bs' where bs: "bs = b # bs'" using assms(2) by (cases bs) auto
  obtain ev st1 where read': "read_timed (deadline - clock st) st = (ev, st1)" by fastforce
  with assms(1,3,4) bs have read: "read_timed (deadline - clock st) st = (Got bs, st1)"
    and rest: "arrivals st1 = []" "sent st1 = sent st"
    by (auto simp: read_timed_def Let_def read_event_def record_tap_def touch_bus_def)
  have step: "read_at_least st [] deadline least = read_at_least st1 bs deadline least"
    using assms read by (subst read_at_least.simps) (simp add: Let_def)
  show thesis
  proof (cases "length bs < least \<and> deadline - clock st1 \<noteq> 0")
    case True
    let ?st2 = "st1 \<lparr> clock := clock st1 + (deadline - clock st1) \<rparr>"
    have "read_timed (deadline - clock st1) st1 = (Elapsed, ?st2)"
      using rest by (simp add: read_timed_def)
    with True have "read_at_least st1 bs deadline least = (Inr (length bs), bs, ?st2)"
      using assms(2) by (subst read_at_least.simps) (simp add: Let_def)
    with step rest show thesis by (intro that [of ?st2]) simp_all
  next
    case False
    then have "read_at_least st1 bs deadline least = (Inr (length bs), bs, st1)"
      by (subst read_at_least.simps) (auto simp: Let_def)
    with step rest show thesis by (intro that [of st1]) simp_all
  qed
qed

section \<open>The reconnect loop returns\<close>

lemma reconnect_loop_returns:
  assumes count: "\<And>s. cnt (snd (send s)) = Suc (cnt s)"
    and keep: "\<And>s. cnt (snd (rebuild s)) = cnt s" "\<And>d s. cnt (sleep d s) = cnt s"
    and retries: "0 < max_retries cfg" "unat (max_retries cfg) < 4294967295"
    and "unat failures \<le> unat (max_retries cfg)"
  shows "\<exists>r s'. reconnect_loop cfg send rebuild sleep exceeded_err failures rebuild_failures s = Some (r, s')
           \<and> cnt s < cnt s' \<and> cnt s' \<le> cnt s + (unat (max_retries cfg) + 1 - unat failures)"
  using assms(6)
proof (induction "unat (max_retries cfg) - unat failures" arbitrary: failures rebuild_failures s
    rule: less_induct)
  case less
  obtain res s1 where send: "send s = (res, s1)" by fastforce
  with count [of s] have cnt1: "cnt s1 = Suc (cnt s)" by simp
  have no_wrap: "unat (failures + 1) = unat failures + 1"
    using less.prems retries(2) by (simp add: unat_word_ariths)
  show ?case
  proof (cases "\<exists>e. res = Inl e \<and> is_retryable e \<and> failures + 1 \<le> max_retries cfg")
    case False
    then show ?thesis
      using send cnt1 retries less.prems
      by (subst reconnect_loop.simps) (auto simp: Let_def not_le split: sum.splits)
  next
    case True
    then obtain e where res: "res = Inl e" "is_retryable e" and le: "failures + 1 \<le> max_retries cfg" by blast
    obtain ok s2 where reb: "rebuild (sleep (interval cfg) s1) = (ok, s2)" by fastforce
    with keep have cnt2: "cnt s2 = cnt s1" by (metis snd_conv)
    from le no_wrap have le': "unat failures + 1 \<le> unat (max_retries cfg)"
      by (simp add: word_le_nat_alt)
    have IH: "\<exists>r s'. reconnect_loop cfg send rebuild sleep exceeded_err (failures + 1) rf s2 = Some (r, s')
        \<and> cnt s2 < cnt s' \<and> cnt s' \<le> cnt s2 + (unat (max_retries cfg) + 1 - unat (failures + 1))" for rf
      using le' by (intro less.hyps) (simp_all add: no_wrap)
    show ?thesis
      using send res le reb IH [of "if ok then 0 else rebuild_failures + 1"] cnt1 cnt2 le'
      by (subst reconnect_loop.simps) (auto simp: Let_def not_less no_wrap split: if_splits)
  qed
qed

section \<open>A busy line\<close>

text \<open>A byte every 9 ms: the line is never quiet for the 10 ms the drain asks for.\<close>

definition busy_line :: stream where
  "busy_line = \<lparr> clock = 0, arrivals = map (\<lambda>i. (from_millis (9 * i), Data [0])) [0..<100],
     write_plan = [], sent = [], bus = None, layers = [], tap_log = [] \<rparr>"

lemma busy_step:
  assumes "arrivals st = (t, Data (b # bs)) # rest" "clock st \<le> t" "t \<le> clock st + from_millis DRAIN_QUIET_MS"
    "t < deadline" "layers st = []"
  shows "drain_loop deadline st = drain_loop deadline (st \<lparr> clock := t, arrivals := rest \<rparr>)"
proof -
  let ?st = "st \<lparr> clock := t, arrivals := rest \<rparr>"
  have "read_timed (min (deadline - clock st) (from_millis DRAIN_QUIET_MS)) st = (Got (b # bs), ?st)"
    using assms
    by (simp add: read_timed_def read_event_def Let_def record_tap_def touch_bus_def tap_count_def max_def)
  with assms(2,4) show ?thesis by (subst drain_loop.simps) (simp add: Let_def)
qed

lemma busy_line_drained:
  "drain_stale_data busy_line = (Inr (), busy_line \<lparr> clock := from_millis 200,
     arrivals := map (\<lambda>i. (from_millis (9 * i), Data [0])) [23..<100] \<rparr>)"
proof -
  let ?st = "\<lambda>k. busy_line \<lparr> clock := from_millis (9 * k),
      arrivals := map (\<lambda>i. (from_millis (9 * i), Data [0])) [k + 1..<100] \<rparr>"
  have run: "drain_loop (from_millis 200) (?st 0) = drain_loop (from_millis 200) (?st k)" if "k \<le> 22" for k
    using that
  proof (induction k)
    case (Suc k)
    have "drain_loop (from_millis 200) (?st k) = drain_loop (from_millis 200) (?st (Suc k))"
      using Suc.prems
      by (subst busy_step [where t = "from_millis (9 * Suc k)" and b = 0 and bs = "[]"])
        (simp_all add: busy_line_def drain_consts upt_conv_Cons)
    with Suc show ?case by simp
  qed simp
  have "arrivals busy_line = (from_millis (9 * 0), Data [0]) # arrivals (?st 0)"
    by (simp add: busy_line_def upt_conv_Cons)
  then have "drain_stale_data busy_line = drain_loop (from_millis 200) (?st 0)"
    by (simp add: drain_stale_data_def read_timed_def read_event_def Let_def busy_line_def touch_bus_def record_tap_def
        tap_count_def drain_consts)
  also have "\<dots> = drain_loop (from_millis 200) (?st 22)" by (rule run) simp
  also have "\<dots> = (Inr (), busy_line \<lparr> clock := from_millis 200,
     arrivals := map (\<lambda>i. (from_millis (9 * i), Data [0])) [23..<100] \<rparr>)"
    by (subst drain_loop.simps) (simp add: read_timed_def busy_line_def drain_consts Let_def upt_conv_Cons)
  finally show ?thesis .
qed

end
