(* ===== verification/Modbus_Codec.thy ===== *)
theory Modbus_Codec
  imports Modbus_Prelude
begin

text \<open>
  \<open>src/codec.rs\<close>: the RTU checksum (table-driven CRC-16), the ASCII checksum (LRC) and the
  two frame encoders.  The lemmas show that the table computes the bit-by-bit CRC, that an
  encoded RTU frame has residue zero, and which corruptions the checksums detect.
\<close>

section \<open>CRC-16\<close>

text \<open>The body of the inner loop of the table initialiser.\<close>

definition crc_step :: "u16 \<Rightarrow> u16" where
  "crc_step crc = (if crc AND 0x0001 \<noteq> 0 then drop_bit 1 crc XOR 0xA001 else drop_bit 1 crc)"

definition crc_table_entry :: "nat \<Rightarrow> u16" where
  "crc_table_entry i = (crc_step ^^ 8) (of_nat i)"

definition CRC_TABLE :: "u16 list" where
  "CRC_TABLE = map crc_table_entry [0..<256]"

definition crc_update :: "u16 \<Rightarrow> u8 \<Rightarrow> u16" where
  "crc_update crc byte =
     (let idx = unat ((ucast crc :: u8) XOR byte) in drop_bit 8 crc XOR CRC_TABLE ! idx)"

definition calculate_crc :: "bytes \<Rightarrow> u16" where
  "calculate_crc data = foldl crc_update 0xFFFF data"

definition encode_rtu_frame :: "bytes \<Rightarrow> bytes \<Rightarrow> bytes" where
  "encode_rtu_frame data buf =
     (let crc = calculate_crc data in put_u16_le (put_slice buf data) crc)"

section \<open>LRC and ASCII frames\<close>

definition ASCII_START :: u8 where "ASCII_START = 0x3A"
definition CR :: u8 where "CR = 0x0D"
definition LF :: u8 where "LF = 0x0A"

definition calculate_lrc :: "bytes \<Rightarrow> u8" where
  "calculate_lrc data = - foldl (+) 0 data"

definition HEX :: bytes where
  "HEX = [0x30, 0x31, 0x32, 0x33, 0x34, 0x35, 0x36, 0x37, 0x38, 0x39,
          0x41, 0x42, 0x43, 0x44, 0x45, 0x46]"

definition hex_encode_byte :: "u8 \<Rightarrow> bytes" where
  "hex_encode_byte byte = [HEX ! unat (drop_bit 4 byte), HEX ! unat (byte AND 0x0F)]"

definition encode_ascii_frame_into :: "bytes \<Rightarrow> bytes \<Rightarrow> bytes" where
  "encode_ascii_frame_into data buf =
     (let lrc = calculate_lrc data;
          buf = put_u8 buf ASCII_START;
          buf = foldl (\<lambda>buf byte. put_slice buf (hex_encode_byte byte)) buf data;
          buf = put_slice buf (hex_encode_byte lrc);
          buf = put_u8 buf CR
      in put_u8 buf LF)"

definition encode_ascii_frame :: "bytes \<Rightarrow> bytes" where
  "encode_ascii_frame data = encode_ascii_frame_into data []"

section \<open>The table is the bitwise CRC\<close>

lemma odd_u16: "(crc :: u16) AND 0x0001 \<noteq> 0 \<longleftrightarrow> bit crc 0"
  by (simp add: and_one_eq bit_0 odd_iff_mod_2_eq_one)

lemma bit_A001: "bit (0xA001 :: u16) n \<longleftrightarrow> n = 0 \<or> n = 13 \<or> n = 15"
proof (cases "n < 16")
  case True
  then show ?thesis
    by (elim below_16 [THEN insertE] insertE emptyE) (simp_all add: bit_Suc bit_0)
next
  case False
  then show ?thesis using bit_imp_le_length [of "0xA001 :: u16" n] by auto
qed

lemma crc_step_eq: "crc_step crc = (if bit crc 0 then drop_bit 1 crc XOR 0xA001 else drop_bit 1 crc)"
  using odd_u16 [of crc] by (simp add: crc_step_def)

lemma crc_step_xor: "crc_step (a XOR b) = crc_step a XOR crc_step b"
  by (rule bit_word_eqI) (auto simp: crc_step_eq bit_simps)

lemma crc_step_0 [simp]: "crc_step 0 = 0"
  by (simp add: crc_step_def)

lemma bit_crc_step: "bit (crc_step a) n \<longleftrightarrow> (bit a (Suc n) \<noteq> (bit a 0 \<and> n \<in> {0, 13, 15}))"
  unfolding crc_step_eq by (auto simp: bit_xor_iff bit_drop_bit_eq bit_A001 simp del: bit_numeral_word_iff)

lemma crc_step_inject: "crc_step a = crc_step b \<longleftrightarrow> a = b"
proof
  assume eq: "crc_step a = crc_step b"
  then have eqs: "bit (crc_step a) n \<longleftrightarrow> bit (crc_step b) n" for n by simp
  have no16: "\<not> bit a 16" "\<not> bit b 16" using bit_imp_le_length by fastforce+
  have "bit a 0 \<longleftrightarrow> bit b 0" using eqs [of 15] no16 by (simp add: bit_crc_step)
  then have "bit a n \<longleftrightarrow> bit b n" for n
    using eqs [of "n - 1"] by (cases n) (auto simp: bit_crc_step)
  then show "a = b" by (intro bit_word_eqI) auto
qed simp

text \<open>The reference: shift the byte in and run the bit loop eight times.\<close>

definition crc_bits :: "u16 \<Rightarrow> u16" where
  "crc_bits w = (crc_step ^^ 8) w"

definition crc_reference :: "bytes \<Rightarrow> u16" where
  "crc_reference data = foldl (\<lambda>crc byte. crc_bits (crc XOR ucast byte)) 0xFFFF data"

lemma funpow_8: "(f ^^ 8) x = f (f (f (f (f (f (f (f x)))))))"
  by (simp add: eval_nat_numeral)

lemma crc_bits_xor: "crc_bits (a XOR b) = crc_bits a XOR crc_bits b"
  by (simp add: crc_bits_def funpow_8 crc_step_xor)

lemma crc_bits_inject [simp]: "crc_bits a = crc_bits b \<longleftrightarrow> a = b"
  by (simp add: crc_bits_def funpow_8 crc_step_inject)

lemma crc_bits_0 [simp]: "crc_bits 0 = 0"
  by (simp add: crc_bits_def funpow_8)

lemma crc_step_even: "\<not> bit a 0 \<Longrightarrow> crc_step a = drop_bit 1 a"
  by (simp add: crc_step_eq)

lemma crc_bits_high: "(\<And>n. n < 8 \<Longrightarrow> \<not> bit a n) \<Longrightarrow> crc_bits a = drop_bit 8 a"
  by (simp add: crc_bits_def funpow_8 crc_step_even bit_drop_bit_eq) (simp add: eval_nat_numeral)

lemma crc_bits_push: "crc_bits (push_bit 8 (ucast b)) = ucast (b :: u8)"
proof -
  have "crc_bits (push_bit 8 (ucast b)) = drop_bit 8 (push_bit 8 (ucast b))"
    by (rule crc_bits_high) (simp add: bit_simps)
  also have "\<dots> = ucast b"
    by (rule bit_word_eqI) (auto simp: bit_simps dest: bit_imp_le_length)
  finally show ?thesis .
qed

lemma CRC_TABLE_nth: "CRC_TABLE ! unat (i :: u8) = crc_bits (ucast i)"
  by (simp add: CRC_TABLE_def crc_table_entry_def crc_bits_def)

lemma crc_update_reference: "crc_update crc byte = crc_bits (crc XOR ucast byte)"
proof -
  define h l where "h = (ucast (drop_bit 8 crc) :: u8)" and "l = (ucast crc :: u8)"
  have split: "crc = push_bit 8 (ucast h) XOR ucast l"
    unfolding h_def l_def by (rule bit_word_eqI) (auto simp: bit_simps dest: bit_imp_le_length)
  have "crc XOR ucast byte = push_bit 8 (ucast h) XOR ucast (l XOR byte)"
    unfolding h_def l_def
    by (rule bit_word_eqI) (auto simp: bit_simps bit_u8_ge dest: bit_imp_le_length)
  then have "crc_bits (crc XOR ucast byte) = ucast h XOR crc_bits (ucast (l XOR byte))"
    by (simp only: crc_bits_xor crc_bits_push)
  moreover have "ucast h = drop_bit 8 crc"
    unfolding h_def by (rule bit_word_eqI) (auto simp: bit_simps dest: bit_imp_le_length)
  ultimately show ?thesis by (simp add: crc_update_def CRC_TABLE_nth l_def)
qed

lemma calculate_crc_reference: "calculate_crc data = crc_reference data"
  by (simp add: calculate_crc_def crc_reference_def crc_update_reference [abs_def])

section \<open>The CRC as a remainder\<close>

text \<open>
  Division over GF(2), apart from the code's loop: polynomials as lists of coefficients, the highest
  power first.  The generator of CRC-16 is \<open>x^16 + x^15 + x^2 + 1\<close>; a byte is sent lowest bit
  first; presetting the register to ones is adding ones to the first 16 coefficients.
\<close>

definition crc_generator :: "bool list" where
  "crc_generator = map (\<lambda>power. power \<in> {16, 15, 2, 0}) (rev [0..<17])"

fun poly_add :: "bool list \<Rightarrow> bool list \<Rightarrow> bool list" where
  "poly_add (x # xs) (y # ys) = (x \<noteq> y) # poly_add xs ys"
| "poly_add xs [] = xs"
| "poly_add [] ys = ys"

lemma length_poly_add [simp]: "length (poly_add xs ys) = max (length xs) (length ys)"
  by (induction xs ys rule: poly_add.induct) auto

lemma nth_poly_add:
  "i < max (length xs) (length ys) \<Longrightarrow> poly_add xs ys ! i = ((i < length xs \<and> xs ! i) \<noteq> (i < length ys \<and> ys ! i))"
proof (induction xs ys arbitrary: i rule: poly_add.induct)
  case (1 x xs y ys)
  then show ?case by (cases i) (auto simp: less_max_iff_disj)
qed auto

function poly_mod :: "bool list \<Rightarrow> bool list \<Rightarrow> bool list" where
  "poly_mod p g =
     (if length p < length g \<or> g = [] then p
      else poly_mod (tl (if hd p then poly_add p g else p)) g)"
  by pat_completeness auto
termination
proof (relation "measure (\<lambda>(p, g). length p)", goal_cases)
  case (2 p g)
  then have "0 < length g" "length g \<le> length p" by auto
  then have "length p - 1 < length p" by linarith
  with \<open>length g \<le> length p\<close> show ?case by (simp add: max_def)
qed simp

declare poly_mod.simps [simp del]

definition crc_remainder :: "bytes \<Rightarrow> bool list" where
  "crc_remainder data =
     poly_mod (poly_add (concat (map (\<lambda>b. map (bit b) [0..<8]) data) @ replicate 16 False) (replicate 16 True)) crc_generator"

text \<open>The register as coefficients, and one step of the division.\<close>

definition register :: "u16 \<Rightarrow> bool list" where
  "register c = map (bit c) [0..<16]"

definition crc_shift :: "u16 \<Rightarrow> bool \<Rightarrow> u16" where
  "crc_shift c m = crc_step (c XOR of_bool m)"

lemma length_register [simp]: "length (register c) = 16"
  by (simp add: register_def)

lemma nth_register: "i < 16 \<Longrightarrow> register c ! i = bit c i"
  by (simp add: register_def)

lemma length_generator [simp]: "length crc_generator = 17"
  by (simp add: crc_generator_def)

lemma nth_generator: "i < 17 \<Longrightarrow> crc_generator ! i \<longleftrightarrow> i \<in> {0, 1, 14, 16}"
  by (auto simp: crc_generator_def rev_nth)

lemma bit_of_bool_u16: "bit (of_bool m :: u16) i \<longleftrightarrow> m \<and> i = 0"
  by (auto simp: bit_0 bit_of_bool_iff)

lemma poly_mod_step:
  assumes "16 \<le> length ms"
  shows "poly_mod (poly_add (register c) (m # ms)) crc_generator = poly_mod (poly_add (register (crc_shift c m)) ms) crc_generator"
proof -
  let ?p = "poly_add (register c) (m # ms)" and ?d = "c XOR of_bool m"
  have len: "length ?p = Suc (length ms)" using assms by simp
  have hd: "hd ?p \<longleftrightarrow> bit ?d 0"
    using len nth_poly_add [of 0 "register c" "m # ms"] by (simp add: hd_conv_nth flip: length_greater_0_conv)
      (auto simp: nth_register bit_xor_iff bit_of_bool_u16 simp del: bit_0)
  have d: "bit ?d (Suc i) \<longleftrightarrow> bit c (Suc i)" for i by (simp add: bit_xor_iff bit_of_bool_u16)
  have "tl (if hd ?p then poly_add ?p crc_generator else ?p) = poly_add (register (crc_shift c m)) ms" (is "?l = ?r")
  proof (rule nth_equalityI)
    show "length ?l = length ?r" using assms by (auto simp: max_def)
    fix i
    assume "i < length ?l"
    then have i: "i < length ms" using assms by (auto simp: max_def split: if_splits)
    have p: "?p ! Suc i = ((i < 15 \<and> bit c (Suc i)) \<noteq> ms ! i)"
      using i nth_poly_add [of "Suc i" "register c" "m # ms"] by (auto simp: nth_register)
    have g: "(Suc i < 17 \<and> crc_generator ! Suc i) = (i \<in> {0, 13, 15})" by (auto simp: nth_generator)
    have "?l ! i = (?p ! Suc i \<noteq> (hd ?p \<and> i \<in> {0, 13, 15}))"
    proof (cases "hd ?p")
      case True
      then have "?l ! i = poly_add ?p crc_generator ! Suc i" using i len by (simp add: nth_tl)
      also have "\<dots> = (?p ! Suc i \<noteq> (Suc i < 17 \<and> crc_generator ! Suc i))"
        by (subst nth_poly_add) (use i len in simp_all)
      finally show ?thesis unfolding g using True by simp
    qed (use i len in \<open>simp add: nth_tl\<close>)
    moreover have "?r ! i = ((i < 16 \<and> bit (crc_step ?d) i) \<noteq> ms ! i)"
      by (subst nth_poly_add) (use i in \<open>auto simp: nth_register crc_shift_def\<close>)
    moreover have "(i < 16 \<and> bit (crc_step ?d) i) = ((i < 15 \<and> bit c (Suc i)) \<noteq> (bit ?d 0 \<and> i \<in> {0, 13, 15}))"
    proof -
      have "i < 16 \<and> bit c (Suc i) \<longleftrightarrow> i < 15 \<and> bit c (Suc i)" using bit_imp_le_length [of c "Suc i"] by auto
      moreover have "i \<in> {0, 13, 15} \<Longrightarrow> i < 16" by auto
      ultimately show ?thesis unfolding bit_crc_step d by blast
    qed
    ultimately show "?l ! i = ?r ! i" unfolding p hd by blast
  qed
  moreover have "\<not> length ?p < length crc_generator" "crc_generator \<noteq> []" using assms by (auto simp flip: length_greater_0_conv)
  ultimately show ?thesis by (subst poly_mod.simps) simp
qed

lemma poly_mod_bits:
  "16 \<le> length ms \<Longrightarrow>
    poly_mod (poly_add (register c) (bits @ ms)) crc_generator = poly_mod (poly_add (register (foldl crc_shift c bits)) ms) crc_generator"
  by (induction bits arbitrary: c) (simp_all add: poly_mod_step)

lemma crc_steps_xor: "(crc_step ^^ n) (a XOR b) = (crc_step ^^ n) a XOR (crc_step ^^ n) b"
  by (induction n) (simp_all add: crc_step_xor)

lemma crc_steps_push: "n < 16 \<Longrightarrow> (crc_step ^^ n) (push_bit n (of_bool m)) = of_bool m"
proof (induction n)
  case (Suc n)
  have "crc_step (push_bit (Suc n) (of_bool m)) = drop_bit 1 (push_bit (Suc n) (of_bool m))"
    by (rule crc_step_even) (simp add: bit_push_bit_iff)
  also have "\<dots> = push_bit n (of_bool m)"
    using Suc.prems
    by (intro bit_word_eqI, auto simp only: bit_drop_bit_eq comp_apply bit_push_bit_iff bit_of_bool_u16 possible_bit_word)
      simp
  finally have "crc_step (push_bit (Suc n) (of_bool m)) = push_bit n (of_bool m)" .
  then have "(crc_step ^^ Suc n) (push_bit (Suc n) (of_bool m)) = (crc_step ^^ n) (push_bit n (of_bool m))"
    by (simp only: funpow_Suc_right comp_apply)
  with Suc show ?case by (simp only: Suc_lessD)
qed simp

lemma crc_shift_bits: "n \<le> 16 \<Longrightarrow> foldl crc_shift c (map (bit w) [0..<n]) = (crc_step ^^ n) (c XOR take_bit n w)"
proof (induction n)
  case (Suc n)
  have "take_bit (Suc n) w = take_bit n w XOR push_bit n (of_bool (bit w n))"
    using Suc.prems
    by (intro bit_word_eqI) (auto simp: bit_take_bit_iff bit_xor_iff bit_push_bit_iff bit_of_bool_u16 less_Suc_eq)
  then have "(crc_step ^^ n) (c XOR take_bit (Suc n) w) = (crc_step ^^ n) (c XOR take_bit n w) XOR of_bool (bit w n)"
    using Suc.prems by (simp add: crc_steps_xor crc_steps_push xor.assoc)
  then have "crc_step ((crc_step ^^ n) (c XOR take_bit n w) XOR of_bool (bit w n)) = (crc_step ^^ Suc n) (c XOR take_bit (Suc n) w)"
    by simp
  with Suc show ?case by (simp only: crc_shift_def upt_Suc map_append list.map foldl_append foldl.simps) simp
qed simp

lemma crc_shift_byte: "foldl crc_shift c (map (bit b) [0..<8]) = crc_bits (c XOR ucast (b :: u8))"
proof -
  have "map (bit b) [0..<8] = map (bit (ucast b :: u16)) [0..<8]" by (simp add: bit_ucast_iff)
  moreover have "take_bit 8 (ucast b) = (ucast b :: u16)"
    by (rule bit_word_eqI) (auto simp: bit_take_bit_iff bit_ucast_iff dest: bit_u8_less)
  ultimately show ?thesis using crc_shift_bits [of 8 c "ucast b"] by (simp only: crc_bits_def)
qed

lemma crc_shift_bytes:
  "foldl crc_shift c (concat (map (\<lambda>b. map (bit b) [0..<8]) data)) =
    foldl (\<lambda>crc byte. crc_bits (crc XOR ucast byte)) c (data :: bytes)"
  by (induction data arbitrary: c) (simp_all only: list.map concat.simps foldl_append foldl.simps crc_shift_byte)

lemma calculate_crc_remainder: "register (calculate_crc data) = crc_remainder data"
proof -
  let ?bits = "concat (map (\<lambda>b. map (bit b) [0..<8]) data)"
  have preset: "poly_add (?bits @ replicate 16 False) (replicate 16 True) = poly_add (register 0xFFFF) (?bits @ replicate 16 False)"
    (is "?l = ?r")
  proof (rule nth_equalityI)
    show "length ?l = length ?r" by simp
    have ones: "bit (0xFFFF :: u16) i" if "i < 16" for i
      using that by (elim below_16 [THEN insertE] insertE emptyE) (simp_all add: bit_Suc bit_0)
    fix i
    assume i: "i < length ?l"
    have "?l ! i = ((?bits @ replicate 16 False) ! i \<noteq> (i < 16))"
      by (subst nth_poly_add) (use i in \<open>auto simp: max_def split: if_splits\<close>)
    moreover have "?r ! i = ((i < 16 \<and> register 0xFFFF ! i) \<noteq> (?bits @ replicate 16 False) ! i)"
      by (subst nth_poly_add) (use i in \<open>auto simp: max_def split: if_splits\<close>)
    moreover have "i < 16 \<Longrightarrow> register 0xFFFF ! i" using ones [of i] nth_register [of i "0xFFFF"] by simp
    ultimately show "?l ! i = ?r ! i" by blast
  qed
  have "poly_mod (poly_add (register c) (replicate 16 False)) crc_generator = register c" for c
  proof -
    have "poly_add (register c) (replicate 16 False) = register c"
      by (rule nth_equalityI) (simp_all add: nth_poly_add)
    then show ?thesis by (subst poly_mod.simps) simp
  qed
  then show ?thesis
    by (simp only: crc_remainder_def preset poly_mod_bits length_replicate order_refl crc_shift_bytes
        calculate_crc_reference crc_reference_def)
qed

section \<open>Residue and error detection\<close>

lemma crc_update_inject: "crc_update c b = crc_update c' b \<longleftrightarrow> c = c'"
proof -
  have "c XOR w = c' XOR w \<longleftrightarrow> c = c'" for w :: u16
    by (metis xor.assoc xor.right_neutral xor_self_eq)
  then show ?thesis by (simp add: crc_update_reference)
qed

lemma foldl_crc_inject: "foldl crc_update c data = foldl crc_update c' data \<longleftrightarrow> c = c'"
  by (induction data arbitrary: c c') (simp_all add: crc_update_inject)

lemma crc_update_lo_hi: "crc_update (crc_update crc (lo8 crc)) (hi8 crc) = 0"
proof -
  have "crc XOR ucast (lo8 crc) = push_bit 8 (ucast (hi8 crc))"
    by (rule bit_word_eqI) (auto simp: bit_simps bit_hi8 bit_lo8 dest: bit_imp_le_length)
  then show ?thesis by (simp add: crc_update_reference crc_bits_push)
qed

lemma crc_residue: "calculate_crc (data @ [lo8 (calculate_crc data), hi8 (calculate_crc data)]) = 0"
  by (simp add: calculate_crc_def crc_update_lo_hi)

lemma encode_rtu_frame_eq:
  "encode_rtu_frame data buf = buf @ data @ [lo8 (calculate_crc data), hi8 (calculate_crc data)]"
  by (simp add: encode_rtu_frame_def Let_def put_defs)

lemma crc_update_two:
  "crc_update (crc_update c a) b = crc_bits (crc_bits (c XOR (push_bit 8 (ucast b) OR ucast a)))"
proof -
  have "crc_bits (c XOR ucast a) XOR ucast b = crc_bits (c XOR ucast a XOR push_bit 8 (ucast b))"
    by (simp add: crc_bits_xor crc_bits_push xor.assoc)
  moreover have "c XOR ucast a XOR push_bit 8 (ucast b) = c XOR (push_bit 8 (ucast b) OR ucast a)"
    by (rule bit_word_eqI) (auto simp: bit_simps dest: bit_u8_less)
  ultimately show ?thesis by (simp add: crc_update_reference)
qed

lemma crc_two_bytes:
  "calculate_crc (pre @ [a, b] @ post) = calculate_crc (pre @ [a', b'] @ post) \<longleftrightarrow> a = a' \<and> b = b'"
proof -
  have xor: "c XOR w = c XOR w' \<longleftrightarrow> w = w'" for c w w' :: u16
    by (metis xor.assoc xor_self_eq xor.left_neutral)
  show ?thesis
    by (simp add: calculate_crc_def foldl_crc_inject crc_update_two xor flip: be16_def) blast
qed

text \<open>A frame's checksum test: the last two bytes, low byte first, against the CRC of the rest.\<close>

definition crc_valid :: "bytes \<Rightarrow> bool" where
  "crc_valid frame \<longleftrightarrow> 2 \<le> length frame
     \<and> calculate_crc (take (length frame - 2) frame)
         = be16 (frame ! (length frame - 1)) (frame ! (length frame - 2))"

lemma crc_valid_iff: "crc_valid (data @ [l, h]) \<longleftrightarrow> calculate_crc data = be16 h l"
  by (simp add: crc_valid_def nth_append)

lemma crc_valid_residue: "2 \<le> length frame \<Longrightarrow> crc_valid frame \<longleftrightarrow> calculate_crc frame = 0"
proof -
  assume len: "2 \<le> length frame"
  obtain data l h where frame: "frame = data @ [l, h]"
  proof -
    from len have "length (drop (length frame - 2) frame) = 2" by simp
    then obtain l h where "drop (length frame - 2) frame = [l, h]"
      by (auto simp only: length_2_iff)
    then have "frame = take (length frame - 2) frame @ [l, h]" by (metis append_take_drop_id)
    then show thesis by (rule that)
  qed
  let ?c = "calculate_crc data"
  have "calculate_crc (data @ [l, h]) = calculate_crc (data @ [lo8 ?c, hi8 ?c]) \<longleftrightarrow> l = lo8 ?c \<and> h = hi8 ?c"
    using crc_two_bytes [of data l h "[]" "lo8 ?c" "hi8 ?c"] by simp
  moreover have "l = lo8 ?c \<and> h = hi8 ?c \<longleftrightarrow> ?c = be16 h l"
    by (metis be16_hi_lo hi8_be16 lo8_be16)
  ultimately show ?thesis by (simp only: frame crc_valid_iff crc_residue)
qed

lemma foldl_plus: "foldl (+) (a :: u8) data = a + foldl (+) 0 data"
  by (induction data arbitrary: a) (simp, metis (no_types, lifting) add.assoc add_0 foldl_Cons)

lemma lrc_sum: "foldl (+) 0 (data @ [calculate_lrc data]) = 0"
  by (simp add: calculate_lrc_def)

lemma lrc_one_byte: "calculate_lrc (pre @ a # post) = calculate_lrc (pre @ b # post) \<longleftrightarrow> a = b"
  by (simp add: calculate_lrc_def foldl_plus [of "_ + _"] foldl_plus [of "foldl (+) 0 pre + _"])

definition hex_bytes :: "bytes \<Rightarrow> bytes" where
  "hex_bytes data = concat (map hex_encode_byte data)"

lemma hex_bytes_simps [simp]:
  "hex_bytes [] = []" "hex_bytes (b # bs) = hex_encode_byte b @ hex_bytes bs"
  "hex_bytes (bs @ cs) = hex_bytes bs @ hex_bytes cs"
  by (simp_all add: hex_bytes_def)

lemma length_hex_encode_byte [simp]: "length (hex_encode_byte b) = 2"
  by (simp add: hex_encode_byte_def)

lemma length_hex_bytes [simp]: "length (hex_bytes data) = 2 * length data"
  by (induction data) auto

lemma encode_ascii_frame_into_eq:
  "encode_ascii_frame_into data buf =
     buf @ ASCII_START # hex_bytes (data @ [calculate_lrc data]) @ [CR, LF]"
proof -
  have "foldl (\<lambda>buf byte. put_slice buf (hex_encode_byte byte)) buf data = buf @ hex_bytes data" for buf
    by (induction data arbitrary: buf) (auto simp: put_slice_def)
  then show ?thesis by (simp add: encode_ascii_frame_into_def Let_def put_defs)
qed

end
