(* ===== verification/Modbus_Transport.thy ===== *)
theory Modbus_Transport
  imports Modbus_Send_Recv Modbus_Codec
begin

text \<open>
  What the three transports share: the frame limits of \<open>src/transport/mod.rs\<close>, the client
  built around a stream (\<open>src/transport/rtu.rs\<close> and \<open>ascii.rs\<close> hold the same code), and the
  server loop that cuts frames off a buffer and answers them.  The locale \<open>framing\<close> states what
  the loop needs of a frame parser: it consumes at least one byte and no more than there are.
\<close>

section \<open>Frame limits\<close>

definition MAX_ADU_SIZE :: nat where "MAX_ADU_SIZE = 256"
definition CRC_SIZE :: nat where "CRC_SIZE = 2"
definition MIN_RTU_FRAME :: nat where "MIN_RTU_FRAME = 5"
definition MBAP_HEADER_SIZE :: nat where "MBAP_HEADER_SIZE = 7"
definition MBAP_PREFIX_SIZE :: nat where "MBAP_PREFIX_SIZE = 6"
definition MAX_TCP_ADU_SIZE :: nat where "MAX_TCP_ADU_SIZE = MBAP_HEADER_SIZE + MAX_PDU_SIZE"

lemmas frame_consts = MAX_ADU_SIZE_def CRC_SIZE_def MIN_RTU_FRAME_def MBAP_HEADER_SIZE_def
  MBAP_PREFIX_SIZE_def MAX_TCP_ADU_SIZE_def MAX_PDU_SIZE_def

section \<open>Clients\<close>

text \<open>The part of a client behind its mutex, and the client's fixed configuration.\<close>

record inner =
  in_stream :: stream
  in_write_buf :: bytes
  in_read_buf :: bytes

record client =
  cl_timeout :: duration
  cl_reconnect :: "ReconnectConfig option"
  cl_bus_timing :: "BusTiming option"
  cl_tap :: bool

definition DEFAULT_BUF_SIZE :: nat where "DEFAULT_BUF_SIZE = 4096"
definition DEFAULT_DATA_CHANNEL_CAPACITY :: nat where "DEFAULT_DATA_CHANNEL_CAPACITY = 1024 * 1024"
definition DEFAULT_TAP_CHANNEL_CAPACITY :: nat where "DEFAULT_TAP_CHANNEL_CAPACITY = 256 * 1024"

text \<open>\<open>SniffIo::new\<close> around a transport: one more layer.  The builders act on the outermost one.\<close>

definition sniff_new :: "bool \<Rightarrow> bool \<Rightarrow> stream \<Rightarrow> stream" where
  "sniff_new tap timing st = st \<lparr> layers := \<lparr> has_tap = tap, has_timing = timing,
     data_room = DEFAULT_DATA_CHANNEL_CAPACITY, tap_room = DEFAULT_TAP_CHANNEL_CAPACITY \<rparr> # layers st \<rparr>"

fun sniff_set_rooms :: "nat option \<Rightarrow> nat option \<Rightarrow> layer list \<Rightarrow> layer list" where
  "sniff_set_rooms data tap [] = []"
| "sniff_set_rooms data tap (l # ls) =
     (let l = (case data of Some n \<Rightarrow> l \<lparr> data_room := n \<rparr> | None \<Rightarrow> l);
          l = (case tap of Some n \<Rightarrow> l \<lparr> tap_room := n \<rparr> | None \<Rightarrow> l)
      in l # ls)"

definition inner_new :: "stream \<Rightarrow> inner" where
  "inner_new st = \<lparr> in_stream = st, in_write_buf = [], in_read_buf = [] \<rparr>"

definition serial_with_timeout :: "stream \<Rightarrow> duration \<Rightarrow> client \<times> inner" where
  "serial_with_timeout transport timeout =
     (\<lparr> cl_timeout = timeout, cl_reconnect = None, cl_bus_timing = None, cl_tap = False \<rparr>,
      inner_new (sniff_new False False transport))"

definition serial_with_options :: "stream \<Rightarrow> 'tap ClientOptions \<Rightarrow> client \<times> inner" where
  "serial_with_options transport opts =
     (let tap = opt_tap opts \<noteq> None;
          timing = opt_bus_timing opts;
          stream = sniff_new tap (timing \<noteq> None) (transport \<lparr> bus := timing \<rparr>);
          stream = stream \<lparr> layers := sniff_set_rooms (data_channel_capacity opts) (tap_channel_capacity opts) (layers stream) \<rparr>;
          (raw, inner) = serial_with_timeout stream (opt_timeout opts)
      in (raw \<lparr> cl_bus_timing := timing, cl_tap := tap \<rparr>, inner))"

definition serial_with_reconnect :: "client \<Rightarrow> u32 \<Rightarrow> duration \<Rightarrow> client" where
  "serial_with_reconnect cl retries backoff = cl \<lparr> cl_reconnect := Some (reconnect_new retries backoff) \<rparr>"

text \<open>\<open>with_reconnect_on\<close>: the factory for raw transports becomes one for wrapped transports.\<close>

definition reconnect_on_factory :: "client \<Rightarrow> stream option \<Rightarrow> stream option" where
  "reconnect_on_factory cl raw = map_option (sniff_new (cl_tap cl) (cl_bus_timing cl \<noteq> None)) raw"

text \<open>
  The closures \<open>call\<close> gives to the reconnect loop.  The future attempts to open a transport are a
  list: the time each takes, which no time-out of the client limits, and what it gives, \<open>Some\<close>
  transport or \<open>None\<close> for a failure.  The shared timing lives on in the new stream.
\<close>

type_synonym attempt = "duration \<times> stream option"

definition serial_rebuild :: "client \<Rightarrow> inner \<times> attempt list \<Rightarrow> bool \<times> inner \<times> attempt list" where
  "serial_rebuild cl state =
     (let (inner, plan) = state
      in if cl_reconnect cl = None then (False, inner, plan)
         else case plan of
           (took, Some new) # rest \<Rightarrow>
             (True,
              \<lparr> in_stream = sniff_new (cl_tap cl) (cl_bus_timing cl \<noteq> None)
                             (new \<lparr> clock := clock (in_stream inner) + took, bus := bus (in_stream inner),
                                    tap_log := tap_log (in_stream inner) \<rparr>),
                in_write_buf = [], in_read_buf = [] \<rparr>, rest)
         | (took, None) # rest \<Rightarrow>
             (False, inner \<lparr> in_stream := (in_stream inner) \<lparr> clock := clock (in_stream inner) + took \<rparr> \<rparr>, rest)
         | [] \<Rightarrow> (False, inner, []))"

definition client_sleep :: "duration \<Rightarrow> inner \<times> 'f \<Rightarrow> inner \<times> 'f" where
  "client_sleep d state =
     (let (inner, plan) = state; st = in_stream inner
      in (inner \<lparr> in_stream := st \<lparr> clock := clock st + d \<rparr> \<rparr>, plan))"

definition lift_send ::
  "(inner \<Rightarrow> (ModbusError + Response) \<times> inner) \<Rightarrow> inner \<times> 'f \<Rightarrow> (ModbusError + Response) \<times> inner \<times> 'f" where
  "lift_send send state = (let (inner, plan) = state; (r, inner) = send inner in (r, inner, plan))"

definition serial_call ::
  "(inner \<Rightarrow> (ModbusError + Response) \<times> inner) \<Rightarrow> client \<Rightarrow> inner \<times> attempt list
     \<Rightarrow> ((ModbusError + Response) \<times> inner \<times> attempt list) option" where
  "serial_call send_recv cl state =
     run_with_reconnect (cl_reconnect cl) (lift_send send_recv) (serial_rebuild cl) client_sleep Serial state"

text \<open>The time that the next attempts take.\<close>

definition opening_time :: "nat \<Rightarrow> attempt list \<Rightarrow> duration" where
  "opening_time n plan = sum_list (map fst (take n plan))"

lemma opening_time_simps [simp]:
  "opening_time 0 plan = 0" "opening_time n [] = 0" "opening_time (Suc n) (a # plan) = fst a + opening_time n plan"
  by (simp_all add: opening_time_def)

lemma opening_time_Suc: "opening_time (Suc n) plan = opening_time 1 plan + opening_time n (drop 1 plan)"
  by (cases plan) simp_all

text \<open>
  A serial client built from options never waits for the bus timing configured there: the timing
  sits in an inner layer, and the layer the client asks before it sends has none.
\<close>

lemma options_timing_unused:
  "prepare_send (in_stream (snd (serial_with_options transport opts))) = in_stream (snd (serial_with_options transport opts))
   \<and> bus (in_stream (snd (serial_with_options transport opts))) = opt_bus_timing opts"
  by (auto simp: serial_with_options_def serial_with_timeout_def inner_new_def sniff_new_def prepare_send_def Let_def
      split: option.split)

text \<open>
  A serial client built from options has no reconnection, whatever the options say: there is no
  factory among them.
\<close>

lemma options_reconnect_unused: "cl_reconnect (fst (serial_with_options transport opts)) = None"
  by (simp add: serial_with_options_def serial_with_timeout_def Let_def)

text \<open>
  A client with a tap whose factory came from \<open>with_reconnect_on\<close> has two tapping layers after a
  reconnect, and each frame is recorded twice.
\<close>

lemma reconnect_taps_twice:
  assumes "cl_tap cl" "cl_reconnect cl \<noteq> None" "layers raw = []"
    and "serial_rebuild cl (inner, (took, reconnect_on_factory cl (Some raw)) # plan) = (True, inner', plan')"
  shows "tap_count (in_stream inner') = 2"
    "tap_log (record_tap ev (in_stream inner')) = tap_log (in_stream inner') @ [ev, ev]"
proof -
  from assms show "tap_count (in_stream inner') = 2"
    by (auto simp: serial_rebuild_def reconnect_on_factory_def sniff_new_def tap_count_def)
  then show "tap_log (record_tap ev (in_stream inner')) = tap_log (in_stream inner') @ [ev, ev]"
    by (simp add: record_tap_def numeral_2_eq_2)
qed

section \<open>Servers\<close>

text \<open>
  The fields of a serial server beside its transport, and its builders.  A server is driven by the
  results of its reads, chunks of any length; the source's buffers bound them by 256 bytes.
\<close>

record server_config =
  srv_bus_timing :: "BusTiming option"
  srv_read_timeout :: "duration option"

definition server_config_new :: server_config where
  "server_config_new = \<lparr> srv_bus_timing = None, srv_read_timeout = None \<rparr>"

definition server_with_bus_timing :: "server_config \<Rightarrow> BusTiming \<Rightarrow> server_config" where
  "server_with_bus_timing sc timing = sc \<lparr> srv_bus_timing := Some timing \<rparr>"

definition server_with_read_timeout :: "server_config \<Rightarrow> duration \<Rightarrow> server_config" where
  "server_with_read_timeout sc timeout = sc \<lparr> srv_read_timeout := Some timeout \<rparr>"

definition server_read_timeout :: "nat \<Rightarrow> server_config \<Rightarrow> duration" where
  "server_read_timeout default_us sc =
     (case srv_read_timeout sc of
        Some d \<Rightarrow> d
      | None \<Rightarrow> (case map_option min_spacing (srv_bus_timing sc) of Some d \<Rightarrow> d | None \<Rightarrow> from_micros default_us))"

datatype serve_status = Serving | Closed | Blocked | Panicked

record 's server =
  sv_buf :: bytes
  sv_rsp :: bytes
  sv_out :: "bytes list"
  sv_writes :: "write_result list"
  sv_service :: 's
  sv_status :: serve_status

definition server_new :: "'s \<Rightarrow> 's server" where
  "server_new s =
     \<lparr> sv_buf = [], sv_rsp = [], sv_out = [], sv_writes = [], sv_service = s, sv_status = Serving \<rparr>"

text \<open>
  \<open>write_all(&frame_buf)\<close>: on an error the loop returns; a write that stalls blocks it for ever,
  as the servers set no time limit.
\<close>

definition server_write :: "bytes \<Rightarrow> 's server \<Rightarrow> 's server" where
  "server_write frame sv =
     (let plan = (case sv_writes sv of [] \<Rightarrow> Written | w # _ \<Rightarrow> w);
          sv = sv \<lparr> sv_writes := tl (sv_writes sv) \<rparr>
      in case plan of
           Written \<Rightarrow> sv \<lparr> sv_out := sv_out sv @ [frame] \<rparr>
         | WriteFail e \<Rightarrow> sv \<lparr> sv_status := Closed \<rparr>
         | WriteStall \<Rightarrow> sv \<lparr> sv_status := Blocked \<rparr>)"

definition answer_frame :: "'s service \<Rightarrow> (bytes \<Rightarrow> bytes) \<Rightarrow> u8 \<Rightarrow> bytes \<Rightarrow> 's server \<Rightarrow> 's server" where
  "answer_frame svc frame slave_id pdu sv =
     (case process_server_request svc pdu slave_id (sv_rsp sv) (sv_service sv) of
        Ok (reply, rsp_buf, s) \<Rightarrow>
          (let sv = sv \<lparr> sv_rsp := rsp_buf, sv_service := s \<rparr>
           in case reply of None \<Rightarrow> sv | Some rsp_data \<Rightarrow> server_write (frame rsp_data) sv)
      | _ \<Rightarrow> sv \<lparr> sv_status := Panicked \<rparr>)"

text \<open>The loop \<open>while let Some(..) = try_parse(&buf)\<close>; \<open>None\<close> were it never to end.\<close>

partial_function (option) serve_frames ::
  "(bytes \<Rightarrow> ('m \<times> u8 \<times> bytes \<times> nat) option) \<Rightarrow> ('m \<Rightarrow> bytes \<Rightarrow> bytes) \<Rightarrow> 's service
     \<Rightarrow> 's server \<Rightarrow> 's server option" where
  "serve_frames parse frame svc sv =
     (case parse (sv_buf sv) of
        None \<Rightarrow> Some sv
      | Some (m, slave_id, pdu, consumed) \<Rightarrow>
          (let sv' = answer_frame svc (frame m) slave_id pdu
                       (sv \<lparr> sv_buf := drop consumed (sv_buf sv) \<rparr>)
           in if sv_status sv' = Serving then serve_frames parse frame svc sv' else Some sv'))"

section \<open>Facts about one answer\<close>

lemma server_write_simps [simp]:
  "sv_buf (server_write f sv) = sv_buf sv" "sv_service (server_write f sv) = sv_service sv"
  "sv_rsp (server_write f sv) = sv_rsp sv"
  by (simp_all add: server_write_def Let_def split: write_result.split)

lemma answer_frame_buf [simp]: "sv_buf (answer_frame svc frame sl pdu sv) = sv_buf sv"
  by (auto simp: answer_frame_def Let_def split: outcome.splits option.splits)

lemma server_write_status: "sv_status sv = Serving \<Longrightarrow> sv_status (server_write f sv) \<noteq> Panicked"
  by (simp add: server_write_def Let_def split: write_result.split)

lemma process_not_Err: "process_server_request svc raw slave_id rsp_buf s \<noteq> Err e"
  using request_try_from_not_Panic [of raw]
  by (auto simp: process_server_request_def Let_def split: outcome.splits prod.splits sum.splits)

lemma answer_frame_no_panic:
  "sv_status sv = Serving \<Longrightarrow> sv_status (answer_frame svc frame sl pdu sv) \<noteq> Panicked"
  using process_server_request_not_Panic [of svc pdu sl "sv_rsp sv" "sv_service sv"]
    process_not_Err [of svc pdu sl "sv_rsp sv" "sv_service sv"]
  by (auto simp: answer_frame_def Let_def server_write_status split: outcome.splits option.splits)

lemma answer_frame_ignored:
  "sl = 0 \<or> pdu = [] \<or> (\<forall>req. request_try_from pdu \<noteq> Ok req) \<Longrightarrow> answer_frame svc frame sl pdu sv = sv"
  using process_ignored [of sl pdu svc "sv_rsp sv" "sv_service sv"] by (simp add: answer_frame_def)

lemma server_write_out: "\<exists>fs. sv_out (server_write f sv) = sv_out sv @ fs"
  by (simp add: server_write_def Let_def split: write_result.split)

lemma answer_frame_out: "\<exists>fs. sv_out (answer_frame svc frame sl pdu sv) = sv_out sv @ fs"
proof (cases "\<exists>rsp rsp_buf s. process_server_request svc pdu sl (sv_rsp sv) (sv_service sv) = Ok (Some rsp, rsp_buf, s)")
  case True
  then obtain rsp rsp_buf s where
    "process_server_request svc pdu sl (sv_rsp sv) (sv_service sv) = Ok (Some rsp, rsp_buf, s)" by blast
  with server_write_out [of "frame rsp" "sv \<lparr> sv_rsp := rsp_buf, sv_service := s \<rparr>"] show ?thesis
    by (simp add: answer_frame_def)
next
  case False
  then show ?thesis by (auto simp: answer_frame_def Let_def split: outcome.splits option.splits)
qed

context service
begin

lemma answer_frame_answers:
  assumes "inv (sv_service sv)" "sl \<noteq> 0" "request_try_from pdu = Ok req"
  shows "answer_frame call frame sl pdu sv =
     server_write (frame (sl # response_pdu (reply_of req (fst (call (Some sl) (sv_service sv) req)))))
       (sv \<lparr> sv_rsp := [], sv_service := snd (call (Some sl) (sv_service sv) req) \<rparr>)"
  using answers [OF assms, of "sv_rsp sv"] by (simp add: answer_frame_def)

lemma answer_frame_inv:
  assumes "inv (sv_service sv)"
  shows "inv (sv_service (answer_frame call frame sl pdu sv))"
  using assms process_inv [OF assms, of pdu sl "sv_rsp sv"]
  by (auto simp: answer_frame_def Let_def split: outcome.splits option.splits)

end

text \<open>A list of frames answered one after the other.\<close>

fun answer_all :: "'s service \<Rightarrow> (bytes \<Rightarrow> bytes) \<Rightarrow> (u8 \<times> bytes) list \<Rightarrow> 's server \<Rightarrow> 's server" where
  "answer_all svc frame [] sv = sv"
| "answer_all svc frame ((sl, pdu) # fs) sv = answer_all svc frame fs (answer_frame svc frame sl pdu sv)"

lemma answer_all_append: "answer_all svc frame (fs @ gs) sv = answer_all svc frame gs (answer_all svc frame fs sv)"
  by (induction fs arbitrary: sv) auto

lemma answer_frame_set_buf:
  "answer_frame svc frame sl pdu (sv \<lparr> sv_buf := b \<rparr>) = (answer_frame svc frame sl pdu sv) \<lparr> sv_buf := b \<rparr>"
  by (auto simp: answer_frame_def server_write_def Let_def
      split: outcome.splits option.splits list.splits write_result.splits)

lemma answer_all_set_buf:
  "answer_all svc frame fs (sv \<lparr> sv_buf := b \<rparr>) = (answer_all svc frame fs sv) \<lparr> sv_buf := b \<rparr>"
  by (induction fs arbitrary: sv) (auto simp: answer_frame_set_buf)

text \<open>A server that still serves and whose writes all succeed.\<close>

definition healthy :: "'s server \<Rightarrow> bool" where
  "healthy sv \<longleftrightarrow> sv_status sv = Serving \<and> sv_writes sv = []"

lemma healthy_answer_frame: "healthy sv \<Longrightarrow> healthy (answer_frame svc frame sl pdu sv)"
  using answer_frame_no_panic [of sv svc frame sl pdu]
  by (auto simp: healthy_def answer_frame_def server_write_def Let_def split: outcome.splits option.splits)

lemma healthy_answer_all: "healthy sv \<Longrightarrow> healthy (answer_all svc frame fs sv)"
  by (induction fs arbitrary: sv) (auto simp: healthy_answer_frame)

lemma healthy_set_buf [simp]: "healthy (sv \<lparr> sv_buf := b \<rparr>) = healthy sv"
  by (simp add: healthy_def)

section \<open>Framings\<close>

locale framing =
  fixes parse :: "bytes \<Rightarrow> ('m \<times> u8 \<times> bytes \<times> nat) option" and frame :: "'m \<Rightarrow> bytes \<Rightarrow> bytes"
  assumes consumes: "parse buf = Some (m, sl, pdu, n) \<Longrightarrow> 0 < n \<and> n \<le> length buf"
begin

lemma no_frame_in_empty: "parse [] = None"
  using consumes [of "[]"] by (cases "parse []") auto

lemma serve_frames_returns: "\<exists>sv'. serve_frames parse frame svc sv = Some sv'"
proof (induction "length (sv_buf sv)" arbitrary: sv rule: less_induct)
  case less
  show ?case
  proof (cases "parse (sv_buf sv)")
    case None
    then show ?thesis by (simp add: serve_frames.simps)
  next
    case (Some r)
    then obtain m sl pdu n where r: "parse (sv_buf sv) = Some (m, sl, pdu, n)" by (cases r) auto
    let ?sv = "answer_frame svc (frame m) sl pdu (sv \<lparr> sv_buf := drop n (sv_buf sv) \<rparr>)"
    from consumes [OF r] have "length (sv_buf ?sv) < length (sv_buf sv)" by auto
    then have "\<exists>sv'. serve_frames parse frame svc ?sv = Some sv'" by (rule less)
    with r show ?thesis by (subst serve_frames.simps) (auto simp: Let_def)
  qed
qed

lemma serve_frames_induct [consumes 1, case_names stop answer]:
  assumes run: "serve_frames parse frame svc sv = Some sv'"
    and "\<And>sv. parse (sv_buf sv) = None \<or> sv_status sv \<noteq> Serving \<Longrightarrow> P sv \<Longrightarrow> Q sv"
    and "\<And>sv m sl pdu n. parse (sv_buf sv) = Some (m, sl, pdu, n) \<Longrightarrow> P sv \<Longrightarrow>
           P (answer_frame svc (frame m) sl pdu (sv \<lparr> sv_buf := drop n (sv_buf sv) \<rparr>))"
    and "P sv"
  shows "Q sv'"
  using run \<open>P sv\<close>
proof (induction "length (sv_buf sv)" arbitrary: sv rule: less_induct)
  case less
  show ?case
  proof (cases "parse (sv_buf sv)")
    case None
    with less.prems assms(2) show ?thesis by (simp add: serve_frames.simps)
  next
    case (Some r)
    then obtain m sl pdu n where r: "parse (sv_buf sv) = Some (m, sl, pdu, n)" by (cases r) auto
    let ?sv = "answer_frame svc (frame m) sl pdu (sv \<lparr> sv_buf := drop n (sv_buf sv) \<rparr>)"
    have P: "P ?sv" using assms(3) [OF r less.prems(2)] .
    show ?thesis
    proof (cases "sv_status ?sv = Serving")
      case True
      with less.prems(1) r have "serve_frames parse frame svc ?sv = Some sv'"
        by (subst (asm) serve_frames.simps) (simp add: Let_def)
      moreover from consumes [OF r] have "length (sv_buf ?sv) < length (sv_buf sv)" by auto
      ultimately show ?thesis using less.hyps P by blast
    next
      case False
      with less.prems(1) r have "sv' = ?sv" by (subst (asm) serve_frames.simps) (simp add: Let_def)
      with False P assms(2) show ?thesis by simp
    qed
  qed
qed

lemma serve_frames_done:
  "serve_frames parse frame svc sv = Some sv' \<Longrightarrow> parse (sv_buf sv') = None \<or> sv_status sv' \<noteq> Serving"
  by (induction rule: serve_frames_induct [where P = "\<lambda>_. True"]) auto

lemma serve_frames_no_panic:
  assumes "serve_frames parse frame svc sv = Some sv'" and "sv_status sv = Serving"
  shows "sv_status sv' \<noteq> Panicked"
  using assms
proof (induction "length (sv_buf sv)" arbitrary: sv rule: less_induct)
  case less
  show ?case
  proof (cases "parse (sv_buf sv)")
    case None
    with less.prems show ?thesis by (simp add: serve_frames.simps)
  next
    case (Some r)
    then obtain m sl pdu n where r: "parse (sv_buf sv) = Some (m, sl, pdu, n)" by (cases r) auto
    let ?sv = "answer_frame svc (frame m) sl pdu (sv \<lparr> sv_buf := drop n (sv_buf sv) \<rparr>)"
    have ok: "sv_status ?sv \<noteq> Panicked" using less.prems(2) by (intro answer_frame_no_panic) simp
    from consumes [OF r] have dec: "length (sv_buf ?sv) < length (sv_buf sv)" by auto
    from less.prems(1) r
    have "sv_status ?sv = Serving \<and> serve_frames parse frame svc ?sv = Some sv' \<or> sv' = ?sv"
      by (subst (asm) serve_frames.simps) (simp add: Let_def split: if_splits)
    with less.hyps [OF dec] ok show ?thesis by blast
  qed
qed

lemma serve_frames_out:
  fixes sv :: "'s server"
  assumes "serve_frames parse frame svc sv = Some sv'"
  shows "\<exists>fs. sv_out sv' = sv_out sv @ fs"
  using assms
proof (induction rule: serve_frames_induct [where P = "\<lambda>s. \<exists>fs. sv_out s = sv_out sv @ fs"])
  case (answer s m sl pdu n)
  then obtain fs where "sv_out s = sv_out sv @ fs" by blast
  with answer_frame_out [of svc "frame m" sl pdu "s \<lparr> sv_buf := drop n (sv_buf s) \<rparr>"]
  show "\<exists>fs. sv_out (answer_frame svc (frame m) sl pdu (s \<lparr> sv_buf := drop n (sv_buf s) \<rparr>)) = sv_out sv @ fs" by auto
qed simp_all

text \<open>One frame that fills the buffer is answered once.\<close>

lemma serve_one_frame:
  assumes "parse (sv_buf sv) = Some (m, sl, pdu, length (sv_buf sv))"
  shows "serve_frames parse frame svc sv =
     Some (answer_frame svc (frame m) sl pdu (sv \<lparr> sv_buf := [] \<rparr>))"
  using assms no_frame_in_empty by (subst serve_frames.simps) (simp add: Let_def serve_frames.simps)

end

locale framed_service = framing parse frame + service call inv
  for parse :: "bytes \<Rightarrow> ('m \<times> u8 \<times> bytes \<times> nat) option" and frame :: "'m \<Rightarrow> bytes \<Rightarrow> bytes"
    and call :: "'s service" and inv :: "'s \<Rightarrow> bool"
begin

lemma serve_frames_inv:
  assumes "serve_frames parse frame call sv = Some sv'" and "inv (sv_service sv)"
  shows "inv (sv_service sv')"
  using assms(1)
proof (induction rule: serve_frames_induct [where P = "\<lambda>sv. inv (sv_service sv)"])
  case (answer sv m sl pdu n)
  then show ?case by (intro answer_frame_inv) simp
qed (use assms(2) in simp_all)

end

end
