(* ===== verification/Modbus_Rtu.thy ===== *)
theory Modbus_Rtu
  imports Modbus_Transport
begin

text \<open>
  \<open>src/transport/rtu.rs\<close>: the RTU client (send, length-based receive, checks on the frame
  received, reconnect) and the RTU server (frame detection and the serve loop over the events
  of its transport).  \<open>try_parse_server_rtu_iff\<close> characterises exactly the buffers that hold a
  frame; the round trip, the detection of corrupted frames and the behaviour of the server on
  an encoded request follow from it.
\<close>

section \<open>Client\<close>

fun expected_rtu_pdu_len :: "Request \<Rightarrow> nat option" where
  "expected_rtu_pdu_len (Request.ReadCoils _ count) = Some (2 + div_ceil (unat count) 8)"
| "expected_rtu_pdu_len (Request.ReadDiscreteInputs _ count) = Some (2 + div_ceil (unat count) 8)"
| "expected_rtu_pdu_len (Request.ReadHoldingRegisters _ count) = Some (2 + unat count * 2)"
| "expected_rtu_pdu_len (Request.ReadInputRegisters _ count) = Some (2 + unat count * 2)"
| "expected_rtu_pdu_len (Request.WriteSingleCoil _ _) = Some 5"
| "expected_rtu_pdu_len (Request.WriteSingleRegister _ _) = Some 5"
| "expected_rtu_pdu_len (Request.WriteMultipleCoils _ _) = Some 5"
| "expected_rtu_pdu_len (Request.WriteMultipleRegisters _ _) = Some 5"
| "expected_rtu_pdu_len (Request.ReadWriteMultipleRegisters _ count _ _) = Some (2 + unat count * 2)"
| "expected_rtu_pdu_len (Request.MaskWriteRegister _ _ _) = Some 7"
| "expected_rtu_pdu_len (Request.Diagnostic _ _) = Some 5"
| "expected_rtu_pdu_len Request.Disconnect = None"

text \<open>\<open>Response::try_from(pdu)\<close> with the error mapped, and the slave-id message.\<close>

definition decode_response_pdu :: "bytes \<Rightarrow> ModbusError + Response" where
  "decode_response_pdu pdu =
     (case response_try_from pdu of
        Ok rsp \<Rightarrow> Inr rsp
      | Err e \<Rightarrow> Inl (Protocol (PDU_DECODE_ERROR @ '' '' @ err_msg e))
      | Panic \<Rightarrow> Inl (Other ''panic''))"

definition slave_mismatch :: "u8 \<Rightarrow> u8 \<Rightarrow> ModbusError" where
  "slave_mismatch slave_id rsp_slave =
     Protocol (SLAVE_ID_MISMATCH @ '' '' @ show_nat (unat slave_id) @ '', got '' @ show_nat (unat rsp_slave))"

text \<open>The checks on the bytes received.\<close>

definition rtu_check_response :: "u8 \<Rightarrow> bytes \<Rightarrow> ModbusError + Response" where
  "rtu_check_response slave_id buf =
     (if length buf < MIN_RTU_FRAME then
        (if length buf = 0 then Inl (Timeout RTU_RECV_TIMEOUT)
         else Inl (Timeout (''RTU short frame ('' @ show_nat (length buf) @ '' bytes, need at least ''
                             @ show_nat MIN_RTU_FRAME @ '')'')))
      else
        let crc_received = be16 (buf ! (length buf - 1)) (buf ! (length buf - 2));
            crc_calc = calculate_crc (take (length buf - 2) buf)
        in if crc_received \<noteq> crc_calc then Inl (Protocol ''RTU CRC mismatch'')
           else let frame = take (length buf - 2) buf
           in if length frame < 2 then Inl (Protocol ''RTU frame too short'')
              else let rsp_slave = frame ! 0; pdu = drop 1 frame
              in if rsp_slave \<noteq> slave_id then Inl (slave_mismatch slave_id rsp_slave)
                 else decode_response_pdu pdu)"

definition rtu_send_recv :: "duration \<Rightarrow> u8 \<Rightarrow> Request \<Rightarrow> inner \<Rightarrow> (ModbusError + Response) \<times> inner" where
  "rtu_send_recv timeout slave_id request inner =
     (case drain_stale_data (in_stream inner) of
        (Inl e, st) \<Rightarrow> (Inl e, inner \<lparr> in_stream := st \<rparr>)
      | (Inr _, st) \<Rightarrow>
          (case send_frame (prepare_send st) (in_write_buf inner) slave_id timeout request encode_rtu_frame of
             (Inl e, wb, st) \<Rightarrow> (Inl e, inner \<lparr> in_stream := st, in_write_buf := wb \<rparr>)
           | (Inr _, wb, st) \<Rightarrow>
               (let expected_frame = map_option (\<lambda>p. p + 1 + CRC_SIZE) (expected_rtu_pdu_len request);
                    deadline = clock st + timeout;
                    target = (case expected_frame of Some n \<Rightarrow> n | None \<Rightarrow> MIN_RTU_FRAME)
                in case read_at_least st [] deadline target of
                     (Inl e, rb, st) \<Rightarrow> (Inl e, \<lparr> in_stream = st, in_write_buf = wb, in_read_buf = rb \<rparr>)
                   | (Inr _, rb, st) \<Rightarrow>
                       (rtu_check_response slave_id rb,
                        \<lparr> in_stream = st, in_write_buf = wb, in_read_buf = rb \<rparr>))))"

definition rtu_with_timeout :: "stream \<Rightarrow> duration \<Rightarrow> client \<times> inner" where
  "rtu_with_timeout transport timeout = serial_with_timeout transport timeout"

definition rtu_new :: "stream \<Rightarrow> client \<times> inner" where
  "rtu_new transport = rtu_with_timeout transport (from_secs 5)"

definition rtu_with_reconnect :: "client \<Rightarrow> u32 \<Rightarrow> duration \<Rightarrow> client" where
  "rtu_with_reconnect cl retries backoff = serial_with_reconnect cl retries backoff"

definition rtu_reconnect_on_factory :: "client \<Rightarrow> stream option \<Rightarrow> stream option" where
  "rtu_reconnect_on_factory cl raw = reconnect_on_factory cl raw"

definition rtu_with_options :: "stream \<Rightarrow> 'tap ClientOptions \<Rightarrow> client \<times> inner" where
  "rtu_with_options transport opts = serial_with_options transport opts"

definition rtu_call ::
  "client \<Rightarrow> u8 \<Rightarrow> Request \<Rightarrow> inner \<times> attempt list
     \<Rightarrow> ((ModbusError + Response) \<times> inner \<times> attempt list) option" where
  "rtu_call cl slave request state = serial_call (rtu_send_recv (cl_timeout cl) slave request) cl state"

section \<open>Server\<close>

definition DEFAULT_RTU_T35_US :: nat where "DEFAULT_RTU_T35_US = 5000"

definition rtu_server_new :: server_config where
  "rtu_server_new = server_config_new"

definition rtu_read_timeout :: "server_config \<Rightarrow> duration" where
  "rtu_read_timeout sc = server_read_timeout DEFAULT_RTU_T35_US sc"

definition try_parse_server_rtu :: "bytes \<Rightarrow> (u8 \<times> bytes \<times> nat) option" where
  "try_parse_server_rtu buf =
     (if length buf < MIN_RTU_FRAME then None
      else
        let crc_received = be16 (buf ! (length buf - 1)) (buf ! (length buf - 2));
            crc_calc = calculate_crc (take (length buf - 2) buf)
        in if crc_received \<noteq> crc_calc then None
           else let frame = take (length buf - 2) buf
           in if length frame < 2 then None
              else let fc = frame ! 1
              in if \<not> is_known_function_code fc then None
                 else Some (frame ! 0, drop 1 frame, length buf))"

definition rtu_parse :: "bytes \<Rightarrow> (unit \<times> u8 \<times> bytes \<times> nat) option" where
  "rtu_parse buf = map_option (Pair ()) (try_parse_server_rtu buf)"

definition rtu_frame :: "unit \<Rightarrow> bytes \<Rightarrow> bytes" where
  "rtu_frame _ rsp_data = encode_rtu_frame rsp_data []"

text \<open>
  One turn of the serve loop on what its read returns.  With an empty buffer the read is not
  timed, so it does not elapse.
\<close>

definition rtu_serve_event :: "'s service \<Rightarrow> 's server \<Rightarrow> poll_result \<Rightarrow> 's server option" where
  "rtu_serve_event svc sv ev =
     (case ev of
        Got bs \<Rightarrow>
          (if bs = [] then Some (sv \<lparr> sv_status := Closed \<rparr>)
           else serve_frames rtu_parse rtu_frame svc (sv \<lparr> sv_buf := sv_buf sv @ bs \<rparr>))
      | Failed e \<Rightarrow> Some (sv \<lparr> sv_status := Closed \<rparr>)
      | Elapsed \<Rightarrow>
          (if sv_buf sv = [] then Some sv
           else if try_parse_server_rtu (sv_buf sv) = None then Some (sv \<lparr> sv_buf := [] \<rparr>)
           else Some sv))"

fun rtu_serve :: "'s service \<Rightarrow> poll_result list \<Rightarrow> 's server \<Rightarrow> 's server option" where
  "rtu_serve svc [] sv = Some sv"
| "rtu_serve svc (ev # evs) sv =
     (if sv_status sv \<noteq> Serving then Some sv
      else case rtu_serve_event svc sv ev of None \<Rightarrow> None | Some sv \<Rightarrow> rtu_serve svc evs sv)"

section \<open>What is a frame\<close>

lemma response_try_from_not_Panic: "response_try_from bs \<noteq> Panic"
  by (cases bs) (auto simp: outcome_simps decode_response_not_Panic split: list.splits)

lemma crc_test: "2 \<le> length buf \<Longrightarrow>
    be16 (buf ! (length buf - 1)) (buf ! (length buf - 2)) = calculate_crc (take (length buf - 2) buf)
      \<longleftrightarrow> crc_valid buf"
  by (auto simp: crc_valid_def)

lemma crc_valid_frame: "crc_valid buf \<longleftrightarrow> (\<exists>data. buf = encode_rtu_frame data [])"
proof
  assume valid: "crc_valid buf"
  then have "2 \<le> length buf" by (simp add: crc_valid_def)
  then have "length (drop (length buf - 2) buf) = 2" by simp
  then obtain l h where lh: "drop (length buf - 2) buf = [l, h]" by (auto simp only: length_2_iff)
  let ?d = "take (length buf - 2) buf"
  from lh have buf: "buf = ?d @ [l, h]" by (metis append_take_drop_id)
  with valid have "calculate_crc ?d = be16 h l" by (metis crc_valid_iff)
  with buf have "buf = encode_rtu_frame ?d []" by (simp add: encode_rtu_frame_eq)
  then show "\<exists>data. buf = encode_rtu_frame data []" ..
qed (auto simp: encode_rtu_frame_eq crc_valid_iff)

lemma try_parse_server_rtu_aux:
  "try_parse_server_rtu buf = Some (sl, pdu, n) \<longleftrightarrow>
     n = length buf \<and> buf = encode_rtu_frame (sl # pdu) [] \<and> 2 \<le> length pdu \<and> is_known_function_code (hd pdu)"
  (is "?L \<longleftrightarrow> ?R")
proof
  assume L: ?L
  then have len: "5 \<le> length buf" and valid: "crc_valid buf"
    using crc_test [of buf]
    by (auto simp: try_parse_server_rtu_def frame_consts Let_def split: if_splits)
  from valid obtain data where buf: "buf = encode_rtu_frame data []" unfolding crc_valid_frame ..
  have take: "take (length buf - 2) buf = data" by (simp add: buf encode_rtu_frame_eq)
  with L have "n = length buf" "data ! 0 = sl" "drop 1 data = pdu" "is_known_function_code (data ! 1)"
    by (auto simp: try_parse_server_rtu_def Let_def split: if_splits)
  moreover have "3 \<le> length data" using len by (simp add: buf encode_rtu_frame_eq)
  moreover from this have "data = data ! 0 # drop 1 data" by (cases data) auto
  moreover from calculation have "hd pdu = data ! 1" by (cases pdu) (auto dest: arg_cong [where f = "\<lambda>d. d ! 1"])
  ultimately show ?R using buf by auto
next
  assume R: ?R
  then have buf: "buf = (sl # pdu) @ [lo8 (calculate_crc (sl # pdu)), hi8 (calculate_crc (sl # pdu))]"
    by (simp add: encode_rtu_frame_eq)
  then have "take (length buf - 2) buf = sl # pdu" by simp
  moreover have "be16 (buf ! (length buf - 1)) (buf ! (length buf - 2)) = calculate_crc (sl # pdu)"
    by (simp add: buf nth_append)
  moreover have "5 \<le> length buf" using R by (simp add: encode_rtu_frame_eq)
  moreover have "pdu ! 0 = hd pdu" using R by (cases pdu) auto
  ultimately show ?L
    using R by (auto simp: try_parse_server_rtu_def frame_consts Let_def)
qed

lemma rtu_parse_iff:
  "rtu_parse buf = Some ((), sl, pdu, n) \<longleftrightarrow>
     n = length buf \<and> buf = encode_rtu_frame (sl # pdu) [] \<and> 2 \<le> length pdu \<and> is_known_function_code (hd pdu)"
  by (auto simp: rtu_parse_def try_parse_server_rtu_aux)

interpretation rtu: framing rtu_parse rtu_frame
proof
  fix buf m sl pdu n
  assume "rtu_parse buf = Some (m :: unit, sl, pdu, n)"
  then show "0 < n \<and> n \<le> length buf" by (auto simp: rtu_parse_iff encode_rtu_frame_eq)
qed

interpretation rtu_store: framed_service rtu_parse rtu_frame store_service store_bounded ..

lemma rtu_check_response_valid:
  assumes "3 \<le> length (sl # pdu)"
  shows "rtu_check_response slave_id (encode_rtu_frame (sl # pdu) []) =
     (if sl \<noteq> slave_id then Inl (slave_mismatch slave_id sl) else decode_response_pdu pdu)"
proof -
  let ?c = "calculate_crc (sl # pdu)"
  have buf: "encode_rtu_frame (sl # pdu) [] = (sl # pdu) @ [lo8 ?c, hi8 ?c]"
    by (simp add: encode_rtu_frame_eq)
  have "take (length ((sl # pdu) @ [lo8 ?c, hi8 ?c]) - 2) ((sl # pdu) @ [lo8 ?c, hi8 ?c]) = sl # pdu"
    by simp
  moreover have "be16 (((sl # pdu) @ [lo8 ?c, hi8 ?c]) ! (length ((sl # pdu) @ [lo8 ?c, hi8 ?c]) - 1))
      (((sl # pdu) @ [lo8 ?c, hi8 ?c]) ! (length ((sl # pdu) @ [lo8 ?c, hi8 ?c]) - 2)) = ?c"
    by (simp add: nth_append)
  ultimately show ?thesis
    unfolding buf using assms by (auto simp: rtu_check_response_def frame_consts Let_def simp del: append.append_Cons)
qed

lemma rtu_check_response_Inr_aux:
  "rtu_check_response slave_id buf = Inr rsp \<longleftrightarrow>
     5 \<le> length buf \<and> (\<exists>pdu. buf = encode_rtu_frame (slave_id # pdu) [] \<and> response_try_from pdu = Ok rsp)"
  (is "?L \<longleftrightarrow> ?R")
proof
  assume L: ?L
  then have len: "5 \<le> length buf" and valid: "crc_valid buf"
    using crc_test [of buf] by (auto simp: rtu_check_response_def frame_consts Let_def split: if_splits)
  from valid obtain data where buf: "buf = encode_rtu_frame data []" unfolding crc_valid_frame ..
  with len obtain sl pdu where data: "data = sl # pdu" "2 \<le> length pdu"
    by (cases data) (auto simp: encode_rtu_frame_eq)
  with L buf have "sl = slave_id" "decode_response_pdu pdu = Inr rsp"
    by (auto simp: rtu_check_response_valid split: if_splits)
  then have "response_try_from pdu = Ok rsp" by (auto simp: decode_response_pdu_def split: outcome.splits)
  with len buf data \<open>sl = slave_id\<close> show ?R by blast
next
  assume ?R
  then obtain pdu where pdu: "5 \<le> length buf" "buf = encode_rtu_frame (slave_id # pdu) []" "response_try_from pdu = Ok rsp"
    by blast
  then have "2 \<le> length pdu" by (simp add: encode_rtu_frame_eq)
  with pdu show ?L by (simp add: rtu_check_response_valid decode_response_pdu_def)
qed

section \<open>One request on the RTU server\<close>

lemma known_request_fc: "request_try_from pdu = Ok req \<Longrightarrow> is_known_function_code (hd pdu) \<and> 2 \<le> length pdu"
proof -
  assume "request_try_from pdu = Ok req"
  then obtain p rest where legal: "request_legal req" and wire: "request_wire req p" and pdu: "pdu = p @ rest"
    by (auto simp: request_try_from_Ok_iff)
  from legal wire have "p \<noteq> []" "hd p = request_fc req" "2 \<le> length p"
    by (cases req; auto simp: request_wire_def)+
  moreover from legal have "is_known_function_code (request_fc req)"
    by (cases req) (simp_all add: is_known_function_code_def)
  ultimately show ?thesis using pdu by auto
qed

lemma request_pdu_decodes: "request_legal req \<Longrightarrow> request_try_from (request_pdu req @ junk) = Ok req"
  unfolding request_try_from_Ok_iff using request_wire_pdu by blast

context service
begin

lemma rtu_serve_one:
  fixes sv :: "'s server"
  assumes "sv_status sv = Serving" "sv_buf sv = []" "sv_writes sv = []" "inv (sv_service sv)"
    and "slave \<noteq> 0" and "request_try_from pdu = Ok req"
  defines "res \<equiv> call (Some slave) (sv_service sv) req"
  shows "rtu_serve call [Got (encode_rtu_frame (slave # pdu) [])] sv =
     Some (sv \<lparr> sv_rsp := [], sv_service := snd res,
                sv_out := sv_out sv @ [encode_rtu_frame (slave # response_pdu (reply_of req (fst res))) []] \<rparr>)"
proof -
  let ?buf = "encode_rtu_frame (slave # pdu) []"
  let ?sv = "sv \<lparr> sv_buf := ?buf \<rparr>"
  have ne: "?buf \<noteq> []" by (simp add: encode_rtu_frame_eq)
  have "rtu_parse (sv_buf ?sv) = Some ((), slave, pdu, length (sv_buf ?sv))"
    using known_request_fc [OF assms(6)] by (simp add: rtu_parse_iff)
  note one = rtu.serve_one_frame [OF this, of call]
  have "answer_frame call (rtu_frame ()) slave pdu (?sv \<lparr> sv_buf := [] \<rparr>) =
      server_write (rtu_frame () (slave # response_pdu (reply_of req (fst (call (Some slave) (sv_service sv) req)))))
       (?sv \<lparr> sv_buf := [], sv_rsp := [], sv_service := snd (call (Some slave) (sv_service sv) req) \<rparr>)"
    using answer_frame_answers [of "?sv \<lparr> sv_buf := [] \<rparr>" slave pdu req "rtu_frame ()"] assms by simp
  with one ne assms(1-3) show ?thesis
    by (simp add: rtu_serve_event_def server_write_def rtu_frame_def res_def)
qed

end

lemma rtu_serve_request_aux:
  fixes sv :: "SlaveStore server"
  assumes "sv_status sv = Serving" "sv_buf sv = []" "sv_writes sv = []" "store_bounded (sv_service sv)"
    and "slave \<noteq> 0" and "request_try_from pdu = Ok req"
  defines "res \<equiv> store_call (sv_service sv) req"
  shows "rtu_serve store_service [Got (encode_rtu_frame (slave # pdu) [])] sv =
     Some (sv \<lparr> sv_rsp := [], sv_service := snd res,
                sv_out := sv_out sv @ [encode_rtu_frame (slave # response_pdu (reply_of req (fst res))) []] \<rparr>)"
  using store.rtu_serve_one [OF assms(1-6)] by (simp add: store_service_def res_def)

lemma rtu_serve_event_returns: "\<exists>sv'. rtu_serve_event svc sv ev = Some sv'"
  using rtu.serve_frames_returns by (cases ev) (auto simp: rtu_serve_event_def)

lemma rtu_serve_bounded_aux:
  "rtu_serve store_service evs sv = Some sv' \<Longrightarrow> store_bounded (sv_service sv) \<Longrightarrow> store_bounded (sv_service sv')"
proof (induction evs arbitrary: sv)
  case (Cons ev evs)
  obtain sv1 where sv1: "rtu_serve_event store_service sv ev = Some sv1" using rtu_serve_event_returns by blast
  have "store_bounded (sv_service sv1)"
  proof (cases ev)
    case (Got bs)
    with sv1 Cons.prems(2) show ?thesis
      using rtu_store.serve_frames_inv by (fastforce simp: rtu_serve_event_def split: if_splits)
  qed (use sv1 Cons.prems(2) in \<open>auto simp: rtu_serve_event_def split: if_splits\<close>)
  with Cons sv1 show ?case by (auto split: if_splits)
qed simp

section \<open>Response lengths\<close>

lemma expected_length_aux:
  assumes "request_legal req" and "fst (store_call s req) = Inr rsp"
  shows "expected_rtu_pdu_len req = Some (length (response_pdu rsp))"
  using assms
  by (cases req) (auto simp: store_ops read_bits_eq read_registers_eq Let_def split: if_splits)

text \<open>
  The client reads as many bytes as the normal response of its request has.  A service whose
  responses are never longer can be asked over RTU in pieces.
\<close>

locale sized_service = service call inv for call :: "'s service" and inv :: "'s \<Rightarrow> bool" +
  assumes call_length: "inv s \<Longrightarrow> request_legal req \<Longrightarrow> fst (call ctx s req) = Inr rsp \<Longrightarrow>
    length (response_pdu rsp) \<le> the (expected_rtu_pdu_len req)"
begin

lemma reply_length:
  assumes "inv s" "request_legal req"
  obtains n where "expected_rtu_pdu_len req = Some n" "length (response_pdu (reply_of req (fst (call ctx s req)))) \<le> n"
proof -
  obtain n where n: "expected_rtu_pdu_len req = Some n" "2 \<le> n" using assms(2) by (cases req) auto
  have "length (response_pdu (reply_of req (fst (call ctx s req)))) \<le> n"
    using n call_length [OF assms, of ctx] by (auto simp: reply_of_def split: sum.split)
  with n(1) show thesis by (rule that)
qed

end

interpretation sized_store: sized_service store_service store_bounded
  by unfold_locales (simp add: store_service_def expected_length_aux)

end
