(* ===== verification/Modbus_Ascii.thy ===== *)
theory Modbus_Ascii
  imports Modbus_Rtu
begin

text \<open>
  \<open>src/transport/ascii.rs\<close>: hex decoding, the frame parser that skips garbage lines, the ASCII
  client (send, delimiter-based receive, reconnect) and the ASCII server.  The lemmas give the
  exact content of an accepted line, the round trip behind any garbage, and the server on
  pipelined frames and on frames that arrive in pieces.
\<close>

section \<open>Parsing\<close>

definition nibble :: "u8 \<Rightarrow> io_error + u8" where
  "nibble c =
     (if 0x30 \<le> c \<and> c \<le> 0x39 then Inr (c - 0x30)
      else if 0x41 \<le> c \<and> c \<le> 0x46 then Inr (c - 0x41 + 10)
      else if 0x61 \<le> c \<and> c \<le> 0x66 then Inr (c - 0x61 + 10)
      else Inl (IoError InvalidData ''invalid hex character''))"

definition hex_decode_byte :: "u8 \<Rightarrow> u8 \<Rightarrow> io_error + u8" where
  "hex_decode_byte hi lo =
     (case nibble hi of Inl e \<Rightarrow> Inl e
      | Inr h \<Rightarrow> (case nibble lo of Inl e \<Rightarrow> Inl e | Inr l \<Rightarrow> Inr (push_bit 4 h OR l)))"

text \<open>\<open>windows(2).position(|w| w == [CR, LF])\<close>.\<close>

fun find_crlf :: "bytes \<Rightarrow> nat option" where
  "find_crlf (a # b # rest) =
     (if a = CR \<and> b = LF then Some 0 else map_option Suc (find_crlf (b # rest)))"
| "find_crlf _ = None"

text \<open>The loop over \<open>hex_chars.chunks(2)\<close>, for an even number of characters.\<close>

fun decode_hex_pairs :: "bytes \<Rightarrow> bytes option" where
  "decode_hex_pairs [] = Some []"
| "decode_hex_pairs [c] = None"
| "decode_hex_pairs (hi # lo # rest) =
     (case hex_decode_byte hi lo of Inl e \<Rightarrow> None | Inr b \<Rightarrow> map_option (Cons b) (decode_hex_pairs rest))"

text \<open>The content of one line: slave id and PDU, or \<open>None\<close> for garbage.\<close>

definition decode_ascii_line :: "bytes \<Rightarrow> (u8 \<times> bytes) option" where
  "decode_ascii_line content =
     (if content \<noteq> [] \<and> content ! 0 = ASCII_START then
        let hex_chars = drop 1 content
        in if length hex_chars mod 2 = 0 then
             (case decode_hex_pairs hex_chars of
                None \<Rightarrow> None
              | Some bytes \<Rightarrow>
                  (if length bytes \<ge> 2 then
                     let data = take (length bytes - 1) bytes; lrc_byte = drop (length bytes - 1) bytes
                     in if lrc_byte ! 0 = calculate_lrc data \<and> length data \<ge> 2
                        then Some (data ! 0, drop 1 data) else None
                   else None))
           else None
      else None)"

lemma find_crlf_Some_iff:
  "find_crlf bs = Some p \<longleftrightarrow>
     Suc p < length bs \<and> bs ! p = CR \<and> bs ! Suc p = LF
       \<and> (\<forall>i < p. \<not> (bs ! i = CR \<and> bs ! Suc i = LF))"
proof (induction bs arbitrary: p rule: find_crlf.induct)
  case (1 a b rest)
  show ?case
  proof (cases p)
    case 0
    then show ?thesis by auto
  next
    case (Suc q)
    then show ?thesis using 1 by (auto simp: All_less_Suc2)
  qed
qed auto

function try_parse_ascii_from :: "bytes \<Rightarrow> nat \<Rightarrow> (u8 \<times> bytes \<times> nat) option" where
  "try_parse_ascii_from buf offset =
     (if offset > length buf then None
      else let remaining = drop offset buf
      in case find_crlf remaining of
           None \<Rightarrow> None
         | Some crlf_pos \<Rightarrow>
             (let line_end = offset + crlf_pos + 2;
                  content = take crlf_pos remaining
              in case decode_ascii_line content of
                   Some (slave, pdu) \<Rightarrow> Some (slave, pdu, line_end)
                 | None \<Rightarrow> try_parse_ascii_from buf line_end))"
  by pat_completeness auto
termination
  by (relation "measure (\<lambda>(buf, offset). length buf + 1 - offset)") auto

declare try_parse_ascii_from.simps [simp del]

definition try_parse_ascii :: "bytes \<Rightarrow> (u8 \<times> bytes \<times> nat) option" where
  "try_parse_ascii buf = try_parse_ascii_from buf 0"

section \<open>Client\<close>

definition ASCII_RECV_TIMEOUT_TEXT :: string where
  "ASCII_RECV_TIMEOUT_TEXT = ''ASCII_RECV_TIMEOUT''"

definition try_parse_ascii_response :: "bytes \<Rightarrow> u8 \<Rightarrow> (ModbusError + Response) option" where
  "try_parse_ascii_response buf slave_id =
     (case try_parse_ascii buf of
        None \<Rightarrow> None
      | Some (rsp_slave, pdu, _) \<Rightarrow>
          (if rsp_slave \<noteq> slave_id then Some (Inl (slave_mismatch slave_id rsp_slave))
           else Some (decode_response_pdu pdu)))"

text \<open>What the receive loop answers when its time is up.\<close>

definition ascii_timed_out :: "bytes \<Rightarrow> u8 \<Rightarrow> ModbusError + Response" where
  "ascii_timed_out read_buf slave_id =
     (case try_parse_ascii_response read_buf slave_id of
        Some result \<Rightarrow> result | None \<Rightarrow> Inl (Timeout ASCII_RECV_TIMEOUT_TEXT))"

function ascii_recv :: "stream \<Rightarrow> bytes \<Rightarrow> nat \<Rightarrow> u8 \<Rightarrow> (ModbusError + Response) \<times> bytes \<times> stream" where
  "ascii_recv st read_buf deadline slave_id =
     (let remaining = deadline - clock st
      in if remaining = 0 then (ascii_timed_out read_buf slave_id, read_buf, st)
         else case read_timed remaining st of
                (Got bs, st) \<Rightarrow>
                  (if bs = [] then (Inl (Connection ''connection closed''), read_buf, st)
                   else case try_parse_ascii_response (read_buf @ bs) slave_id of
                          Some result \<Rightarrow> (result, read_buf @ bs, st)
                        | None \<Rightarrow> ascii_recv st (read_buf @ bs) deadline slave_id)
              | (Failed e, st) \<Rightarrow> (Inl (from_io_error e), read_buf, st)
              | (Elapsed, st) \<Rightarrow> (ascii_timed_out read_buf slave_id, read_buf, st))"
  by pat_completeness auto
termination
  by (relation "measure (\<lambda>(st, read_buf, deadline, slave_id). length (arrivals st))")
    (auto dest!: read_timed_progress [OF sym])

declare ascii_recv.simps [simp del]

definition ascii_send_recv :: "duration \<Rightarrow> u8 \<Rightarrow> Request \<Rightarrow> inner \<Rightarrow> (ModbusError + Response) \<times> inner" where
  "ascii_send_recv timeout slave_id request inner =
     (if request = Request.Disconnect then (Inl (Other ''Disconnected''), inner)
      else case drain_stale_data (in_stream inner) of
        (Inl e, st) \<Rightarrow> (Inl e, inner \<lparr> in_stream := st \<rparr>)
      | (Inr _, st) \<Rightarrow>
          (case send_frame (prepare_send st) (in_write_buf inner) slave_id timeout request encode_ascii_frame_into of
             (Inl e, wb, st) \<Rightarrow> (Inl e, inner \<lparr> in_stream := st, in_write_buf := wb \<rparr>)
           | (Inr _, wb, st) \<Rightarrow>
               (let deadline = clock st + timeout
                in case ascii_recv st [] deadline slave_id of
                     (r, rb, st) \<Rightarrow> (r, \<lparr> in_stream = st, in_write_buf = wb, in_read_buf = rb \<rparr>))))"

definition ascii_with_timeout :: "stream \<Rightarrow> duration \<Rightarrow> client \<times> inner" where
  "ascii_with_timeout transport timeout = serial_with_timeout transport timeout"

definition ascii_new :: "stream \<Rightarrow> client \<times> inner" where
  "ascii_new transport = ascii_with_timeout transport (from_secs 5)"

definition ascii_with_reconnect :: "client \<Rightarrow> u32 \<Rightarrow> duration \<Rightarrow> client" where
  "ascii_with_reconnect cl retries backoff = serial_with_reconnect cl retries backoff"

definition ascii_reconnect_on_factory :: "client \<Rightarrow> stream option \<Rightarrow> stream option" where
  "ascii_reconnect_on_factory cl raw = reconnect_on_factory cl raw"

definition ascii_with_options :: "stream \<Rightarrow> 'tap ClientOptions \<Rightarrow> client \<times> inner" where
  "ascii_with_options transport opts = serial_with_options transport opts"

definition ascii_call ::
  "client \<Rightarrow> u8 \<Rightarrow> Request \<Rightarrow> inner \<times> attempt list
     \<Rightarrow> ((ModbusError + Response) \<times> inner \<times> attempt list) option" where
  "ascii_call cl slave request state = serial_call (ascii_send_recv (cl_timeout cl) slave request) cl state"

section \<open>Server\<close>

definition DEFAULT_ASCII_SERVER_TIMEOUT_US :: nat where "DEFAULT_ASCII_SERVER_TIMEOUT_US = 100000"

definition ascii_server_new :: server_config where
  "ascii_server_new = server_config_new"

definition ascii_read_timeout :: "server_config \<Rightarrow> duration" where
  "ascii_read_timeout sc = server_read_timeout DEFAULT_ASCII_SERVER_TIMEOUT_US sc"

definition ascii_parse :: "bytes \<Rightarrow> (unit \<times> u8 \<times> bytes \<times> nat) option" where
  "ascii_parse buf = map_option (Pair ()) (try_parse_ascii buf)"

definition ascii_frame :: "unit \<Rightarrow> bytes \<Rightarrow> bytes" where
  "ascii_frame _ rsp_data = encode_ascii_frame_into rsp_data []"

definition ascii_serve_event :: "'s service \<Rightarrow> 's server \<Rightarrow> poll_result \<Rightarrow> 's server option" where
  "ascii_serve_event svc sv ev =
     (case ev of
        Got bs \<Rightarrow>
          (if bs = [] then Some (sv \<lparr> sv_status := Closed \<rparr>)
           else serve_frames ascii_parse ascii_frame svc (sv \<lparr> sv_buf := sv_buf sv @ bs \<rparr>))
      | Failed e \<Rightarrow> Some (sv \<lparr> sv_status := Closed \<rparr>)
      | Elapsed \<Rightarrow> (if sv_buf sv = [] then Some sv else Some (sv \<lparr> sv_buf := [] \<rparr>)))"

fun ascii_serve :: "'s service \<Rightarrow> poll_result list \<Rightarrow> 's server \<Rightarrow> 's server option" where
  "ascii_serve svc [] sv = Some sv"
| "ascii_serve svc (ev # evs) sv =
     (if sv_status sv \<noteq> Serving then Some sv
      else case ascii_serve_event svc sv ev of None \<Rightarrow> None | Some sv \<Rightarrow> ascii_serve svc evs sv)"

section \<open>Hex\<close>

lemma nibble_HEX: "n < 16 \<Longrightarrow> nibble (HEX ! n) = Inr (of_nat n)"
proof -
  assume "n < 16"
  then show ?thesis
    by (elim below_16 [THEN insertE] insertE emptyE) (simp_all add: nibble_def HEX_def)
qed

lemma unat_high_nibble: "unat (drop_bit 4 (b :: u8)) < 16"
  using unat_u8_less [of b] by (simp add: drop_bit_eq_div unat_div del: unat_u8_less)

lemma unat_low_nibble: "unat ((b :: u8) AND 0x0F) < 16"
proof -
  have "b AND 0x0F = b mod 16"
    using take_bit_eq_mask [of 4 b] by (simp add: take_bit_eq_mod mask_eq_exp_minus_1)
  then show ?thesis by (simp add: unat_mod)
qed

lemma hex_decode_encode: "hex_decode_byte (HEX ! unat (drop_bit 4 b)) (HEX ! unat (b AND 0x0F)) = Inr b"
proof -
  have "push_bit 4 (drop_bit 4 b) OR (b AND 0x0F) = b"
  proof (rule bit_word_eqI)
    fix n assume "n < LENGTH(8)"
    moreover have "b AND 0x0F = take_bit 4 b"
      using take_bit_eq_mask [of 4 b] by (simp add: mask_eq_exp_minus_1)
    ultimately show "bit (push_bit 4 (drop_bit 4 b) OR (b AND 0x0F)) n \<longleftrightarrow> bit b n"
      by (auto simp: bit_simps)
  qed
  then show ?thesis
    by (simp add: hex_decode_byte_def nibble_HEX unat_high_nibble unat_low_nibble)
qed

lemma decode_hex_bytes [simp]: "decode_hex_pairs (hex_bytes data) = Some data"
  by (induction data) (simp_all add: hex_encode_byte_def hex_decode_encode)

lemma HEX_not_CR: "n < 16 \<Longrightarrow> HEX ! n \<noteq> CR \<and> HEX ! n \<noteq> LF"
proof -
  assume "n < 16"
  then have "HEX ! n \<in> set HEX" by (intro nth_mem) (simp add: HEX_def)
  then show ?thesis by (auto simp: HEX_def CR_def LF_def)
qed

lemma CR_notin_hex: "CR \<notin> set (hex_bytes data)"
  using HEX_not_CR unat_high_nibble unat_low_nibble
  by (induction data) (auto simp: hex_encode_byte_def, metis+)

section \<open>Lines\<close>

lemma decode_ascii_line_Some_iff:
  "decode_ascii_line content = Some (sl, pdu) \<longleftrightarrow>
     (\<exists>hex. content = ASCII_START # hex \<and> even (length hex) \<and> pdu \<noteq> []
        \<and> decode_hex_pairs hex = Some (sl # pdu @ [calculate_lrc (sl # pdu)]))"
  (is "?L \<longleftrightarrow> ?R")
proof
  assume L: ?L
  then obtain hex where content: "content = ASCII_START # hex" and hex: "even (length hex)"
    by (cases content) (auto simp: decode_ascii_line_def Let_def even_iff_mod_2_eq_zero split: if_splits)
  with L obtain bytes where bytes: "decode_hex_pairs hex = Some bytes" "2 \<le> length bytes"
    by (auto simp: decode_ascii_line_def Let_def even_iff_mod_2_eq_zero split: if_splits option.splits)
  then obtain data lrc where data: "bytes = data @ [lrc]" by (cases bytes rule: rev_cases) auto
  with L content hex bytes have *: "lrc = calculate_lrc data" "2 \<le> length data" "data ! 0 = sl" "drop 1 data = pdu"
    by (auto simp: decode_ascii_line_def Let_def even_iff_mod_2_eq_zero split: if_splits)
  then have "data = sl # pdu" "pdu \<noteq> []" by (cases data; auto)+
  with * data show ?R using content hex bytes by auto
next
  assume ?R
  then show ?L by (auto simp: decode_ascii_line_def Let_def even_iff_mod_2_eq_zero Suc_le_eq)
qed

lemma find_crlf_None_iff:
  "find_crlf bs = None \<longleftrightarrow> (\<forall>i. Suc i < length bs \<longrightarrow> \<not> (bs ! i = CR \<and> bs ! Suc i = LF))"
proof (induction bs rule: find_crlf.induct)
  case (1 a b rest)
  have "(\<forall>i. Suc i < length (a # b # rest) \<longrightarrow> P i) \<longleftrightarrow>
      P 0 \<and> (\<forall>i. Suc i < length (b # rest) \<longrightarrow> P (Suc i))" for P
    by (auto simp: All_less_Suc2 gr0_conv_Suc)
  with 1 show ?case by auto
qed auto

text \<open>A complete line: no line end inside it.\<close>

definition is_line :: "bytes \<Rightarrow> bool" where
  "is_line content \<longleftrightarrow> find_crlf (content @ [CR]) = None"

lemma is_line_nth: "is_line content \<Longrightarrow> Suc i < length content \<Longrightarrow> content ! i = CR \<Longrightarrow> content ! Suc i \<noteq> LF"
proof -
  assume "is_line content" and i: "Suc i < length content" "content ! i = CR"
  then have "\<not> ((content @ [CR]) ! i = CR \<and> (content @ [CR]) ! Suc i = LF)"
    unfolding is_line_def find_crlf_None_iff by (metis Suc_lessD Suc_less_eq length_append_singleton)
  with i show ?thesis by (simp add: nth_append)
qed

lemma find_crlf_line:
  assumes "is_line content"
  shows "find_crlf (content @ [CR, LF] @ rest) = Some (length content)"
  unfolding find_crlf_Some_iff
proof (intro conjI allI impI)
  fix i assume i: "i < length content"
  show "\<not> ((content @ [CR, LF] @ rest) ! i = CR \<and> (content @ [CR, LF] @ rest) ! Suc i = LF)"
  proof (cases "Suc i < length content")
    case True
    with i is_line_nth [OF assms True] show ?thesis by (auto simp: nth_append)
  next
    case False
    with i have "Suc i = length content" by simp
    then show ?thesis by (simp add: nth_append CR_def LF_def)
  qed
qed (simp_all add: nth_append)

lemma no_CR_is_line: "CR \<notin> set content \<Longrightarrow> is_line content"
  unfolding is_line_def find_crlf_None_iff by (auto simp: nth_append less_Suc_eq CR_def LF_def in_set_conv_nth)

lemma try_parse_ascii_from_line:
  assumes "is_line content" and "offset = length pre" and "buf = pre @ content @ [CR, LF] @ rest"
  shows "try_parse_ascii_from buf offset =
     (case decode_ascii_line content of
        Some (sl, pdu) \<Rightarrow> Some (sl, pdu, offset + length content + 2)
      | None \<Rightarrow> try_parse_ascii_from buf (offset + length content + 2))"
proof -
  have "find_crlf (drop offset buf) = Some (length content)"
    using find_crlf_line [OF assms(1), of rest] assms(2,3) by simp
  moreover have "take (length content) (drop offset buf) = content" using assms(2,3) by simp
  moreover have "offset \<le> length buf" using assms(2,3) by simp
  ultimately show ?thesis by (subst try_parse_ascii_from.simps) (simp add: Let_def split: option.split)
qed

lemma try_parse_ascii_from_None: "find_crlf (drop offset buf) = None \<Longrightarrow> try_parse_ascii_from buf offset = None"
  by (subst try_parse_ascii_from.simps) simp

lemma try_parse_ascii_garbage:
  assumes "\<forall>line \<in> set garbage. is_line line \<and> decode_ascii_line line = None"
  shows "try_parse_ascii_from (pre @ concat (map (\<lambda>l. l @ [CR, LF]) garbage) @ rest) (length pre) =
     try_parse_ascii_from (pre @ concat (map (\<lambda>l. l @ [CR, LF]) garbage) @ rest)
       (length (pre @ concat (map (\<lambda>l. l @ [CR, LF]) garbage)))"
  using assms
proof (induction garbage arbitrary: pre)
  case (Cons line garbage)
  let ?g = "concat (map (\<lambda>l. l @ [CR, LF]) garbage)"
  have "try_parse_ascii_from (pre @ (line @ [CR, LF] @ ?g) @ rest) (length pre) =
      try_parse_ascii_from (pre @ (line @ [CR, LF] @ ?g) @ rest) (length (pre @ line @ [CR, LF]))"
    using Cons.prems by (subst try_parse_ascii_from_line [of line]) simp_all
  with Cons.IH [of "pre @ line @ [CR, LF]"] Cons.prems show ?case by simp
qed simp

lemma encode_ascii_line:
  "encode_ascii_frame data = (ASCII_START # hex_bytes (data @ [calculate_lrc data])) @ [CR, LF]"
  by (simp add: encode_ascii_frame_def encode_ascii_frame_into_eq)

lemma frame_is_line: "is_line (ASCII_START # hex_bytes data)"
  using CR_notin_hex by (intro no_CR_is_line) (auto simp: ASCII_START_def CR_def)

lemma decode_encoded_line:
  "pdu \<noteq> [] \<Longrightarrow> decode_ascii_line (ASCII_START # hex_bytes ((sl # pdu) @ [calculate_lrc (sl # pdu)])) = Some (sl, pdu)"
  unfolding decode_ascii_line_Some_iff
  by (intro exI [of _ "hex_bytes ((sl # pdu) @ [calculate_lrc (sl # pdu)])"])
    (simp del: hex_bytes_simps(2,3))

lemma try_parse_ascii_frame_aux:
  assumes "\<forall>line \<in> set garbage. is_line line \<and> decode_ascii_line line = None" and "pdu \<noteq> []"
  defines "junk \<equiv> concat (map (\<lambda>l. l @ [CR, LF]) garbage)"
  shows "try_parse_ascii (junk @ encode_ascii_frame (sl # pdu) @ rest) =
     Some (sl, pdu, length (junk @ encode_ascii_frame (sl # pdu)))"
proof -
  let ?line = "ASCII_START # hex_bytes ((sl # pdu) @ [calculate_lrc (sl # pdu)])"
  let ?buf = "junk @ encode_ascii_frame (sl # pdu) @ rest"
  have "try_parse_ascii ?buf = try_parse_ascii_from ?buf (length junk)"
    using try_parse_ascii_garbage [OF assms(1), of "[]" "encode_ascii_frame (sl # pdu) @ rest"]
    by (simp add: try_parse_ascii_def junk_def)
  also have "\<dots> = Some (sl, pdu, length junk + length ?line + 2)"
    using decode_encoded_line [OF assms(2), of sl]
    by (subst try_parse_ascii_from_line [of ?line _ junk _ rest])
      (simp_all only: frame_is_line encode_ascii_line append.assoc option.case prod.case refl)
  finally show ?thesis by (simp add: encode_ascii_line)
qed

text \<open>What an accepted buffer looks like.\<close>

lemma try_parse_ascii_from_Some:
  assumes "try_parse_ascii_from buf offset = Some (sl, pdu, n)"
  shows "\<exists>pre content rest. offset \<le> length pre \<and> buf = pre @ content @ [CR, LF] @ rest
     \<and> n = length pre + length content + 2 \<and> decode_ascii_line content = Some (sl, pdu)"
  using assms
proof (induction buf offset rule: try_parse_ascii_from.induct)
  case (1 buf offset)
  then obtain p where p: "find_crlf (drop offset buf) = Some p"
    using try_parse_ascii_from_None [of offset buf] by (cases "find_crlf (drop offset buf)") auto
  let ?c = "take p (drop offset buf)"
  from p have cr: "Suc p < length (drop offset buf)" "drop offset buf ! p = CR" "drop offset buf ! Suc p = LF"
    by (simp_all add: find_crlf_Some_iff)
  from cr(1) have len: "offset \<le> length buf" by simp
  from cr have "drop offset buf = ?c @ [CR, LF] @ drop (p + 2) (drop offset buf)"
    by (metis (no_types, lifting) Cons_nth_drop_Suc Suc_lessD add_2_eq_Suc' append_Cons append_Nil append_take_drop_id)
  then have buf: "buf = take offset buf @ ?c @ [CR, LF] @ drop (p + 2) (drop offset buf)"
    by (metis append_take_drop_id)
  show ?case
  proof (cases "decode_ascii_line ?c")
    case None
    with 1(2) len p have "try_parse_ascii_from buf (offset + p + 2) = Some (sl, pdu, n)"
      by (subst (asm) try_parse_ascii_from.simps) (simp add: Let_def)
    with len p None obtain pre content rest where "offset + p + 2 \<le> length pre"
        "buf = pre @ content @ [CR, LF] @ rest" "n = length pre + length content + 2"
        "decode_ascii_line content = Some (sl, pdu)"
      using 1(1) [OF _ refl p refl refl None] by auto
    then show ?thesis by (intro exI conjI) auto
  next
    case (Some r)
    obtain sl' pdu' where r: "r = (sl', pdu')" by (cases r)
    with Some len p have "try_parse_ascii_from buf offset = Some (sl', pdu', offset + p + 2)"
      by (subst try_parse_ascii_from.simps) (simp add: Let_def)
    with 1(2) r have "r = (sl, pdu)" "n = offset + p + 2" by simp_all
    with cr(1) len have "n = length (take offset buf) + length ?c + 2" by simp
    moreover have "offset \<le> length (take offset buf)" using len by simp
    ultimately show ?thesis using buf Some \<open>r = (sl, pdu)\<close> by blast
  qed
qed

interpretation ascii: framing ascii_parse ascii_frame
proof
  fix buf m sl pdu n
  assume "ascii_parse buf = Some (m :: unit, sl, pdu, n)"
  then have "try_parse_ascii_from buf 0 = Some (sl, pdu, n)" by (auto simp: ascii_parse_def try_parse_ascii_def)
  then show "0 < n \<and> n \<le> length buf" by (auto dest!: try_parse_ascii_from_Some)
qed

interpretation ascii_store: framed_service ascii_parse ascii_frame store_service store_bounded ..

section \<open>Corruption\<close>

lemma corrupted_line_aux:
  assumes "a \<noteq> b"
  shows "decode_ascii_line (ASCII_START # hex_bytes (pre @ b # post @ [calculate_lrc (pre @ a # post)])) = None"
proof (rule ccontr)
  let ?hex = "hex_bytes (pre @ b # post @ [calculate_lrc (pre @ a # post)])"
  assume "decode_ascii_line (ASCII_START # ?hex) \<noteq> None"
  then obtain sl pdu where "decode_ascii_line (ASCII_START # ?hex) = Some (sl, pdu)" by auto
  then have "decode_hex_pairs ?hex = Some ((sl # pdu) @ [calculate_lrc (sl # pdu)])"
    by (auto simp: decode_ascii_line_Some_iff simp del: hex_bytes_simps)
  then have "(pre @ b # post) @ [calculate_lrc (pre @ a # post)] = (sl # pdu) @ [calculate_lrc (sl # pdu)]"
    by (simp del: hex_bytes_simps)
  then have "pre @ b # post = sl # pdu" "calculate_lrc (pre @ a # post) = calculate_lrc (sl # pdu)"
    unfolding append1_eq_conv by auto
  with assms show False by (metis lrc_one_byte)
qed

section \<open>The server on pipelined and on divided frames\<close>

abbreviation "ascii_bytes fs \<equiv> concat (map (\<lambda>(sl, pdu). encode_ascii_frame (sl # pdu)) fs)"

lemma ascii_parse_frame:
  "pdu \<noteq> [] \<Longrightarrow> ascii_parse (encode_ascii_frame (sl # pdu) @ rest)
     = Some ((), sl, pdu, length (encode_ascii_frame (sl # pdu)))"
  using try_parse_ascii_frame_aux [of "[]" pdu sl rest] by (simp add: ascii_parse_def)

lemma ascii_parse_no_crlf: "find_crlf buf = None \<Longrightarrow> ascii_parse buf = None"
  by (simp add: ascii_parse_def try_parse_ascii_def try_parse_ascii_from_None)

lemma ascii_serve_frames_all:
  assumes "\<forall>(sl, pdu) \<in> set fs. pdu \<noteq> []" and "find_crlf rest = None" and "healthy sv"
    and "sv_buf sv = ascii_bytes fs @ rest"
  shows "serve_frames ascii_parse ascii_frame svc sv =
     Some (answer_all svc (ascii_frame ()) fs (sv \<lparr> sv_buf := rest \<rparr>))"
  using assms
proof (induction fs arbitrary: sv)
  case Nil
  moreover from Nil have "sv \<lparr> sv_buf := rest \<rparr> = sv" by simp
  ultimately show ?case by (subst serve_frames.simps) (simp add: ascii_parse_no_crlf)
next
  case (Cons f fs)
  obtain sl pdu where f: "f = (sl, pdu)" by (cases f)
  let ?enc = "encode_ascii_frame (sl # pdu)"
  have buf: "sv_buf sv = ?enc @ ascii_bytes fs @ rest" using Cons.prems(4) f by simp
  let ?sv = "answer_frame svc (ascii_frame ()) sl pdu (sv \<lparr> sv_buf := ascii_bytes fs @ rest \<rparr>)"
  have h: "healthy ?sv" using Cons.prems(3) by (intro healthy_answer_frame) simp
  have "ascii_parse (sv_buf sv) = Some ((), sl, pdu, length ?enc)"
    using Cons.prems(1) f unfolding buf by (intro ascii_parse_frame) auto
  then have "serve_frames ascii_parse ascii_frame svc sv = serve_frames ascii_parse ascii_frame svc ?sv"
    using h buf by (subst serve_frames.simps) (simp add: Let_def healthy_def)
  also have "\<dots> = Some (answer_all svc (ascii_frame ()) fs (?sv \<lparr> sv_buf := rest \<rparr>))"
    using Cons.prems h by (intro Cons.IH) auto
  finally show ?case using f by (simp add: answer_frame_set_buf)
qed

lemma encode_ascii_frame_prefix:
  assumes "b @ extra = encode_ascii_frame data" and "extra \<noteq> []"
  shows "find_crlf b = None"
proof -
  let ?line = "ASCII_START # hex_bytes (data @ [calculate_lrc data])"
  from assms have "b @ butlast extra = ?line @ [CR]"
    by (metis (no_types, lifting) append.assoc append_Cons append_Nil butlast.simps(2) butlast_append
        encode_ascii_line list.distinct(1))
  moreover have "find_crlf (?line @ [CR]) = None"
    using frame_is_line by (simp only: is_line_def)
  ultimately have none: "\<not> ((b @ butlast extra) ! i = CR \<and> (b @ butlast extra) ! Suc i = LF)"
    if "Suc i < length (b @ butlast extra)" for i
    using that unfolding find_crlf_None_iff by metis
  show ?thesis unfolding find_crlf_None_iff
  proof (intro allI impI)
    fix i assume "Suc i < length b"
    with none [of i] show "\<not> (b ! i = CR \<and> b ! Suc i = LF)" by (simp add: nth_append)
  qed
qed

text \<open>Every prefix of a sequence of frames is some whole frames and a piece without line end.\<close>

lemma ascii_bytes_prefix:
  assumes "b @ extra = ascii_bytes fs"
  obtains gs hs rest where "fs = gs @ hs" "b = ascii_bytes gs @ rest" "find_crlf rest = None"
    "rest @ extra = ascii_bytes hs"
  using assms
proof (induction fs arbitrary: b thesis)
  case Nil
  then show ?case by (intro Nil(1) [of "[]" "[]" "[]"]) auto
next
  case (Cons f fs)
  obtain sl pdu where f: "f = (sl, pdu)" by (cases f)
  let ?enc = "encode_ascii_frame (sl # pdu)"
  show ?case
  proof (cases "length ?enc \<le> length b")
    case True
    from Cons.prems(2) f have eq: "b @ extra = ?enc @ ascii_bytes fs" by simp
    have "take (length ?enc) b = ?enc" "drop (length ?enc) b @ extra = ascii_bytes fs"
      using True arg_cong [OF eq, of "take (length ?enc)"] arg_cong [OF eq, of "drop (length ?enc)"] by simp_all
    then obtain b' where b: "b = ?enc @ b'" "b' @ extra = ascii_bytes fs"
      by (metis append_take_drop_id)
    then obtain gs hs rest where "fs = gs @ hs" "b' = ascii_bytes gs @ rest" "find_crlf rest = None"
      "rest @ extra = ascii_bytes hs" using Cons.IH by blast
    with b f show ?thesis by (intro Cons.prems(1) [of "f # gs" hs rest]) auto
  next
    case False
    from Cons.prems(2) f have eq: "b @ extra = ?enc @ ascii_bytes fs" by simp
    have "b = take (length b) ?enc" using False arg_cong [OF eq, of "take (length b)"] by simp
    then have "b @ drop (length b) ?enc = ?enc" by (metis append_take_drop_id)
    then have "find_crlf b = None" using False by (intro encode_ascii_frame_prefix) auto
    with Cons.prems(2) show ?thesis by (intro Cons.prems(1) [of "[]" "f # fs" b]) auto
  qed
qed

lemma ascii_bytes_no_crlf: "find_crlf (ascii_bytes fs) = None \<Longrightarrow> fs = []"
proof (cases fs)
  case (Cons f gs)
  obtain sl pdu where f: "f = (sl, pdu)" by (cases f)
  have "find_crlf (ascii_bytes fs) \<noteq> None"
    using find_crlf_line [OF frame_is_line, of "(sl # pdu) @ [calculate_lrc (sl # pdu)]" "ascii_bytes gs"]
    by (simp add: Cons f encode_ascii_line del: hex_bytes_simps)
  then show "find_crlf (ascii_bytes fs) = None \<Longrightarrow> fs = []" by blast
qed simp

lemma ascii_serve_divided_aux:
  assumes "\<forall>(sl, pdu) \<in> set fs. pdu \<noteq> []" and "healthy sv" and "[] \<notin> set pieces"
    and "find_crlf (sv_buf sv) = None" and "sv_buf sv @ concat pieces = ascii_bytes fs"
  shows "ascii_serve svc (map Got pieces) sv =
     Some (answer_all svc (ascii_frame ()) fs (sv \<lparr> sv_buf := [] \<rparr>))"
  using assms
proof (induction pieces arbitrary: fs sv)
  case Nil
  then have "fs = []" using ascii_bytes_no_crlf [of fs] by simp
  with Nil show ?case by simp
next
  case (Cons c pieces)
  have "(sv_buf sv @ c) @ concat pieces = ascii_bytes fs" using Cons.prems(5) by simp
  then obtain gs hs rest where split: "fs = gs @ hs" "sv_buf sv @ c = ascii_bytes gs @ rest"
    "find_crlf rest = None" "rest @ concat pieces = ascii_bytes hs"
    by (rule ascii_bytes_prefix)
  let ?sv = "answer_all svc (ascii_frame ()) gs (sv \<lparr> sv_buf := rest \<rparr>)"
  have h: "healthy ?sv" using Cons.prems(2) by (intro healthy_answer_all) simp
  have "serve_frames ascii_parse ascii_frame svc (sv \<lparr> sv_buf := sv_buf sv @ c \<rparr>) = Some ?sv"
    using ascii_serve_frames_all [of gs rest "sv \<lparr> sv_buf := sv_buf sv @ c \<rparr>" svc] Cons.prems split by auto
  then have "ascii_serve_event svc sv (Got c) = Some ?sv"
    using Cons.prems(3) by (auto simp: ascii_serve_event_def)
  moreover have "ascii_serve svc (map Got pieces) ?sv =
      Some (answer_all svc (ascii_frame ()) hs (?sv \<lparr> sv_buf := [] \<rparr>))"
    using Cons.prems split h by (intro Cons.IH) (auto simp: answer_all_set_buf)
  ultimately show ?case
    using Cons.prems(2) split(1) by (simp add: healthy_def answer_all_append answer_all_set_buf)
qed

context service
begin

lemma ascii_serve_one:
  fixes sv :: "'s server"
  assumes "healthy sv" "sv_buf sv = []" "inv (sv_service sv)" "slave \<noteq> 0" "request_try_from pdu = Ok req"
  defines "res \<equiv> call (Some slave) (sv_service sv) req"
  shows "ascii_serve call [Got (encode_ascii_frame (slave # pdu))] sv =
     Some (sv \<lparr> sv_rsp := [], sv_service := snd res,
                sv_out := sv_out sv @ [encode_ascii_frame (slave # response_pdu (reply_of req (fst res)))] \<rparr>)"
proof -
  let ?f = "encode_ascii_frame (slave # pdu)"
  have "pdu \<noteq> []" using assms(5) by auto
  then have "ascii_serve call (map Got [?f]) sv = Some (answer_frame call (ascii_frame ()) slave pdu (sv \<lparr> sv_buf := [] \<rparr>))"
    using ascii_serve_divided_aux [of "[(slave, pdu)]" sv "[?f]" call] assms(1,2)
    by (simp add: encode_ascii_line)
  moreover have "answer_frame call (ascii_frame ()) slave pdu (sv \<lparr> sv_buf := [] \<rparr>) =
      sv \<lparr> sv_rsp := [], sv_service := snd res,
         sv_out := sv_out sv @ [encode_ascii_frame (slave # response_pdu (reply_of req (fst res)))] \<rparr>"
    using answer_frame_answers [of "sv \<lparr> sv_buf := [] \<rparr>" slave pdu req "ascii_frame ()"] assms
    by (simp add: server_write_def ascii_frame_def encode_ascii_frame_def healthy_def)
  ultimately show ?thesis by simp
qed

end

end
