(* ===== verification/Modbus_Tcp.thy ===== *)
theory Modbus_Tcp
  imports Modbus_Ascii
begin

text \<open>
  \<open>src/transport/tcp.rs\<close>: MBAP framing, the frame parser with its two readings of the length
  field and of the unit id, the TCP client and the connection loop of the TCP server.  The
  lemmas give the round trips for the three framings, what a lone frame does on the server,
  and what becomes of pipelined frames and of frames with an unknown function code.
\<close>

section \<open>Configuration and encoding\<close>

datatype TidMode = Fixed u16 | Auto
datatype LengthMode = Standard | PduOnly

record TcpConfig =
  tid_mode :: TidMode
  unit_id_in_body :: bool
  length_mode :: LengthMode

definition config_default :: TcpConfig where
  "config_default = \<lparr> tid_mode = Fixed 0, unit_id_in_body = False, length_mode = Standard \<rparr>"

definition config_standard :: TcpConfig where "config_standard = config_default"

definition config_gateway :: TcpConfig where
  "config_gateway = \<lparr> tid_mode = Auto, unit_id_in_body = True, length_mode = Standard \<rparr>"

text \<open>\<open>fetch_add\<close> on an \<open>AtomicU16\<close> wraps.\<close>

definition next_tid :: "TidMode \<Rightarrow> u16 \<Rightarrow> u16 \<times> u16" where
  "next_tid mode counter = (case mode of Fixed v \<Rightarrow> (v, counter) | Auto \<Rightarrow> (counter, counter + 1))"

definition encode_tcp_frame :: "bytes \<Rightarrow> bytes \<Rightarrow> TcpConfig \<Rightarrow> u16 \<Rightarrow> bytes" where
  "encode_tcp_frame data buf config tid =
     (let (unit_id, pdu) = (case data of [] \<Rightarrow> (1, []) | b # bs \<Rightarrow> (b, bs));
          ext = (if unit_id_in_body config then 1 else 0);
          len = (case length_mode config of
                   Standard \<Rightarrow> of_nat (length pdu) + 1 + ext
                 | PduOnly \<Rightarrow> of_nat (length pdu) + ext);
          buf = put_u16 buf tid;
          buf = put_u16 buf 0;
          buf = put_u16 buf len;
          buf = put_u8 buf unit_id;
          buf = (if unit_id_in_body config then put_u8 buf unit_id else buf)
      in put_slice buf pdu)"

section \<open>Parsing\<close>

definition is_tcp_header_corrupt :: "bytes \<Rightarrow> bool" where
  "is_tcp_header_corrupt buf =
     (if length buf < MBAP_HEADER_SIZE then False
      else let proto_id = be16 (buf ! 2) (buf ! 3);
               payload_len = unat (be16 (buf ! 4) (buf ! 5))
           in proto_id \<noteq> 0 \<or> \<not> (1 \<le> payload_len \<and> payload_len \<le> MAX_TCP_ADU_SIZE))"

definition MAX_TCP_BUF_BYTES :: nat where "MAX_TCP_BUF_BYTES = MAX_TCP_ADU_SIZE * 4"

definition try_extract_tcp_pdu :: "u16 \<Rightarrow> u8 \<Rightarrow> bytes \<Rightarrow> nat \<Rightarrow> (u16 \<times> u8 \<times> bytes \<times> nat) option" where
  "try_extract_tcp_pdu tid unit_id body consumed =
     (if length body \<ge> 2 \<and> body ! 0 = unit_id \<and> is_known_function_code (body ! 1)
         \<and> is_ok (request_try_from (drop 1 body))
      then Some (tid, body ! 0, drop 1 body, consumed)
      else if is_known_function_code (body ! 0) then
        (if body ! 0 = unit_id \<and> \<not> is_ok (request_try_from body) then None
         else Some (tid, unit_id, body, consumed))
      else None)"

fun try_tcp_lengths :: "bytes \<Rightarrow> u16 \<Rightarrow> u8 \<Rightarrow> nat list \<Rightarrow> (u16 \<times> u8 \<times> bytes \<times> nat) option" where
  "try_tcp_lengths buf tid unit_id [] = None"
| "try_tcp_lengths buf tid unit_id (fl # fls) =
     (if fl > MBAP_HEADER_SIZE \<and> length buf \<ge> fl then
        let body = take (fl - MBAP_HEADER_SIZE) (drop MBAP_HEADER_SIZE buf)
        in if body = [] then try_tcp_lengths buf tid unit_id fls
           else try_extract_tcp_pdu tid unit_id body fl
      else try_tcp_lengths buf tid unit_id fls)"

definition try_parse_tcp_frame :: "bytes \<Rightarrow> (u16 \<times> u8 \<times> bytes \<times> nat) option" where
  "try_parse_tcp_frame buf =
     (if length buf < MBAP_HEADER_SIZE then None
      else let tid = be16 (buf ! 0) (buf ! 1);
               payload_len = unat (be16 (buf ! 4) (buf ! 5));
               proto_id = be16 (buf ! 2) (buf ! 3)
           in if proto_id \<noteq> 0 \<or> payload_len > MAX_TCP_ADU_SIZE then None
              else try_tcp_lengths buf tid (buf ! 6)
                     [MBAP_HEADER_SIZE + payload_len, MBAP_PREFIX_SIZE + payload_len])"

section \<open>Client\<close>

record tcp_client =
  tc_timeout :: duration
  tc_reconnect :: "ReconnectConfig option"
  tc_config :: TcpConfig
  tc_tap :: bool
  tc_bus_timing :: "BusTiming option"

text \<open>The connections a client opens are streams given by the environment.\<close>

definition tcp_connect_with_config :: "stream \<Rightarrow> duration \<Rightarrow> TcpConfig \<Rightarrow> tcp_client \<times> inner \<times> u16" where
  "tcp_connect_with_config conn timeout config =
     (\<lparr> tc_timeout = timeout, tc_reconnect = None, tc_config = config, tc_tap = False, tc_bus_timing = None \<rparr>,
      inner_new (sniff_new False False conn), 1)"

definition tcp_connect_with_timeout :: "stream \<Rightarrow> duration \<Rightarrow> tcp_client \<times> inner \<times> u16" where
  "tcp_connect_with_timeout conn timeout = tcp_connect_with_config conn timeout config_default"

definition tcp_connect :: "stream \<Rightarrow> tcp_client \<times> inner \<times> u16" where
  "tcp_connect conn = tcp_connect_with_timeout conn (from_secs 5)"

definition tcp_with_config :: "tcp_client \<Rightarrow> TcpConfig \<Rightarrow> tcp_client" where
  "tcp_with_config cl config = cl \<lparr> tc_config := config \<rparr>"

definition tcp_with_gateway_mode :: "tcp_client \<Rightarrow> tcp_client" where
  "tcp_with_gateway_mode cl = tcp_with_config cl config_gateway"

definition tcp_with_reconnect :: "tcp_client \<Rightarrow> u32 \<Rightarrow> duration \<Rightarrow> tcp_client" where
  "tcp_with_reconnect cl retries backoff = cl \<lparr> tc_reconnect := Some (reconnect_new retries backoff) \<rparr>"

definition tcp_with_options :: "stream \<Rightarrow> 'tap ClientOptions \<Rightarrow> tcp_client \<times> inner \<times> u16" where
  "tcp_with_options conn opts =
     (let tap = opt_tap opts \<noteq> None; timing = opt_bus_timing opts;
          sniff = sniff_new tap (timing \<noteq> None) (conn \<lparr> bus := timing \<rparr>);
          sniff = sniff \<lparr> layers := sniff_set_rooms (data_channel_capacity opts) (tap_channel_capacity opts) (layers sniff) \<rparr>
      in (\<lparr> tc_timeout = opt_timeout opts, tc_reconnect = opt_reconnect opts, tc_config = config_default,
            tc_tap = tap, tc_bus_timing = timing \<rparr>, inner_new sniff, 1))"

text \<open>The checks on the bytes of a response; \<open>buf\<close> is what both phases have read.\<close>

definition tcp_extract_response :: "TcpConfig \<Rightarrow> u8 \<Rightarrow> nat \<Rightarrow> bytes \<Rightarrow> ModbusError + Response" where
  "tcp_extract_response config slave_id payload_len buf =
     (let min_total = MBAP_PREFIX_SIZE + payload_len; max_total = MBAP_HEADER_SIZE + payload_len;
          available = length buf
      in if available < min_total then Inl (Timeout TCP_RECV_TIMEOUT)
         else let pdu = (if available \<ge> max_total
                         then take (max_total - MBAP_HEADER_SIZE) (drop MBAP_HEADER_SIZE buf)
                         else take (min_total - MBAP_HEADER_SIZE) (drop MBAP_HEADER_SIZE buf))
         in if pdu = [] then Inl (Protocol TCP_EMPTY_RESP)
            else let pdu = (if unit_id_in_body config \<and> length pdu > 1 \<and> pdu ! 0 = slave_id
                            then drop 1 pdu else pdu)
            in decode_response_pdu pdu)"

text \<open>
  The extra wait of the second phase: with fewer bytes than the longer reading of the length
  field, up to 200 ms for more.
\<close>

definition tcp_extra_read :: "nat \<Rightarrow> nat \<Rightarrow> bytes \<Rightarrow> stream \<Rightarrow> bytes \<times> stream" where
  "tcp_extra_read deadline max_total buf st =
     (if length buf < max_total then
        let remaining = deadline - clock st
        in if remaining \<noteq> 0 then
             (case read_timed (min remaining (from_millis 200)) st of
                (Got bs, st) \<Rightarrow> (buf @ bs, st)
              | (_, st) \<Rightarrow> (buf, st))
           else (buf, st)
      else (buf, st))"

definition tcp_receive :: "TcpConfig \<Rightarrow> u8 \<Rightarrow> nat \<Rightarrow> stream \<Rightarrow> (ModbusError + Response) \<times> bytes \<times> stream" where
  "tcp_receive config slave_id deadline st =
     (case read_at_least st [] deadline MBAP_HEADER_SIZE of
        (Inl e, rb, st) \<Rightarrow> (Inl e, rb, st)
      | (Inr _, rb, st) \<Rightarrow>
          (if length rb < MBAP_HEADER_SIZE then (Inl (Timeout TCP_RECV_TIMEOUT), rb, st)
           else if be16 (rb ! 2) (rb ! 3) \<noteq> 0 then (Inl (Protocol ''TCP: invalid Protocol ID''), rb, st)
           else let payload_len = unat (be16 (rb ! 4) (rb ! 5))
           in if payload_len > MAX_TCP_ADU_SIZE
              then (Inl (Protocol ''TCP: MBAP Length exceeds max ADU''), rb, st)
              else case read_at_least st rb deadline (MBAP_PREFIX_SIZE + payload_len) of
                (Inl e, rb, st) \<Rightarrow> (Inl e, rb, st)
              | (Inr _, rb, st) \<Rightarrow>
                  (let (rb, st) = tcp_extra_read deadline (MBAP_HEADER_SIZE + payload_len) rb st
                   in (tcp_extract_response config slave_id payload_len rb, rb, st))))"

definition tcp_send_recv ::
  "duration \<Rightarrow> TcpConfig \<Rightarrow> u8 \<Rightarrow> Request \<Rightarrow> inner \<times> u16 \<Rightarrow> (ModbusError + Response) \<times> inner \<times> u16" where
  "tcp_send_recv timeout config slave_id request state =
     (let (inner, counter) = state
      in case drain_stale_data (in_stream inner) of
        (Inl e, st) \<Rightarrow> (Inl e, inner \<lparr> in_stream := st \<rparr>, counter)
      | (Inr _, st) \<Rightarrow>
          (let (tid, counter) = next_tid (tid_mode config) counter
           in case send_frame st (in_write_buf inner) slave_id timeout request
                     (\<lambda>data buf. encode_tcp_frame data buf config tid) of
             (Inl e, wb, st) \<Rightarrow> (Inl e, inner \<lparr> in_stream := st, in_write_buf := wb \<rparr>, counter)
           | (Inr _, wb, st) \<Rightarrow>
               (let deadline = clock st + timeout;
                    (r, rb, st) = tcp_receive config slave_id deadline st
                in (r, \<lparr> in_stream = st, in_write_buf = wb, in_read_buf = rb \<rparr>, counter))))"

definition tcp_rebuild :: "tcp_client \<Rightarrow> (inner \<times> u16) \<times> attempt list \<Rightarrow> bool \<times> (inner \<times> u16) \<times> attempt list" where
  "tcp_rebuild cl state =
     (let ((inner, counter), plan) = state
      in case plan of
           (took, Some conn) # rest \<Rightarrow>
             (True,
              (\<lparr> in_stream = sniff_new (tc_tap cl) (tc_bus_timing cl \<noteq> None)
                             (conn \<lparr> clock := clock (in_stream inner) + took, bus := bus (in_stream inner),
                                     tap_log := tap_log (in_stream inner) \<rparr>),
                 in_write_buf = [], in_read_buf = [] \<rparr>, counter), rest)
         | (took, None) # rest \<Rightarrow>
             (False, (inner \<lparr> in_stream := (in_stream inner) \<lparr> clock := clock (in_stream inner) + took \<rparr> \<rparr>, counter), rest)
         | [] \<Rightarrow> (False, (inner, counter), []))"

definition tcp_call ::
  "tcp_client \<Rightarrow> u8 \<Rightarrow> Request \<Rightarrow> (inner \<times> u16) \<times> attempt list
     \<Rightarrow> ((ModbusError + Response) \<times> (inner \<times> u16) \<times> attempt list) option" where
  "tcp_call cl slave request state =
     run_with_reconnect (tc_reconnect cl)
       (\<lambda>(s, plan). let (r, s) = tcp_send_recv (tc_timeout cl) (tc_config cl) slave request s in (r, s, plan))
       (tcp_rebuild cl)
       (\<lambda>d ((inner, counter), plan).
          ((inner \<lparr> in_stream := (in_stream inner) \<lparr> clock := clock (in_stream inner) + d \<rparr> \<rparr>, counter), plan))
       Connection state"

section \<open>Server\<close>

definition tcp_frame :: "TcpConfig \<Rightarrow> u16 \<Rightarrow> bytes \<Rightarrow> bytes" where
  "tcp_frame config tid rsp_data = encode_tcp_frame rsp_data [] config tid"

text \<open>
  One turn of \<open>handle_tcp_connection\<close>.  The source removes a frame from the buffer after it has
  written the reply; the loop shared with the serial servers removes it before, which nothing
  observes because a failed write ends the connection.
\<close>

definition tcp_serve_event :: "TcpConfig \<Rightarrow> 's service \<Rightarrow> 's server \<Rightarrow> poll_result \<Rightarrow> 's server option" where
  "tcp_serve_event config svc sv ev =
     (case ev of
        Got bs \<Rightarrow>
          (if bs = [] then Some (sv \<lparr> sv_status := Closed \<rparr>)
           else case serve_frames try_parse_tcp_frame (tcp_frame config) svc (sv \<lparr> sv_buf := sv_buf sv @ bs \<rparr>) of
                  None \<Rightarrow> None
                | Some sv \<Rightarrow>
                    (if sv_status sv = Serving
                        \<and> (is_tcp_header_corrupt (sv_buf sv) \<or> length (sv_buf sv) > MAX_TCP_BUF_BYTES)
                     then Some (sv \<lparr> sv_buf := [] \<rparr>) else Some sv))
      | Failed e \<Rightarrow> Some (sv \<lparr> sv_status := Closed \<rparr>)
      | Elapsed \<Rightarrow> Some sv)"

fun tcp_serve :: "TcpConfig \<Rightarrow> 's service \<Rightarrow> poll_result list \<Rightarrow> 's server \<Rightarrow> 's server option" where
  "tcp_serve config svc [] sv = Some sv"
| "tcp_serve config svc (ev # evs) sv =
     (if sv_status sv \<noteq> Serving then Some sv
      else case tcp_serve_event config svc sv ev of None \<Rightarrow> None | Some sv \<Rightarrow> tcp_serve config svc evs sv)"

section \<open>The shape of a frame\<close>

text \<open>An MBAP header followed by a body.\<close>

definition mbap :: "u16 \<Rightarrow> u16 \<Rightarrow> u8 \<Rightarrow> bytes \<Rightarrow> bytes" where
  "mbap tid len unit_id body = [hi8 tid, lo8 tid, 0, 0, hi8 len, lo8 len, unit_id] @ body"

lemma hi_lo_0 [simp]: "hi8 0 = 0" "lo8 0 = 0"
  by (simp_all add: hi8_def lo8_def)

lemma be16_00 [simp]: "be16 0 0 = 0"
  by (simp add: be16_eq_0_iff)

lemma length_mbap [simp]: "length (mbap tid len u body) = 7 + length body"
  by (simp add: mbap_def)

lemma mbap_not_Nil [simp]: "mbap tid len u body \<noteq> []"
  by (simp add: mbap_def)

lemma encode_tcp_standard:
  "encode_tcp_frame (u # pdu) [] \<lparr> tid_mode = m, unit_id_in_body = False, length_mode = Standard \<rparr> tid =
     mbap tid (of_nat (length pdu) + 1) u pdu"
  by (simp add: encode_tcp_frame_def mbap_def put_defs Let_def)

lemma encode_tcp_gateway:
  "encode_tcp_frame (u # pdu) [] \<lparr> tid_mode = m, unit_id_in_body = True, length_mode = Standard \<rparr> tid =
     mbap tid (of_nat (length pdu) + 2) u (u # pdu)"
  by (simp add: encode_tcp_frame_def mbap_def put_defs Let_def add.commute)

lemma encode_tcp_pdu_only:
  "encode_tcp_frame (u # pdu) [] \<lparr> tid_mode = m, unit_id_in_body = False, length_mode = PduOnly \<rparr> tid =
     mbap tid (of_nat (length pdu)) u pdu"
  by (simp add: encode_tcp_frame_def mbap_def put_defs Let_def)

lemma mbap_nth [simp]:
  "mbap tid len u body ! 0 = hi8 tid" "mbap tid len u body ! Suc 0 = lo8 tid"
  "mbap tid len u body ! 2 = 0" "mbap tid len u body ! 3 = 0"
  "mbap tid len u body ! 4 = hi8 len" "mbap tid len u body ! 5 = lo8 len" "mbap tid len u body ! 6 = u"
  by (simp_all add: mbap_def eval_nat_numeral)

lemma try_parse_mbap:
  assumes "unat len \<le> 260"
  shows "try_parse_tcp_frame (mbap tid len u body) =
     (if 1 \<le> unat len \<and> unat len \<le> length body then try_extract_tcp_pdu tid u (take (unat len) body) (7 + unat len)
      else if 2 \<le> unat len \<and> unat len \<le> length body + 1
      then try_extract_tcp_pdu tid u (take (unat len - 1) body) (6 + unat len)
      else None)"
  using assms
  by (auto simp: try_parse_tcp_frame_def frame_consts Let_def) (auto simp: mbap_def)

lemma is_tcp_header_corrupt_mbap:
  "is_tcp_header_corrupt (mbap tid len u body) \<longleftrightarrow> \<not> (1 \<le> unat len \<and> unat len \<le> 260)"
  by (simp add: is_tcp_header_corrupt_def frame_consts Let_def)

interpretation tcp: framing try_parse_tcp_frame "tcp_frame config" for config
proof
  fix buf m sl pdu n
  assume "try_parse_tcp_frame buf = Some (m, sl, pdu, n)"
  then show "0 < n \<and> n \<le> length buf"
    by (auto simp: try_parse_tcp_frame_def try_extract_tcp_pdu_def frame_consts Let_def split: if_splits)
qed

interpretation tcp_store: framed_service try_parse_tcp_frame "tcp_frame config" store_service store_bounded for config ..

text \<open>A body that is read as a plain PDU: its first byte is not also the unit id.\<close>

lemma try_extract_plain:
  assumes "is_known_function_code (hd body)" "hd body \<noteq> u" "body \<noteq> []"
  shows "try_extract_tcp_pdu tid u body n = Some (tid, u, body, n)"
  using assms by (cases body) (simp_all add: try_extract_tcp_pdu_def)

lemma try_extract_unknown:
  assumes "\<not> is_known_function_code (hd body)" "hd body \<noteq> u" "body \<noteq> []"
  shows "try_extract_tcp_pdu tid u body n = None"
  using assms by (cases body) (simp_all add: try_extract_tcp_pdu_def)

lemma try_extract_in_body:
  assumes "request_try_from pdu = Ok req"
  shows "try_extract_tcp_pdu tid u (u # pdu) n = Some (tid, u, pdu, n)"
  using known_request_fc [OF assms] assms by (cases pdu) (simp_all add: try_extract_tcp_pdu_def)

text \<open>
  A legal request is read as such unless its function code is also the unit id and its other bytes
  are themselves a legal request: then the unit id is taken to stand in the body.
\<close>

definition shadowed :: "u8 \<Rightarrow> bytes \<Rightarrow> bool" where
  "shadowed u pdu \<longleftrightarrow> hd pdu = u \<and> is_ok (request_try_from (tl pdu))"

definition tcp_seen :: "u8 \<Rightarrow> bytes \<Rightarrow> bytes" where
  "tcp_seen u pdu = (if shadowed u pdu then tl pdu else pdu)"

lemma not_shadowed_unit: "u \<noteq> hd pdu \<Longrightarrow> \<not> shadowed u pdu"
  by (auto simp: shadowed_def)

lemma request_length_5: "request_try_from pdu = Ok req \<Longrightarrow> 5 \<le> length pdu"
  by (cases req) (auto simp: request_try_from_Ok_iff request_wire_def)

lemma not_shadowed_short [simp]: "length pdu \<le> 5 \<Longrightarrow> \<not> shadowed u pdu"
  using request_length_5 [of "tl pdu"] by (cases "request_try_from (tl pdu)") (auto simp: shadowed_def)

lemma try_extract_request:
  assumes "request_try_from pdu = Ok req"
  shows "try_extract_tcp_pdu tid u pdu n = Some (tid, u, tcp_seen u pdu, n)"
proof -
  from known_request_fc [OF assms] have fc: "is_known_function_code (hd pdu)" and len: "2 \<le> length pdu" by auto
  then obtain b pdu' where pdu: "pdu = b # pdu'" "pdu' \<noteq> []" by (cases pdu) fastforce+
  have "is_known_function_code (hd pdu')" if "is_ok (request_try_from pdu')"
    using that known_request_fc [of pdu'] by (cases "request_try_from pdu'") auto
  then show ?thesis
    using fc assms pdu by (cases pdu') (auto simp: try_extract_tcp_pdu_def tcp_seen_def shadowed_def)
qed

lemma unat_len1: "length pdu \<le> 253 \<Longrightarrow> unat (of_nat (length (pdu :: bytes)) + 1 :: u16) = length pdu + 1"
  using unat_of_nat_u16 [of "length pdu + 1"] by (simp add: add.commute)

lemma unat_len2: "length pdu \<le> 253 \<Longrightarrow> unat (of_nat (length (pdu :: bytes)) + 2 :: u16) = length pdu + 2"
  using unat_of_nat_u16 [of "length pdu + 2"] by (simp add: add.commute)

lemma parse_gateway_aux:
  assumes "request_try_from pdu = Ok req" "length pdu \<le> 253"
  shows "try_parse_tcp_frame (mbap tid (of_nat (length pdu) + 2) u (u # pdu)) = Some (tid, u, pdu, 8 + length pdu)"
  using assms by (simp add: try_parse_mbap unat_len2 try_extract_in_body)

lemma parse_standard_request:
  assumes "request_try_from pdu = Ok req" "length pdu \<le> 253"
  shows "try_parse_tcp_frame (mbap tid (of_nat (length pdu) + 1) u pdu) = Some (tid, u, tcp_seen u pdu, 7 + length pdu)"
  using assms request_length_5 [OF assms(1)]
  by (auto simp: try_parse_mbap unat_len1 Suc_le_eq try_extract_request)

lemma parse_pdu_only_request:
  assumes "request_try_from pdu = Ok req" "length pdu \<le> 253"
  shows "try_parse_tcp_frame (mbap tid (of_nat (length pdu)) u pdu) = Some (tid, u, tcp_seen u pdu, 7 + length pdu)"
proof -
  have "unat (of_nat (length pdu) :: u16) = length pdu" using assms by (intro unat_of_nat_u16) simp
  with assms request_length_5 [OF assms(1)] show ?thesis
    by (auto simp: try_parse_mbap Suc_le_eq try_extract_request)
qed

text \<open>Every framing the encoder writes: with the unit id in the body or not, under either length.\<close>

lemma encode_tcp_mbap:
  "encode_tcp_frame (u # pdu) [] fmt tid =
     mbap tid (of_nat (length pdu) + (case length_mode fmt of Standard \<Rightarrow> 1 | PduOnly \<Rightarrow> 0)
         + (if unit_id_in_body fmt then 1 else 0)) u (if unit_id_in_body fmt then u # pdu else pdu)"
  by (simp add: encode_tcp_frame_def mbap_def put_defs Let_def split: LengthMode.split)

definition framed_seen :: "TcpConfig \<Rightarrow> u8 \<Rightarrow> bytes \<Rightarrow> bytes" where
  "framed_seen fmt u pdu = (if unit_id_in_body fmt then pdu else tcp_seen u pdu)"

lemma parse_encoded_request:
  fixes u :: u8 and tid :: u16
  assumes "request_try_from pdu = Ok req" "length pdu \<le> 253"
  defines "frame \<equiv> \<lambda>fmt. encode_tcp_frame (u # pdu) [] fmt tid"
  shows "try_parse_tcp_frame (frame fmt) = Some (tid, u, framed_seen fmt u pdu, length (frame fmt))"
proof -
  have "try_parse_tcp_frame (mbap tid (of_nat (length pdu) + 1) u (u # pdu)) = Some (tid, u, pdu, 8 + length pdu)"
    using assms(1,2) request_length_5 [OF assms(1)]
    by (auto simp: try_parse_mbap unat_len1 try_extract_in_body)
  with assms(1,2) show ?thesis
    using parse_standard_request [of pdu req tid u] parse_gateway_aux [of pdu req tid u] parse_pdu_only_request [of pdu req tid u]
    by (cases "unit_id_in_body fmt"; cases "length_mode fmt") (simp_all add: frame_def encode_tcp_mbap framed_seen_def add.assoc)
qed

section \<open>Lone frames on the server\<close>

lemma request_try_from_extra: "request_try_from pdu = Ok req \<Longrightarrow> request_try_from (pdu @ extra) = Ok req"
  unfolding request_try_from_Ok_iff by force

context service
begin

lemma tcp_serve_one:
  fixes sv :: "'s server"
  assumes "healthy sv" "sv_buf sv = []" "inv (sv_service sv)"
    and "u \<noteq> 0" "request_try_from pdu = Ok req'" "length pdu \<le> 253" "request_try_from (framed_seen fmt u pdu) = Ok req"
  defines "res \<equiv> call (Some u) (sv_service sv) req"
  shows "tcp_serve config call [Got (encode_tcp_frame (u # pdu) [] fmt tid)] sv =
     Some (sv \<lparr> sv_rsp := [], sv_service := snd res,
        sv_out := sv_out sv @ [encode_tcp_frame (u # response_pdu (reply_of req (fst res))) [] config tid] \<rparr>)"
proof -
  let ?f = "encode_tcp_frame (u # pdu) [] fmt tid"
  let ?sv = "sv \<lparr> sv_buf := ?f \<rparr>"
  have ne: "?f \<noteq> []" by (simp add: encode_tcp_mbap)
  have "try_parse_tcp_frame (sv_buf ?sv) = Some (tid, u, framed_seen fmt u pdu, length (sv_buf ?sv))"
    using parse_encoded_request [OF assms(5,6), of u fmt tid] by simp
  note one = tcp.serve_one_frame [OF this, of config call]
  have "answer_frame call (tcp_frame config tid) u (framed_seen fmt u pdu) (?sv \<lparr> sv_buf := [] \<rparr>) =
      server_write (tcp_frame config tid (u # response_pdu (reply_of req (fst (call (Some u) (sv_service sv) req)))))
       (?sv \<lparr> sv_buf := [], sv_rsp := [], sv_service := snd (call (Some u) (sv_service sv) req) \<rparr>)"
    using answer_frame_answers [of "?sv \<lparr> sv_buf := [] \<rparr>" u "framed_seen fmt u pdu" req "tcp_frame config tid"] assms by simp
  with one ne assms(1,2) show ?thesis
    by (simp add: tcp_serve_event_def server_write_def tcp_frame_def res_def
        healthy_def is_tcp_header_corrupt_def frame_consts MAX_TCP_BUF_BYTES_def)
qed

end

section \<open>Pipelined frames\<close>

lemma pipelined_parse:
  assumes "is_known_function_code (hd pdu)" "hd pdu \<noteq> u" "pdu \<noteq> []" "length pdu \<le> 253"
  shows "try_parse_tcp_frame (mbap tid (of_nat (length pdu) + 1) u pdu @ b # rest)
     = Some (tid, u, pdu @ [b], 8 + length pdu)"
proof -
  have "mbap tid (of_nat (length pdu) + 1) u pdu @ b # rest = mbap tid (of_nat (length pdu) + 1) u ((pdu @ [b]) @ rest)"
    by (simp add: mbap_def)
  moreover have "hd (pdu @ [b]) = hd pdu" using assms(3) by (cases pdu) auto
  ultimately show ?thesis
    using assms try_extract_plain [of "pdu @ [b]" u tid] by (simp add: try_parse_mbap unat_len1)
qed

lemma shifted_header:
  fixes u :: u8 and tid :: u16
  assumes "length pdu \<le> 253" "2 \<le> length pdu"
  defines "buf \<equiv> tl (mbap tid (of_nat (length pdu) + 1) u pdu)"
  shows "try_parse_tcp_frame buf = None" and "is_tcp_header_corrupt buf"
proof -
  let ?L = "of_nat (length pdu) + 1 :: u16"
  have "unat ?L = 256 * unat (hi8 ?L) + unat (lo8 ?L)"
    using unat_be16 [of "hi8 ?L" "lo8 ?L"] by simp
  then have sum: "length pdu + 1 = 256 * unat (hi8 ?L) + unat (lo8 ?L)"
    using assms(1) by (simp add: unat_len1)
  then have "unat (hi8 ?L) = 0" using assms(1) by linarith
  then have hi: "hi8 ?L = 0" by (rule unsigned_word_eqI [of _ 0, simplified])
  from sum hi assms(2) have lo: "3 \<le> unat (lo8 ?L)" by simp
  have payload: "260 < unat (be16 (lo8 ?L) u)" using lo by (simp add: unat_be16)
  have nth: "buf ! 2 = 0" "buf ! 3 = 0" "buf ! 4 = lo8 ?L" "buf ! 5 = u" "7 \<le> length buf"
    using hi assms(2) by (simp_all add: buf_def mbap_def eval_nat_numeral)
  from nth payload show "try_parse_tcp_frame buf = None"
    by (simp add: try_parse_tcp_frame_def frame_consts Let_def)
  from nth payload show "is_tcp_header_corrupt buf"
    by (simp add: is_tcp_header_corrupt_def frame_consts Let_def)
qed

lemma tcp_pipelined_aux:
  fixes sv :: "SlaveStore server"
  assumes "healthy sv" "sv_buf sv = []" "store_bounded (sv_service sv)"
    and "u1 \<noteq> 0" "u1 \<noteq> hd pdu1" "request_try_from pdu1 = Ok req1" "length pdu1 \<le> 253"
    and "2 \<le> length pdu2" "length pdu2 \<le> 253"
  defines "res \<equiv> store_call (sv_service sv) req1"
  shows "tcp_serve config store_service
      [Got (mbap t1 (of_nat (length pdu1) + 1) u1 pdu1 @ mbap t2 (of_nat (length pdu2) + 1) u2 pdu2)] sv =
     Some (sv \<lparr> sv_rsp := [], sv_service := snd res,
        sv_out := sv_out sv @ [encode_tcp_frame (u1 # response_pdu (reply_of req1 (fst res))) [] config t1] \<rparr>)"
proof -
  let ?f1 = "mbap t1 (of_nat (length pdu1) + 1) u1 pdu1" and ?f2 = "mbap t2 (of_nat (length pdu2) + 1) u2 pdu2"
  let ?rest = "tl ?f2" and ?pdu = "pdu1 @ [hi8 t2]"
  have f2: "?f2 = hi8 t2 # ?rest" by (simp add: mbap_def)
  have fc: "is_known_function_code (hd pdu1)" "pdu1 \<noteq> []" using known_request_fc [OF assms(6)] by auto
  have parse: "try_parse_tcp_frame (?f1 @ ?f2) = Some (t1, u1, ?pdu, 8 + length pdu1)"
    using pipelined_parse [OF fc(1) _ fc(2), of u1 t1 "hi8 t2" ?rest] assms(5,7) f2 by metis
  have rest: "drop (8 + length pdu1) (?f1 @ ?f2) = ?rest"
    by (simp add: drop_Suc)
  let ?sv = "answer_frame store_service (tcp_frame config t1) u1 ?pdu (sv \<lparr> sv_buf := ?rest \<rparr>)"
  have ans: "?sv = sv \<lparr> sv_buf := ?rest, sv_rsp := [], sv_service := snd res,
      sv_out := sv_out sv @ [encode_tcp_frame (u1 # response_pdu (reply_of req1 (fst res))) [] config t1] \<rparr>"
    using store.answer_frame_answers [of "sv \<lparr> sv_buf := ?rest \<rparr>" u1 ?pdu req1 "tcp_frame config t1"]
      request_try_from_extra [OF assms(6)] assms(1,3,4)
    by (simp add: server_write_def tcp_frame_def store_service_def res_def healthy_def)
  have "serve_frames try_parse_tcp_frame (tcp_frame config) store_service (sv \<lparr> sv_buf := ?f1 @ ?f2 \<rparr>) = Some ?sv"
    using parse rest ans assms(1) shifted_header(1) [OF assms(9,8)]
    by (subst serve_frames.simps) (simp add: Let_def healthy_def serve_frames.simps)
  then show ?thesis
    using ans assms(1,2) shifted_header(2) [OF assms(9,8)]
    by (simp add: tcp_serve_event_def healthy_def)
qed

section \<open>Frames with an unknown function code\<close>

lemma unknown_fc_parse:
  assumes "\<not> is_known_function_code (hd body)" "hd body \<noteq> u" "body \<noteq> []" "length body \<le> 253"
  shows "try_parse_tcp_frame (mbap tid (of_nat (length body) + 1) u body @ extra) = None"
proof -
  have "mbap tid (of_nat (length body) + 1) u body @ extra = mbap tid (of_nat (length body) + 1) u (body @ extra)"
    by (simp add: mbap_def)
  moreover have "hd (take (Suc (length body)) (body @ extra)) = hd body" using assms(3) by (cases body) auto
  ultimately show ?thesis
    using assms try_extract_unknown by (simp add: try_parse_mbap unat_len1)
qed

lemma tcp_stuck_aux:
  fixes u :: u8 and tid :: u16
  assumes "\<not> is_known_function_code (hd body)" "hd body \<noteq> u" "body \<noteq> []" "length body \<le> 253"
  defines "f \<equiv> mbap tid (of_nat (length body) + 1) u body"
  assumes "sv_status sv = Serving" "sv_buf sv = f @ old" "[] \<notin> set pieces"
    and "length (sv_buf sv @ concat pieces) \<le> MAX_TCP_BUF_BYTES"
  shows "tcp_serve config svc (map Got pieces) sv = Some (sv \<lparr> sv_buf := sv_buf sv @ concat pieces \<rparr>)"
  using assms(6-9)
proof (induction pieces arbitrary: sv old)
  case (Cons p pieces)
  let ?sv = "sv \<lparr> sv_buf := sv_buf sv @ p \<rparr>"
  have buf: "sv_buf ?sv = f @ (old @ p)" using Cons.prems(2) by simp
  have "try_parse_tcp_frame (sv_buf ?sv) = None"
    unfolding buf f_def using assms(1-4) by (rule unknown_fc_parse)
  then have "serve_frames try_parse_tcp_frame (tcp_frame config) svc ?sv = Some ?sv"
    by (subst serve_frames.simps) simp
  moreover have "f @ (old @ p) = mbap tid (of_nat (length body) + 1) u (body @ old @ p)"
    by (simp add: f_def mbap_def)
  then have "\<not> is_tcp_header_corrupt (f @ (old @ p))"
    using assms(4) by (simp only: is_tcp_header_corrupt_mbap) (simp add: unat_len1)
  moreover have "length (sv_buf ?sv) \<le> MAX_TCP_BUF_BYTES" using Cons.prems(4) by simp
  ultimately have "tcp_serve_event config svc sv (Got p) = Some ?sv"
    using Cons.prems(3) buf by (auto simp: tcp_serve_event_def)
  moreover have "tcp_serve config svc (map Got pieces) ?sv = Some (?sv \<lparr> sv_buf := sv_buf ?sv @ concat pieces \<rparr>)"
    using Cons.prems buf by (intro Cons.IH) auto
  ultimately show ?case using Cons.prems(1) by simp
qed simp

section \<open>A unit id that looks like a function code\<close>

lemma misread_pdu:
  assumes "hi8 a = 6" "1 \<le> length ws" "length ws \<le> 123"
  shows "request_try_from (tl (request_pdu (Request.WriteMultipleRegisters a ws))) =
     Ok (Request.WriteSingleRegister (be16 (lo8 a) 0) (be16 (of_nat (length ws)) (of_nat (2 * length ws))))"
proof -
  have "unat (of_nat (length ws) :: u16) = length ws" using assms(3) by (intro unat_of_nat_u16) simp
  moreover have "unat (of_nat (length ws) :: u16) =
      256 * unat (hi8 (of_nat (length ws))) + unat (lo8 (of_nat (length ws)))"
    using unat_be16 [of "hi8 (of_nat (length ws))" "lo8 (of_nat (length ws))"] by simp
  ultimately have split: "length ws = 256 * unat (hi8 (of_nat (length ws))) + unat (lo8 (of_nat (length ws)))" by simp
  with assms(3) have hi: "hi8 (of_nat (length ws)) = 0" by (simp flip: unat_eq_zero)
  with split have "unat (lo8 (of_nat (length ws))) = length ws" by simp
  then have lo: "lo8 (of_nat (length ws)) = of_nat (length ws)"
    using assms(3) by (simp add: unat_eq_u8)
  show ?thesis
    using assms(1) hi lo
    by (simp add: decode_request_def decode_write_single_register_def mult.commute)
qed

lemma misread_seen:
  "hi8 a = 6 \<Longrightarrow> 1 \<le> length ws \<Longrightarrow> length ws \<le> 123 \<Longrightarrow>
     tcp_seen 16 (request_pdu (Request.WriteMultipleRegisters a ws)) = tl (request_pdu (Request.WriteMultipleRegisters a ws))"
  using misread_pdu [of a ws] by (simp add: tcp_seen_def shadowed_def del: list.sel(3))

end
