(* ===== verification/Modbus_Receive.thy ===== *)
theory Modbus_Receive
  imports Modbus_Rtu Modbus_Ascii Modbus_Tcp
begin

text \<open>
  Replies in pieces.  The bytes of a reply reach a client in any number of reads, cut anywhere and
  at any times before its deadline; the receive loops of \<open>src/transport/send_recv.rs\<close>,
  \<open>rtu.rs\<close>, \<open>ascii.rs\<close> and \<open>tcp.rs\<close> put them together again.  For each transport: which result
  the exchange gives and at what time it returns.
\<close>

section \<open>Pieces\<close>

abbreviation data_arrivals :: "(nat \<times> bytes) list \<Rightarrow> (nat \<times> arrival) list" where
  "data_arrivals ps \<equiv> map (\<lambda>(t, p). (t, Data p)) ps"

abbreviation joined :: "(nat \<times> bytes) list \<Rightarrow> bytes" where
  "joined ps \<equiv> concat (map snd ps)"

text \<open>The clock after the pieces have been read, one after the other.\<close>

definition after_reads :: "nat \<Rightarrow> (nat \<times> bytes) list \<Rightarrow> nat" where
  "after_reads now ps = fold (\<lambda>(t, p) now. max now t) ps now"

definition timely :: "nat \<Rightarrow> (nat \<times> bytes) list \<Rightarrow> bool" where
  "timely deadline ps \<longleftrightarrow> (\<forall>(t, p) \<in> set ps. p \<noteq> [] \<and> t < deadline)"

lemma after_reads_simps [simp]:
  "after_reads now [] = now" "after_reads now ((t, p) # ps) = after_reads (max now t) ps"
  by (simp_all add: after_reads_def)

lemma after_reads_append: "after_reads now (ps @ qs) = after_reads (after_reads now ps) qs"
  by (simp add: after_reads_def)

lemma timely_simps [simp]:
  "timely deadline []" "timely deadline ((t, p) # ps) \<longleftrightarrow> p \<noteq> [] \<and> t < deadline \<and> timely deadline ps"
  by (auto simp: timely_def)

lemma timely_append [simp]: "timely deadline (ps @ qs) \<longleftrightarrow> timely deadline ps \<and> timely deadline qs"
  by (auto simp: timely_def)

lemma after_reads_less: "timely deadline ps \<Longrightarrow> now < deadline \<Longrightarrow> after_reads now ps < deadline"
  by (induction ps arbitrary: now) auto

lemma after_reads_ge: "now \<le> after_reads now ps"
proof (induction ps arbitrary: now)
  case (Cons tp ps)
  obtain t p where "tp = (t, p)" by (cases tp)
  then show ?case using Cons.IH [of "max now t"] by simp
qed simp

text \<open>Pieces in the order of their times end at the time of the last one.\<close>

lemma after_reads_sorted:
  "sorted (map fst ps) \<Longrightarrow> ps \<noteq> [] \<Longrightarrow> now \<le> fst (hd ps) \<Longrightarrow> after_reads now ps = fst (last ps)"
proof (induction ps arbitrary: now)
  case (Cons tp ps)
  obtain t p where tp: "tp = (t, p)" by (cases tp)
  show ?case
  proof (cases ps)
    case Nil
    with Cons.prems tp show ?thesis by simp
  next
    case (Cons tq qs)
    with Cons.prems tp have "t \<le> fst (hd ps)" by auto
    then show ?thesis using Cons.IH [of t] Cons.prems tp Cons by (simp add: max_def)
  qed
qed simp

section \<open>One read\<close>

lemma read_timed_data:
  assumes "arrivals st = (t, Data bs) # rest" "bs \<noteq> []" "t \<le> clock st + wait"
  obtains st' where "read_timed wait st = (Got bs, st')" "arrivals st' = rest" "sent st' = sent st"
    "clock st' = max (clock st) t"
proof -
  obtain b bs' where bs: "bs = b # bs'" using assms(2) by (cases bs) auto
  let ?later = "st \<lparr> clock := max (clock st) t, arrivals := rest \<rparr>"
  show thesis
    using assms bs by (intro that [of "record_tap (TapRx bs) (touch_bus ?later)"])
      (auto simp: read_timed_def Let_def read_event_def, auto simp: record_tap_def touch_bus_def)
qed

lemma read_timed_silent:
  "arrivals st = [] \<Longrightarrow> read_timed wait st = (Elapsed, st \<lparr> clock := clock st + wait \<rparr>)"
  by (simp add: read_timed_def)

section \<open>Reading at least so many bytes\<close>

text \<open>With enough bytes on the line the loop stops at the first piece that makes them enough.\<close>

lemma read_at_least_pieces:
  assumes "arrivals st = data_arrivals ps" "timely deadline ps" "clock st < deadline"
    and "least \<le> length buf + length (joined ps)"
  obtains qs rs st' where "ps = qs @ rs" "least \<le> length buf + length (joined qs)"
    "read_at_least st buf deadline least = (Inr (length buf + length (joined qs)), buf @ joined qs, st')"
    "arrivals st' = data_arrivals rs" "sent st' = sent st" "clock st' = after_reads (clock st) qs"
    "qs = [] \<or> length buf + length (joined (butlast qs)) < least"
  using assms
proof (induction ps arbitrary: st buf thesis)
  case Nil
  then have "read_at_least st buf deadline least = (Inr (length buf), buf, st)"
    by (subst read_at_least.simps) simp
  with Nil show ?case by (intro Nil.prems(1) [of "[]" "[]" st]) simp_all
next
  case (Cons tp ps)
  obtain t p where tp: "tp = (t, p)" by (cases tp)
  show ?case
  proof (cases "length buf < least")
    case False
    then have "read_at_least st buf deadline least = (Inr (length buf), buf, st)"
      by (subst read_at_least.simps) simp
    with False Cons.prems show ?thesis by (intro Cons.prems(1) [of "[]" "tp # ps" st]) simp_all
  next
    case True
    have p: "p \<noteq> []" "t < deadline" "timely deadline ps" using Cons.prems(3) tp by simp_all
    have arr: "arrivals st = (t, Data p) # data_arrivals ps" using Cons.prems(2) tp by simp
    have "t \<le> clock st + (deadline - clock st)" using p(2) by simp
    with arr p(1) obtain st1 where read: "read_timed (deadline - clock st) st = (Got p, st1)"
      and st1: "arrivals st1 = data_arrivals ps" "sent st1 = sent st" "clock st1 = max (clock st) t"
      by (rule read_timed_data)
    have step: "read_at_least st buf deadline least = read_at_least st1 (buf @ p) deadline least"
      using True read p(1) Cons.prems(4) by (subst read_at_least.simps) (simp add: Let_def)
    have "clock st1 < deadline" using st1(3) p(2) Cons.prems(4) by simp
    moreover have "least \<le> length (buf @ p) + length (joined ps)" using Cons.prems(5) tp by simp
    ultimately obtain qs rs st' where ih: "ps = qs @ rs" "least \<le> length (buf @ p) + length (joined qs)"
      "read_at_least st1 (buf @ p) deadline least =
         (Inr (length (buf @ p) + length (joined qs)), (buf @ p) @ joined qs, st')"
      "arrivals st' = data_arrivals rs" "sent st' = sent st1" "clock st' = after_reads (clock st1) qs"
      "qs = [] \<or> length (buf @ p) + length (joined (butlast qs)) < least"
      using Cons.IH [OF _ st1(1) p(3)] by blast
    show ?thesis
      by (rule Cons.prems(1) [of "tp # qs" rs st']) (use ih step st1 tp True in \<open>auto simp: add.assoc\<close>)
  qed
qed

text \<open>With fewer it reads all and waits for more until the deadline.\<close>

lemma read_at_least_short:
  assumes "arrivals st = data_arrivals ps" "timely deadline ps" "clock st < deadline"
    and "length buf + length (joined ps) < least" "buf @ joined ps \<noteq> []"
  obtains st' where
    "read_at_least st buf deadline least = (Inr (length buf + length (joined ps)), buf @ joined ps, st')"
    "arrivals st' = []" "sent st' = sent st" "clock st' = deadline"
  using assms
proof (induction ps arbitrary: st buf thesis)
  case Nil
  then have "read_at_least st buf deadline least = (Inr (length buf), buf, st \<lparr> clock := deadline \<rparr>)"
    by (subst read_at_least.simps) (simp add: Let_def read_timed_silent)
  with Nil show ?case by (intro Nil.prems(1) [of "st \<lparr> clock := deadline \<rparr>"]) simp_all
next
  case (Cons tp ps)
  obtain t p where tp: "tp = (t, p)" by (cases tp)
  have p: "p \<noteq> []" "t < deadline" "timely deadline ps" using Cons.prems(3) tp by simp_all
  have arr: "arrivals st = (t, Data p) # data_arrivals ps" using Cons.prems(2) tp by simp
  have "t \<le> clock st + (deadline - clock st)" using p(2) by simp
  with arr p(1) obtain st1 where read: "read_timed (deadline - clock st) st = (Got p, st1)"
    and st1: "arrivals st1 = data_arrivals ps" "sent st1 = sent st" "clock st1 = max (clock st) t"
    by (rule read_timed_data)
  have "length buf < least" using Cons.prems(5) by simp
  then have step: "read_at_least st buf deadline least = read_at_least st1 (buf @ p) deadline least"
    using read p(1) Cons.prems(4) by (subst read_at_least.simps) (simp add: Let_def)
  have "clock st1 < deadline" using st1(3) p(2) Cons.prems(4) by simp
  with Cons.prems tp p st1(1) obtain st' where "read_at_least st1 (buf @ p) deadline least =
      (Inr (length (buf @ p) + length (joined ps)), (buf @ p) @ joined ps, st')"
    "arrivals st' = []" "sent st' = sent st1" "clock st' = deadline"
    using Cons.IH [OF _ st1(1) p(3), of "buf @ p"] by (auto simp: add.assoc)
  with step st1 tp show ?case by (intro Cons.prems(1) [of st']) (simp_all add: add.assoc)
qed

section \<open>The serial clients\<close>

text \<open>When a serial client has sent its request: after a quiet drain and the wait of its bus timing.\<close>

definition sent_at :: "stream \<Rightarrow> nat" where
  "sent_at st = clock (prepare_send (st \<lparr> clock := clock st + from_millis 1 \<rparr>))"

lemma sent_at_arrivals: "sent_at (st \<lparr> arrivals := x \<rparr>) = sent_at st"
  by (simp add: sent_at_def prepare_send_def now_micros_def split: list.split option.split)

text \<open>Nothing arrives during the drain.\<close>

definition after_drain :: "stream \<Rightarrow> (nat \<times> bytes) list \<Rightarrow> bool" where
  "after_drain st ps \<longleftrightarrow> (\<forall>(t, p) \<in> set ps. clock st + from_millis 1 < t)"

lemma quiet_drain:
  assumes "arrivals st = data_arrivals ps" "after_drain st ps"
  shows "drain_stale_data st = (Inr (), st \<lparr> clock := clock st + from_millis 1 \<rparr>)"
proof (rule drain_line_quiet)
  show "\<forall>ta \<in> set (take 1 (arrivals st)). clock st + from_millis 1 < fst ta"
    using assms by (cases ps) (auto simp: after_drain_def)
qed

lemma serial_request_sent:
  assumes "arrivals st = data_arrivals ps" "write_plan st = []" "request_fits req"
  obtains st' where
    "send_frame (prepare_send (st \<lparr> clock := clock st + from_millis 1 \<rparr>)) wb slave timeout req enc = (Inr (), [], st')"
    "sent st' = sent st @ [enc (slave # request_pdu req) []]" "arrivals st' = data_arrivals ps" "clock st' = sent_at st"
proof -
  let ?st1 = "prepare_send (st \<lparr> clock := clock st + from_millis 1 \<rparr>)"
  have same: "same_line (st \<lparr> clock := clock st + from_millis 1 \<rparr>) ?st1" by (rule same_line_prepare)
  then have "write_plan ?st1 = []" using assms(2) by (simp add: same_line_def)
  from send_frame_written [OF this assms(3), of wb slave timeout enc]
  obtain st' where "send_frame ?st1 wb slave timeout req enc = (Inr (), [], st')"
    "sent st' = sent ?st1 @ [enc (slave # request_pdu req) []]" "arrivals st' = arrivals ?st1" "clock st' = clock ?st1"
    by blast
  then show thesis using same assms(1) by (intro that [of st']) (simp_all add: same_line_def sent_at_def)
qed

lemma all_pieces_read:
  assumes "ps = qs @ rs" "length (joined ps) < length (joined qs) + length (snd (last ps))"
  shows "rs = []"
  using assms by (cases rs rule: rev_cases) auto

lemma last_piece: "timely deadline ps \<Longrightarrow> ps \<noteq> [] \<Longrightarrow> 1 \<le> length (snd (last ps))"
  by (cases ps rule: rev_cases) (auto simp: Suc_le_eq)

lemma rtu_exchange_pieces:
  fixes inner :: inner
  defines "st \<equiv> in_stream inner"
  assumes line: "arrivals st = data_arrivals ps" "joined ps = encode_rtu_frame (slave # pdu) []" "write_plan st = []"
    and time: "after_drain st ps" "timely (sent_at st + timeout) ps" "0 < timeout"
    and req: "request_fits req" "expected_rtu_pdu_len req = Some n"
    and rsp: "2 \<le> length pdu" "length pdu \<le> n" "response_try_from pdu = Ok rsp"
  defines "out \<equiv> rtu_send_recv timeout slave req inner"
  shows "fst out = Inr rsp"
    and "sent (in_stream (snd out)) = sent st @ [encode_rtu_frame (slave # request_pdu req) []]"
    and "clock (in_stream (snd out)) = (if length pdu = n then after_reads (sent_at st) ps else sent_at st + timeout)"
proof -
  let ?reply = "encode_rtu_frame (slave # pdu) []" and ?deadline = "sent_at st + timeout"
  note drain = quiet_drain [OF line(1) time(1)]
  obtain st2 where send: "send_frame (prepare_send (st \<lparr> clock := clock st + from_millis 1 \<rparr>)) (in_write_buf inner)
      slave timeout req encode_rtu_frame = (Inr (), [], st2)"
    and st2: "sent st2 = sent st @ [encode_rtu_frame (slave # request_pdu req) []]"
      "arrivals st2 = data_arrivals ps" "clock st2 = sent_at st"
    by (rule serial_request_sent [OF line(1,3) req(1)])
  have len: "length (joined ps) = length pdu + 3" by (simp add: line(2) encode_rtu_frame_eq)
  have now: "clock st2 < ?deadline" using st2(3) time(3) by simp
  obtain st3 where recv: "read_at_least st2 [] ?deadline (n + 3) = (Inr (length ?reply), ?reply, st3)"
    and st3: "sent st3 = sent st2" "clock st3 = (if length pdu = n then after_reads (sent_at st) ps else ?deadline)"
  proof (cases "length pdu = n")
    case True
    then have "n + 3 \<le> length ([] :: bytes) + length (joined ps)" using len by simp
    with st2(2) time(2) now obtain qs rs st3 where q: "ps = qs @ rs" "n + 3 \<le> length ([] :: bytes) + length (joined qs)"
      "read_at_least st2 [] ?deadline (n + 3) = (Inr (length ([] :: bytes) + length (joined qs)), [] @ joined qs, st3)"
      "arrivals st3 = data_arrivals rs" "sent st3 = sent st2" "clock st3 = after_reads (clock st2) qs"
      "qs = [] \<or> length ([] :: bytes) + length (joined (butlast qs)) < n + 3"
      by (rule read_at_least_pieces)
    have "ps \<noteq> []" using len by auto
    with time(2) have "1 \<le> length (snd (last ps))" by (rule last_piece)
    then have "length (joined ps) < length (joined qs) + length (snd (last ps))"
      using q(2) len True unfolding list.size by linarith
    with q(1) have "rs = []" by (rule all_pieces_read)
    then have qs: "qs = ps" using q(1) by simp
    show thesis
      by (rule that [of st3]) (use q(3,5,6) True st2(3) line(2) in \<open>simp_all add: qs\<close>)
  next
    case False
    then have "length ([] :: bytes) + length (joined ps) < n + 3" using len rsp(2) by simp
    moreover have "[] @ joined ps \<noteq> []" using line(2) by (simp add: encode_rtu_frame_eq)
    ultimately obtain st3 where "read_at_least st2 [] ?deadline (n + 3) = (Inr (length ([] :: bytes) + length (joined ps)), [] @ joined ps, st3)"
      "arrivals st3 = []" "sent st3 = sent st2" "clock st3 = ?deadline"
      using read_at_least_short [OF st2(2) time(2) now] by metis
    with False show thesis using line(2) by (intro that [of st3]) simp_all
  qed
  have "out = (rtu_check_response slave ?reply, \<lparr> in_stream = st3, in_write_buf = [], in_read_buf = ?reply \<rparr>)"
    using drain send recv st2(3) req(2)
    by (simp add: out_def rtu_send_recv_def Let_def st_def CRC_SIZE_def numeral_3_eq_3)
  moreover have "rtu_check_response slave ?reply = Inr rsp"
    using rsp by (simp add: rtu_check_response_valid decode_response_pdu_def)
  ultimately show "fst out = Inr rsp"
    and "sent (in_stream (snd out)) = sent st @ [encode_rtu_frame (slave # request_pdu req) []]"
    and "clock (in_stream (snd out)) = (if length pdu = n then after_reads (sent_at st) ps else sent_at st + timeout)"
    using st3 st2 by simp_all
qed

text \<open>The ASCII client looks for a whole line after every read, so it returns with the last piece.\<close>

lemma ascii_recv_pieces:
  assumes "arrivals st = data_arrivals ps" "timely deadline ps" "clock st < deadline" "ps \<noteq> []"
    and "buf @ joined ps = encode_ascii_frame data"
    and "try_parse_ascii_response (encode_ascii_frame data) slave = Some r"
  obtains st' where "ascii_recv st buf deadline slave = (r, encode_ascii_frame data, st')"
    "arrivals st' = []" "sent st' = sent st" "clock st' = after_reads (clock st) ps"
  using assms
proof (induction ps arbitrary: st buf thesis)
  case (Cons tp ps)
  obtain t p where tp: "tp = (t, p)" by (cases tp)
  have p: "p \<noteq> []" "t < deadline" "timely deadline ps" using Cons.prems(3) tp by simp_all
  have arr: "arrivals st = (t, Data p) # data_arrivals ps" using Cons.prems(2) tp by simp
  have "t \<le> clock st + (deadline - clock st)" using p(2) by simp
  with arr p(1) obtain st1 where read: "read_timed (deadline - clock st) st = (Got p, st1)"
    and st1: "arrivals st1 = data_arrivals ps" "sent st1 = sent st" "clock st1 = max (clock st) t"
    by (rule read_timed_data)
  have frame: "(buf @ p) @ joined ps = encode_ascii_frame data" using Cons.prems(6) tp by simp
  show ?case
  proof (cases "ps = []")
    case True
    with frame Cons.prems(4,7) read p(1) have "ascii_recv st buf deadline slave = (r, encode_ascii_frame data, st1)"
      by (subst ascii_recv.simps) (simp add: Let_def)
    with True st1 tp show ?thesis by (intro Cons.prems(1) [of st1]) simp_all
  next
    case False
    then have "joined ps \<noteq> []" using p(3) by (cases ps) auto
    then have "ascii_parse (buf @ p) = None"
      using encode_ascii_frame_prefix [OF frame] by (simp add: ascii_parse_no_crlf)
    then have "try_parse_ascii_response (buf @ p) slave = None"
      by (simp add: ascii_parse_def try_parse_ascii_response_def)
    with Cons.prems(4) read p(1) have step: "ascii_recv st buf deadline slave = ascii_recv st1 (buf @ p) deadline slave"
      by (subst ascii_recv.simps) (simp add: Let_def)
    have "clock st1 < deadline" using st1(3) p(2) Cons.prems(4) by simp
    from Cons.IH [OF _ st1(1) p(3) this False frame Cons.prems(7)] obtain st'
      where "ascii_recv st1 (buf @ p) deadline slave = (r, encode_ascii_frame data, st')" "arrivals st' = []"
        "sent st' = sent st1" "clock st' = after_reads (clock st1) ps" by metis
    with step st1 tp show ?thesis by (intro Cons.prems(1) [of st']) simp_all
  qed
qed simp

lemma ascii_exchange_pieces:
  fixes inner :: inner
  defines "st \<equiv> in_stream inner"
  assumes line: "arrivals st = data_arrivals ps" "joined ps = encode_ascii_frame (slave # pdu)" "write_plan st = []"
    and time: "after_drain st ps" "timely (sent_at st + timeout) ps" "0 < timeout"
    and req: "request_fits req" "req \<noteq> Request.Disconnect"
    and rsp: "pdu \<noteq> []" "response_try_from pdu = Ok rsp"
  defines "out \<equiv> ascii_send_recv timeout slave req inner"
  shows "fst out = Inr rsp"
    and "sent (in_stream (snd out)) = sent st @ [encode_ascii_frame (slave # request_pdu req)]"
    and "clock (in_stream (snd out)) = after_reads (sent_at st) ps"
proof -
  let ?reply = "encode_ascii_frame (slave # pdu)"
  note drain = quiet_drain [OF line(1) time(1)]
  obtain st2 where send: "send_frame (prepare_send (st \<lparr> clock := clock st + from_millis 1 \<rparr>)) (in_write_buf inner)
      slave timeout req encode_ascii_frame_into = (Inr (), [], st2)"
    and st2: "sent st2 = sent st @ [encode_ascii_frame_into (slave # request_pdu req) []]"
      "arrivals st2 = data_arrivals ps" "clock st2 = sent_at st"
    by (rule serial_request_sent [OF line(1,3) req(1)])
  have now: "clock st2 < sent_at st + timeout" using st2(3) time(3) by simp
  have "ps \<noteq> []" using line(2) by (auto simp: encode_ascii_line)
  moreover have "[] @ joined ps = ?reply" using line(2) by simp
  moreover have "try_parse_ascii_response ?reply slave = Some (Inr rsp)"
    using try_parse_ascii_frame_aux [of "[]" pdu slave "[]"] rsp
    by (simp add: try_parse_ascii_response_def decode_response_pdu_def)
  ultimately obtain st3 where recv: "ascii_recv st2 [] (sent_at st + timeout) slave = (Inr rsp, ?reply, st3)"
    and st3: "sent st3 = sent st2" "clock st3 = after_reads (clock st2) ps"
    using ascii_recv_pieces [OF st2(2) time(2) now] by metis
  have "out = (Inr rsp, \<lparr> in_stream = st3, in_write_buf = [], in_read_buf = ?reply \<rparr>)"
    using drain send recv st2(3) req(2) by (simp add: out_def ascii_send_recv_def Let_def st_def)
  then show "fst out = Inr rsp"
    and "sent (in_stream (snd out)) = sent st @ [encode_ascii_frame (slave # request_pdu req)]"
    and "clock (in_stream (snd out)) = after_reads (sent_at st) ps"
    using st3 st2 by (simp_all add: encode_ascii_frame_def)
qed

section \<open>The TCP client\<close>

text \<open>The PDU in the body of an answer: a gateway repeats the unit id before it.\<close>

definition body_pdu :: "TcpConfig \<Rightarrow> u8 \<Rightarrow> bytes \<Rightarrow> bytes" where
  "body_pdu config slave body =
     (if unit_id_in_body config \<and> 1 < length body \<and> hd body = slave then tl body else body)"

lemma tcp_extract_body:
  assumes "unat len = Suc (length body) \<or> unat len = length body" "body \<noteq> []"
  shows "tcp_extract_response config slave (unat len) (mbap tid len u body) =
     decode_response_pdu (body_pdu config slave body)"
proof -
  have "drop 7 (mbap tid len u body) = body" by (simp add: mbap_def)
  with assms show ?thesis
    by (auto simp: tcp_extract_response_def body_pdu_def frame_consts Let_def hd_conv_nth drop_Suc)
qed

text \<open>
  The two phases stop together at the first piece that makes the shorter reading of the length field
  complete.  What follows is the wait for the byte that the longer reading has more.
\<close>

lemma tcp_two_phases:
  assumes "arrivals st = data_arrivals ps" "timely deadline ps" "clock st < deadline"
    and frame: "joined ps = mbap tid len u body" "body \<noteq> []" "length body \<le> 259"
    and len: "unat len = Suc (length body) \<or> unat len = length body"
  obtains qs rs st2 where "ps = qs @ rs" "6 + unat len \<le> length (joined qs)"
    "length (joined (butlast qs)) < 6 + unat len"
    "arrivals st2 = data_arrivals rs" "sent st2 = sent st" "clock st2 = after_reads (clock st) qs" "clock st2 < deadline"
    "tcp_receive config slave deadline st =
      (let (buf, st3) = tcp_extra_read deadline (7 + unat len) (joined qs) st2
       in (tcp_extract_response config slave (unat len) buf, buf, st3))"
proof -
  have "7 \<le> length ([] :: bytes) + length (joined ps)" by (simp add: frame)
  with assms(1-3) obtain qs rs st1 where first: "ps = qs @ rs" "7 \<le> length ([] :: bytes) + length (joined qs)"
    "read_at_least st [] deadline 7 = (Inr (length ([] :: bytes) + length (joined qs)), [] @ joined qs, st1)"
    "arrivals st1 = data_arrivals rs" "sent st1 = sent st" "clock st1 = after_reads (clock st) qs"
    "qs = [] \<or> length ([] :: bytes) + length (joined (butlast qs)) < 7"
    by (rule read_at_least_pieces)
  let ?head = "joined qs"
  have time: "timely deadline qs" "timely deadline rs" using assms(2) first(1) by simp_all
  then have before: "clock st1 < deadline" using first(6) after_reads_less assms(3) by simp
  have all: "?head @ joined rs = mbap tid len u body" using frame(1) first(1) by simp
  then have nth: "?head ! i = mbap tid len u body ! i" if "i < 7" for i
    unfolding all [symmetric] using that first(2) by (simp add: nth_append)
  have total: "length ?head + length (joined rs) = 7 + length body"
    using arg_cong [OF all, of length] by simp
  then have "6 + unat len \<le> length ?head + length (joined rs)" using len by auto
  with first(4) time(2) before obtain qs' rs' st2 where second: "rs = qs' @ rs'"
    "6 + unat len \<le> length ?head + length (joined qs')"
    "read_at_least st1 ?head deadline (6 + unat len) = (Inr (length ?head + length (joined qs')), ?head @ joined qs', st2)"
    "arrivals st2 = data_arrivals rs'" "sent st2 = sent st1" "clock st2 = after_reads (clock st1) qs'"
    "qs' = [] \<or> length ?head + length (joined (butlast qs')) < 6 + unat len"
    by (rule read_at_least_pieces)
  have "7 \<le> 6 + unat len" using len frame(2) by (auto simp: Suc_le_eq)
  then have least: "length (joined (butlast (qs @ qs'))) < 6 + unat len"
    using second(7) first(2,7) by (cases "qs' = []") (auto simp: butlast_append)
  have clock: "clock st2 = after_reads (clock st) (qs @ qs')"
    using second(6) first(6) by (simp add: after_reads_append)
  moreover have "timely deadline (qs @ qs')" using time second(1) by simp
  ultimately have "clock st2 < deadline" using after_reads_less assms(3) by simp
  moreover have "unat len \<le> 260" using len frame(3) by auto
  with first(2,3) second(3) nth
  have "tcp_receive config slave deadline st =
      (let (buf, st3) = tcp_extra_read deadline (7 + unat len) (joined (qs @ qs')) st2
       in (tcp_extract_response config slave (unat len) buf, buf, st3))"
    by (simp add: tcp_receive_def frame_consts Let_def)
  ultimately show thesis
    using least clock first(1,5) second(1,2,4,5) by (intro that [of "qs @ qs'" rs' st2]) simp_all
qed

text \<open>
  When the length field counts the body alone, a last byte that comes alone is read by that wait, if
  it comes within 200 ms of the piece before it.  Otherwise the answer is cut short by it.
\<close>

definition last_byte_late :: "nat \<Rightarrow> (nat \<times> bytes) list \<Rightarrow> bool" where
  "last_byte_late now ps \<longleftrightarrow> length (snd (last ps)) = 1 \<and>
     after_reads now (butlast ps) + from_millis 200 < after_reads now ps"

lemma mbap_pieces:
  assumes "joined ps = mbap tid len u body" "timely deadline ps"
  shows "ps \<noteq> []" "1 \<le> length (snd (last ps))"
    "length (joined (butlast ps)) + length (snd (last ps)) = 7 + length body"
proof -
  show ne: "ps \<noteq> []" using assms(1) by (metis concat.simps(1) list.map(1) mbap_not_Nil)
  with assms(2) show "1 \<le> length (snd (last ps))" by (rule last_piece)
  have "joined ps = joined (butlast ps) @ snd (last ps)"
    using ne by (cases ps rule: rev_cases) simp_all
  then show "length (joined (butlast ps)) + length (snd (last ps)) = 7 + length body"
    using arg_cong [OF assms(1), of length] by simp
qed

lemma tcp_receive_standard:
  assumes "arrivals st = data_arrivals ps" "timely deadline ps" "clock st < deadline"
    and frame: "joined ps = mbap tid len u body" "body \<noteq> []" "length body \<le> 259" and len: "unat len = Suc (length body)"
  defines "now \<equiv> after_reads (clock st) ps"
  obtains st' where "tcp_receive config slave deadline st =
      (decode_response_pdu (body_pdu config slave body), mbap tid len u body, st')"
    "sent st' = sent st" "clock st' = now + min (deadline - now) (from_millis 200)"
proof -
  obtain qs rs st2 where two: "ps = qs @ rs" "6 + unat len \<le> length (joined qs)"
    "length (joined (butlast qs)) < 6 + unat len"
    "arrivals st2 = data_arrivals rs" "sent st2 = sent st" "clock st2 = after_reads (clock st) qs" "clock st2 < deadline"
    "tcp_receive config slave deadline st =
      (let (buf, st3) = tcp_extra_read deadline (7 + unat len) (joined qs) st2
       in (tcp_extract_response config slave (unat len) buf, buf, st3))"
    by (rule tcp_two_phases [OF assms(1-3) frame disjI1 [OF len], of config slave])
  have "length (joined ps) < length (joined qs) + length (snd (last ps))"
    using two(2) len mbap_pieces(2) [OF frame(1) assms(2)] arg_cong [OF frame(1), of length] by simp
  with two(1) have "rs = []" by (rule all_pieces_read)
  then have all: "qs = ps" "arrivals st2 = []" using two(1,4) by simp_all
  let ?st3 = "st2 \<lparr> clock := now + min (deadline - now) (from_millis 200) \<rparr>"
  have "tcp_extra_read deadline (7 + unat len) (joined qs) st2 = (mbap tid len u body, ?st3)"
    using two(6,7) all frame(1) len by (auto simp: tcp_extra_read_def read_timed_silent Let_def now_def)
  moreover have "tcp_extract_response config slave (unat len) (mbap tid len u body) =
      decode_response_pdu (body_pdu config slave body)"
    using len frame(2) by (intro tcp_extract_body) auto
  ultimately show thesis using two(5,8) by (intro that [of ?st3]) simp_all
qed

lemma tcp_extract_cut_body:
  assumes "unat len = length body" "1 < length body"
  shows "tcp_extract_response config slave (unat len) (take (6 + length body) (mbap tid len u body)) =
     decode_response_pdu (body_pdu config slave (butlast body))"
proof -
  have "drop 7 (take (6 + length body) (mbap tid len u body)) = butlast body"
    by (simp add: mbap_def drop_take butlast_conv_take)
  moreover have "butlast body \<noteq> []" using assms(2) by (cases body rule: rev_cases) auto
  ultimately show ?thesis
    using assms by (auto simp: tcp_extract_response_def body_pdu_def frame_consts Let_def hd_conv_nth drop_Suc)
qed

lemma tcp_receive_pdu_only:
  assumes "arrivals st = data_arrivals ps" "timely deadline ps" "clock st < deadline"
    and frame: "joined ps = mbap tid len u body" "1 < length body" "length body \<le> 259" and len: "unat len = length body"
  defines "late \<equiv> last_byte_late (clock st) ps"
  obtains buf st' where "tcp_receive config slave deadline st =
      (decode_response_pdu (body_pdu config slave (if late then butlast body else body)), buf, st')"
    "sent st' = sent st"
    "clock st' = (if late then after_reads (clock st) (butlast ps) + from_millis 200 else after_reads (clock st) ps)"
proof -
  have body: "body \<noteq> []" using frame(2) by auto
  obtain qs rs st2 where two: "ps = qs @ rs" "6 + unat len \<le> length (joined qs)"
    "length (joined (butlast qs)) < 6 + unat len"
    "arrivals st2 = data_arrivals rs" "sent st2 = sent st" "clock st2 = after_reads (clock st) qs" "clock st2 < deadline"
    "tcp_receive config slave deadline st =
      (let (buf, st3) = tcp_extra_read deadline (7 + unat len) (joined qs) st2
       in (tcp_extract_response config slave (unat len) buf, buf, st3))"
    by (rule tcp_two_phases [OF assms(1-3) frame(1) body frame(3) disjI2 [OF len], of config slave])
  note pieces = mbap_pieces [OF frame(1) assms(2)]
  have whole: "tcp_extract_response config slave (unat len) (mbap tid len u body) =
      decode_response_pdu (body_pdu config slave body)"
    using len body by (intro tcp_extract_body) auto
  show thesis
  proof (cases "rs = []")
    case True
    then have qs: "qs = ps" using two(1) by simp
    have "\<not> late" using two(3) qs len pieces(3) by (auto simp: late_def last_byte_late_def)
    moreover have "tcp_extra_read deadline (7 + unat len) (joined qs) st2 = (mbap tid len u body, st2)"
      using qs frame(1) len by (simp add: tcp_extra_read_def)
    ultimately show thesis using two(5,6,8) qs whole by (intro that [of "mbap tid len u body" st2]) simp_all
  next
    case False
    then obtain rs' t p where last: "rs = rs' @ [(t, p)]" by (cases rs rule: rev_cases) auto
    have sum: "length (joined qs) + length (joined rs) = 7 + length body"
      using arg_cong [OF frame(1), of length] two(1) by simp
    have p: "p \<noteq> []" "t < deadline" and rs': "timely deadline rs'" using assms(2) two(1) last by simp_all
    have "length (joined rs') + length p \<le> 1" using sum two(2) len last by simp
    moreover have "1 \<le> length p" using p(1) by (simp add: Suc_le_eq)
    ultimately have "length (joined rs') = 0" and one: "length p = 1" by linarith+
    then have "joined rs' = []" by (simp only: length_0_conv)
    then have "rs' = []" using rs' by (cases rs') auto
    then have ps: "ps = qs @ [(t, p)]" using two(1) last by simp
    have now: "after_reads (clock st) ps = max (clock st2) t" by (simp add: ps after_reads_append two(6))
    have buf: "joined qs @ p = mbap tid len u body" using frame(1) ps by simp
    have short: "length (joined qs) = 6 + length body" using arg_cong [OF buf, of length] one by simp
    let ?wait = "min (deadline - clock st2) (from_millis 200)"
    have arr: "arrivals st2 = (t, Data p) # []" using two(4) last \<open>rs' = []\<close> by simp
    have late: "late \<longleftrightarrow> clock st2 + from_millis 200 < t"
      using one by (auto simp: late_def last_byte_late_def now) (simp_all add: ps two(6))
    show thesis
    proof (cases late)
      case True
      then have wait: "?wait = from_millis 200" using late p(2) by simp
      let ?st3 = "st2 \<lparr> clock := clock st2 + from_millis 200 \<rparr>"
      have "tcp_extra_read deadline (7 + unat len) (joined qs) st2 = (joined qs, ?st3)"
        using True late two(7) arr wait short len by (simp add: tcp_extra_read_def read_timed_def Let_def)
      moreover have "joined qs = take (6 + length body) (mbap tid len u body)"
        unfolding buf [symmetric] short [symmetric] by simp
      ultimately show thesis
        using two(5,6,8) True tcp_extract_cut_body [OF len frame(2), of config slave tid u]
        by (intro that [of "joined qs" ?st3]) (simp_all add: ps)
    next
      case False
      then have "t \<le> clock st2 + ?wait" using late p(2) two(7) by simp
      with arr p(1) obtain st3 where "read_timed ?wait st2 = (Got p, st3)" and st3: "sent st3 = sent st2" "clock st3 = max (clock st2) t"
        by (rule read_timed_data) auto
      then have "tcp_extra_read deadline (7 + unat len) (joined qs) st2 = (mbap tid len u body, st3)"
        using two(7) short len buf by (simp add: tcp_extra_read_def Let_def)
      then show thesis
        using two(5,8) False whole st3 by (intro that [of "mbap tid len u body" st3]) (simp_all add: now)
    qed
  qed
qed

text \<open>Whether an answer framed as the client's configuration says is cut short, and when it is returned.\<close>

definition cut_short :: "TcpConfig \<Rightarrow> nat \<Rightarrow> (nat \<times> bytes) list \<Rightarrow> bool" where
  "cut_short config start ps \<longleftrightarrow> length_mode config = PduOnly \<and> last_byte_late start ps"

definition answered_at :: "TcpConfig \<Rightarrow> nat \<Rightarrow> nat \<Rightarrow> (nat \<times> bytes) list \<Rightarrow> nat" where
  "answered_at config start deadline ps =
     (case length_mode config of
        Standard \<Rightarrow> after_reads start ps + min (deadline - after_reads start ps) (from_millis 200)
      | PduOnly \<Rightarrow> if last_byte_late start ps then after_reads start (butlast ps) + from_millis 200 else after_reads start ps)"

lemma response_length_2: "response_try_from pdu = Ok rsp \<Longrightarrow> 2 \<le> length pdu"
proof (cases pdu rule: list.exhaust)
  case (Cons fc data)
  assume "response_try_from pdu = Ok rsp"
  with Cons show ?thesis
    by (cases data)
      (auto simp: decode_response_def decode_bits_response_def decode_regs_response_def read_two_def outcome_simps split: if_splits)
qed simp

lemma encode_tcp_lengths:
  assumes "length pdu \<le> 253"
  obtains len where
    "encode_tcp_frame (u # pdu) [] config tid = mbap tid len u (if unit_id_in_body config then u # pdu else pdu)"
    "unat len = length (if unit_id_in_body config then u # pdu else pdu) + (case length_mode config of Standard \<Rightarrow> 1 | PduOnly \<Rightarrow> 0)"
proof -
  let ?n = "length (if unit_id_in_body config then u # pdu else pdu) + (case length_mode config of Standard \<Rightarrow> 1 | PduOnly \<Rightarrow> 0)"
  have "encode_tcp_frame (u # pdu) [] config tid = mbap tid (of_nat ?n) u (if unit_id_in_body config then u # pdu else pdu)"
    by (simp add: encode_tcp_mbap algebra_simps split: LengthMode.split)
  moreover have "unat (of_nat ?n :: u16) = ?n" using assms by (intro unat_of_nat_u16) (simp split: LengthMode.split)
  ultimately show thesis by (rule that)
qed

lemma tcp_exchange_pieces:
  fixes inner :: inner and slave u :: u8 and counter :: u16
  defines "st \<equiv> in_stream inner"
  defines "start \<equiv> clock st + from_millis 1"
  assumes line: "arrivals st = data_arrivals ps" "joined ps = encode_tcp_frame (u # pdu) [] config tid" "write_plan st = []"
    and time: "after_drain st ps" "timely (start + timeout) ps" "0 < timeout"
    and req: "request_fits req" and rsp: "length pdu \<le> 253" "response_try_from pdu = Ok rsp"
    and config: "unit_id_in_body config \<Longrightarrow> u = slave"
  defines "out \<equiv> tcp_send_recv timeout config slave req (inner, counter)"
  shows "fst out = (if cut_short config start ps then decode_response_pdu (butlast pdu) else Inr rsp)"
    and "sent (in_stream (fst (snd out))) = sent st @
           [encode_tcp_frame (slave # request_pdu req) [] config (fst (next_tid (tid_mode config) counter))]"
    and "clock (in_stream (fst (snd out))) = answered_at config start (start + timeout) ps"
proof -
  obtain tid' counter' where tid: "next_tid (tid_mode config) counter = (tid', counter')" by fastforce
  let ?st1 = "st \<lparr> clock := start \<rparr>" and ?enc = "\<lambda>data buf. encode_tcp_frame data buf config tid'"
  let ?deadline = "start + timeout" and ?late = "cut_short config start ps"
  let ?body = "if unit_id_in_body config then u # pdu else pdu"
  note drain = quiet_drain [OF line(1) time(1), folded start_def]
  have "write_plan ?st1 = []" using line by simp
  from send_frame_written [OF this req, of "in_write_buf inner" slave timeout ?enc]
  obtain st2 where send: "send_frame ?st1 (in_write_buf inner) slave timeout req ?enc = (Inr (), [], st2)"
    and st2: "sent st2 = sent st @ [?enc (slave # request_pdu req) []]" "arrivals st2 = data_arrivals ps" "clock st2 = start"
    using line(1) by auto
  obtain len where frame: "joined ps = mbap tid len u ?body"
    and len: "unat len = length ?body + (case length_mode config of Standard \<Rightarrow> 1 | PduOnly \<Rightarrow> 0)"
    using encode_tcp_lengths [OF rsp(1), of u config tid] line(2) by metis
  have two: "2 \<le> length pdu" using rsp(2) by (rule response_length_2)
  then have body: "1 < length ?body" "?body \<noteq> []" "length ?body \<le> 259" using rsp(1) by auto
  have now: "clock st2 < ?deadline" using st2(3) time(3) by simp
  obtain buf st3 where recv: "tcp_receive config slave ?deadline st2 =
      (decode_response_pdu (body_pdu config slave (if ?late then butlast ?body else ?body)), buf, st3)"
    and st3: "sent st3 = sent st2" "clock st3 = answered_at config start ?deadline ps"
  proof (cases "length_mode config")
    case Standard
    then have "unat len = Suc (length ?body)" using len by simp
    from tcp_receive_standard [OF st2(2) time(2) now frame body(2,3) this, of config slave] obtain st3
      where recv: "tcp_receive config slave ?deadline st2 =
          (decode_response_pdu (body_pdu config slave ?body), mbap tid len u ?body, st3)"
        "sent st3 = sent st2" "clock st3 = after_reads start ps + min (?deadline - after_reads start ps) (from_millis 200)"
      unfolding st2(3) by metis
    have "\<not> ?late" using Standard by (simp add: cut_short_def)
    with recv Standard show thesis
      by (intro that [of "mbap tid len u ?body" st3]) (simp_all only: answered_at_def if_False LengthMode.case)
  next
    case PduOnly
    then have "unat len = length ?body" using len by simp
    from tcp_receive_pdu_only [OF st2(2) time(2) now frame body(1,3) this, of config slave] obtain buf st3
      where recv: "tcp_receive config slave ?deadline st2 =
          (decode_response_pdu (body_pdu config slave (if last_byte_late start ps then butlast ?body else ?body)), buf, st3)"
        "sent st3 = sent st2"
        "clock st3 = (if last_byte_late start ps then after_reads start (butlast ps) + from_millis 200 else after_reads start ps)"
      unfolding st2(3) by metis
    have "?late \<longleftrightarrow> last_byte_late start ps" using PduOnly by (simp add: cut_short_def)
    with recv PduOnly show thesis
      by (intro that [of buf st3]) (simp_all only: answered_at_def LengthMode.case)
  qed
  have "body_pdu config slave (if ?late then butlast ?body else ?body) = (if ?late then butlast pdu else pdu)"
  proof (cases "unit_id_in_body config")
    case True
    have ne: "pdu \<noteq> []" using two by auto
    have "length (butlast pdu) \<noteq> 0" using two by (simp only: length_butlast)
    then have "butlast pdu \<noteq> []" by (simp only: length_0_conv not_False_eq_True)
    with ne two show ?thesis using True config [OF True] by (simp add: body_pdu_def)
  qed (simp add: body_pdu_def)
  moreover have "decode_response_pdu pdu = Inr rsp" using rsp(2) by (simp add: decode_response_pdu_def)
  ultimately have out: "out = (if ?late then decode_response_pdu (butlast pdu) else Inr rsp,
      \<lparr> in_stream = st3, in_write_buf = [], in_read_buf = buf \<rparr>, counter')"
    using drain send recv tid st2(3) by (simp add: out_def tcp_send_recv_def Let_def st_def)
  then show "fst out = (if ?late then decode_response_pdu (butlast pdu) else Inr rsp)" by simp
  show "sent (in_stream (fst (snd out))) = sent st @
      [encode_tcp_frame (slave # request_pdu req) [] config (fst (next_tid (tid_mode config) counter))]"
    using out st3 st2 tid by simp
  show "clock (in_stream (fst (snd out))) = answered_at config start ?deadline ps"
    using out st3 by simp
qed

end
