(* ===== verification/Modbus_Client.thy ===== *)
theory Modbus_Client
  imports Modbus_Receive
begin

text \<open>
  \<open>src/client.rs\<close>: the default methods of the client trait over a transport's \<open>call\<close>.  A
  transport is a function of the slave, the request and a state.  The locale \<open>service_link\<close> is
  the contract of a transport whose other end is a server with a service, \<open>store_link\<close> the one
  over the store; the three transports, composed with their servers over an undisturbed line,
  are instances of it.
\<close>

section \<open>The client methods\<close>

type_synonym 's transport = "u8 \<Rightarrow> Request \<Rightarrow> 's \<Rightarrow> (ModbusError + Response) \<times> 's"

definition unexpected_response :: "Response \<Rightarrow> ModbusError" where
  "unexpected_response rsp =
     (case rsp of
        Response.Exception fc ex \<Rightarrow> ModbusError.Exception fc (u8_of_exception ex)
      | other \<Rightarrow> Protocol (''unexpected response: '' @ debug_response other))"

text \<open>\<open>match call(..)? { expected => Ok(..), other => Err(unexpected_response(other)) }\<close>.\<close>

definition expect :: "(Response \<Rightarrow> 'a option) \<Rightarrow> (ModbusError + Response) \<times> 's \<Rightarrow> (ModbusError + 'a) \<times> 's" where
  "expect f res =
     (case res of (r, s) \<Rightarrow>
        (case r of
           Inl e \<Rightarrow> Inl e
         | Inr rsp \<Rightarrow> (case f rsp of Some x \<Rightarrow> Inr x | None \<Rightarrow> Inl (unexpected_response rsp)), s))"

definition client_read_coils :: "'s transport \<Rightarrow> u8 \<Rightarrow> u16 \<Rightarrow> u16 \<Rightarrow> 's \<Rightarrow> (ModbusError + bool list) \<times> 's" where
  "client_read_coils call slave addr quantity s =
     expect (\<lambda>rsp. case rsp of Response.ReadCoils bits \<Rightarrow> Some bits | _ \<Rightarrow> None)
       (call slave (Request.ReadCoils addr quantity) s)"

definition client_read_discrete_inputs ::
  "'s transport \<Rightarrow> u8 \<Rightarrow> u16 \<Rightarrow> u16 \<Rightarrow> 's \<Rightarrow> (ModbusError + bool list) \<times> 's" where
  "client_read_discrete_inputs call slave addr quantity s =
     expect (\<lambda>rsp. case rsp of Response.ReadDiscreteInputs bits \<Rightarrow> Some bits | _ \<Rightarrow> None)
       (call slave (Request.ReadDiscreteInputs addr quantity) s)"

definition client_read_holding_registers ::
  "'s transport \<Rightarrow> u8 \<Rightarrow> u16 \<Rightarrow> u16 \<Rightarrow> 's \<Rightarrow> (ModbusError + u16 list) \<times> 's" where
  "client_read_holding_registers call slave addr quantity s =
     expect (\<lambda>rsp. case rsp of Response.ReadHoldingRegisters regs \<Rightarrow> Some regs | _ \<Rightarrow> None)
       (call slave (Request.ReadHoldingRegisters addr quantity) s)"

definition client_read_input_registers ::
  "'s transport \<Rightarrow> u8 \<Rightarrow> u16 \<Rightarrow> u16 \<Rightarrow> 's \<Rightarrow> (ModbusError + u16 list) \<times> 's" where
  "client_read_input_registers call slave addr quantity s =
     expect (\<lambda>rsp. case rsp of Response.ReadInputRegisters regs \<Rightarrow> Some regs | _ \<Rightarrow> None)
       (call slave (Request.ReadInputRegisters addr quantity) s)"

definition client_write_single_coil ::
  "'s transport \<Rightarrow> u8 \<Rightarrow> u16 \<Rightarrow> bool \<Rightarrow> 's \<Rightarrow> (ModbusError + unit) \<times> 's" where
  "client_write_single_coil call slave addr value s =
     expect (\<lambda>rsp. case rsp of Response.WriteSingleCoil a v \<Rightarrow> (if a = addr \<and> v = value then Some () else None)
                    | _ \<Rightarrow> None)
       (call slave (Request.WriteSingleCoil addr value) s)"

definition client_write_single_register ::
  "'s transport \<Rightarrow> u8 \<Rightarrow> u16 \<Rightarrow> u16 \<Rightarrow> 's \<Rightarrow> (ModbusError + unit) \<times> 's" where
  "client_write_single_register call slave addr value s =
     expect (\<lambda>rsp. case rsp of Response.WriteSingleRegister a v \<Rightarrow> (if a = addr \<and> v = value then Some () else None)
                    | _ \<Rightarrow> None)
       (call slave (Request.WriteSingleRegister addr value) s)"

definition client_write_multiple_coils ::
  "'s transport \<Rightarrow> u8 \<Rightarrow> u16 \<Rightarrow> bool list \<Rightarrow> 's \<Rightarrow> (ModbusError + unit) \<times> 's" where
  "client_write_multiple_coils call slave addr values s =
     expect (\<lambda>rsp. case rsp of Response.WriteMultipleCoils a n \<Rightarrow>
                      (if a = addr \<and> unat n = length values then Some () else None) | _ \<Rightarrow> None)
       (call slave (Request.WriteMultipleCoils addr values) s)"

definition client_write_multiple_registers ::
  "'s transport \<Rightarrow> u8 \<Rightarrow> u16 \<Rightarrow> u16 list \<Rightarrow> 's \<Rightarrow> (ModbusError + unit) \<times> 's" where
  "client_write_multiple_registers call slave addr values s =
     expect (\<lambda>rsp. case rsp of Response.WriteMultipleRegisters a n \<Rightarrow>
                      (if a = addr \<and> unat n = length values then Some () else None) | _ \<Rightarrow> None)
       (call slave (Request.WriteMultipleRegisters addr values) s)"

definition client_mask_write_register ::
  "'s transport \<Rightarrow> u8 \<Rightarrow> u16 \<Rightarrow> u16 \<Rightarrow> u16 \<Rightarrow> 's \<Rightarrow> (ModbusError + unit) \<times> 's" where
  "client_mask_write_register call slave addr and_mask or_mask s =
     expect (\<lambda>rsp. case rsp of Response.MaskWriteRegister a m n \<Rightarrow>
                      (if a = addr \<and> m = and_mask \<and> n = or_mask then Some () else None) | _ \<Rightarrow> None)
       (call slave (Request.MaskWriteRegister addr and_mask or_mask) s)"

definition client_diagnostic ::
  "'s transport \<Rightarrow> u8 \<Rightarrow> u16 \<Rightarrow> u16 \<Rightarrow> 's \<Rightarrow> (ModbusError + (u16 \<times> u16)) \<times> 's" where
  "client_diagnostic call slave sub_function data s =
     expect (\<lambda>rsp. case rsp of Response.Diagnostic sf d \<Rightarrow> Some (sf, d) | _ \<Rightarrow> None)
       (call slave (Request.Diagnostic sub_function data) s)"

definition client_read_write_multiple_registers ::
  "'s transport \<Rightarrow> u8 \<Rightarrow> u16 \<Rightarrow> u16 \<Rightarrow> u16 \<Rightarrow> u16 list \<Rightarrow> 's \<Rightarrow> (ModbusError + u16 list) \<times> 's" where
  "client_read_write_multiple_registers call slave read_addr read_qty write_addr values s =
     expect (\<lambda>rsp. case rsp of Response.ReadWriteMultipleRegisters regs \<Rightarrow> Some regs | _ \<Rightarrow> None)
       (call slave (Request.ReadWriteMultipleRegisters read_addr read_qty write_addr values) s)"

lemmas client_ops =
  client_read_coils_def client_read_discrete_inputs_def client_read_holding_registers_def
  client_read_input_registers_def client_write_single_coil_def client_write_single_register_def
  client_write_multiple_coils_def client_write_multiple_registers_def client_mask_write_register_def
  client_diagnostic_def client_read_write_multiple_registers_def

lemma expect_Inr_iff: "expect f (r, s) = (Inr x, s') \<longleftrightarrow> (\<exists>rsp. r = Inr rsp \<and> f rsp = Some x) \<and> s' = s"
  by (auto simp: expect_def split: sum.splits option.splits)

lemma expect_exception:
  "f (Response.Exception fc ex) = None \<Longrightarrow>
     expect f (Inr (Response.Exception fc ex), s) = (Inl (ModbusError.Exception fc (u8_of_exception ex)), s)"
  by (simp add: expect_def unexpected_response_def)

section \<open>A transport to a service\<close>

text \<open>What a request is answered at the other end, as the client sees it.\<close>

definition service_transport :: "'s service \<Rightarrow> 's transport" where
  "service_transport call slave req s =
     (Inr (response_view (reply_of req (fst (call (Some slave) s req)))), snd (call (Some slave) s req))"

definition remote_reply :: "Request \<Rightarrow> SlaveStore \<Rightarrow> Response" where
  "remote_reply req s = response_view (reply_of req (fst (store_call s req)))"

lemma service_transport_store:
  "service_transport store_service slave req s = (Inr (remote_reply req s), snd (store_call s req))"
  by (simp add: service_transport_def remote_reply_def store_service_def)

text \<open>The requests a link is promised to carry.\<close>

definition askable :: "u8 \<Rightarrow> Request \<Rightarrow> bool" where
  "askable slave req \<longleftrightarrow> request_legal req \<and> request_fits req \<and> slave \<noteq> 0"

locale service_link = service call inv
  for call :: "'s service" and inv :: "'s \<Rightarrow> bool" +
  fixes link :: "'s transport" and good :: "u8 \<Rightarrow> Request \<Rightarrow> bool"
  assumes service_link: "inv s \<Longrightarrow> askable slave req \<Longrightarrow> good slave req \<Longrightarrow>
    link slave req s = service_transport call slave req s"

locale store_link = service_link store_service store_bounded link good
  for link :: "SlaveStore transport" and good :: "u8 \<Rightarrow> Request \<Rightarrow> bool"
begin

lemma link: "store_bounded s \<Longrightarrow> request_legal req \<Longrightarrow> request_fits req \<Longrightarrow> slave \<noteq> 0 \<Longrightarrow> good slave req \<Longrightarrow>
    link slave req s = (Inr (remote_reply req s), snd (store_call s req))"
  using service_link [of s slave req] by (simp add: askable_def service_transport_store)

lemma link_Inr:
  assumes "store_bounded s" "request_legal req" "request_fits req" "slave \<noteq> 0" "good slave req"
    and "fst (store_call s req) = Inr rsp"
  shows "link slave req s = (Inr (response_view rsp), snd (store_call s req))"
  using link [OF assms(1-5)] assms(6) by (simp add: remote_reply_def reply_of_def)

lemma read_holding_registers:
  assumes "store_bounded s" "range_ok a (unat n) 125" "slave \<noteq> 0" "good slave (Request.ReadHoldingRegisters a n)"
  shows "client_read_holding_registers link slave a n s =
     (Inr (map (holding (abs_store s)) [unat a..<unat a + unat n]), s)"
  using link_Inr [OF assms(1) _ _ assms(3,4)] assms(2)
  by (simp add: client_ops expect_Inr_iff store_ops read_registers_eq abs_store_def)

lemma read_coils:
  assumes "store_bounded s" "range_ok a (unat n) 2000" "slave \<noteq> 0" "good slave (Request.ReadCoils a n)"
  shows "client_read_coils link slave a n s =
     (Inr (pad8 (map (coil (abs_store s)) [unat a..<unat a + unat n])), s)"
  using link_Inr [OF assms(1) _ _ assms(3,4)] assms(2)
  by (simp add: client_ops expect_Inr_iff store_ops read_bits_eq abs_store_def)

lemma write_multiple_registers:
  assumes "store_bounded s" "range_ok a (length ws) 123" "slave \<noteq> 0" "good slave (Request.WriteMultipleRegisters a ws)"
  shows "client_write_multiple_registers link slave a ws s =
     (Inr (), s \<lparr> holding_registers := put_regs (holding_registers s) (unat a) ws \<rparr>)"
proof -
  have "unat (of_nat (length ws) :: u16) = length ws"
    using assms(2) by (intro unat_of_nat_u16) (simp add: range_ok_def)
  moreover have "request_legal (Request.WriteMultipleRegisters a ws)" "request_fits (Request.WriteMultipleRegisters a ws)"
    using assms(2) by (simp_all add: range_ok_def)
  ultimately show ?thesis
    using link_Inr [OF assms(1) _ _ assms(3,4)] by (simp add: client_ops expect_Inr_iff)
qed

lemma write_then_read:
  assumes "store_bounded s" "range_ok a (length ws) 123" "slave \<noteq> 0"
    "good slave (Request.WriteMultipleRegisters a ws)" "good slave (Request.ReadHoldingRegisters a (of_nat (length ws)))"
  shows "fst (client_read_holding_registers link slave a (of_nat (length ws))
           (snd (client_write_multiple_registers link slave a ws s))) = Inr ws"
proof -
  let ?s = "s \<lparr> holding_registers := put_regs (holding_registers s) (unat a) ws \<rparr>"
  have n: "unat (of_nat (length ws) :: u16) = length ws"
    using assms(2) by (intro unat_of_nat_u16) (simp add: range_ok_def)
  have "store_bounded ?s"
    using assms(1,2) by (auto simp: store_bounded_def range_ok_def intro!: put_regs_bounded)
  moreover have "range_ok a (unat (of_nat (length ws) :: u16)) 125"
    using assms(2) n by (simp add: range_ok_def)
  ultimately have "client_read_holding_registers link slave a (of_nat (length ws)) ?s =
      (Inr (map (holding (abs_store ?s)) [unat a..<unat a + length ws]), ?s)"
    using read_holding_registers [of ?s a "of_nat (length ws)" slave] assms(3,5) n by simp
  moreover have "map (holding (abs_store ?s)) [unat a..<unat a + length ws] = ws"
    by (rule nth_equalityI) (simp_all add: abs_store_def get_regs_put_regs overwrite_def)
  ultimately show ?thesis using write_multiple_registers [OF assms(1-4)] by simp
qed

lemma diagnostic_error:
  assumes "store_bounded s" "slave \<noteq> 0" "good slave (Request.Diagnostic sf d)"
    and "sf \<notin> {0, 10, 11, 12, 13, 14}"
  shows "client_diagnostic link slave sf d s = (Inl (ModbusError.Exception 8 3), s)"
proof -
  have "fst (store_call s (Request.Diagnostic sf d)) = Inl IllegalDataValue"
    and "snd (store_call s (Request.Diagnostic sf d)) = s"
    using assms(4) by (auto simp: diag_range)
  then have "remote_reply (Request.Diagnostic sf d) s = Response.Exception 8 IllegalDataValue"
    by (simp add: remote_reply_def reply_of_def exception_of_u8_def)
  with link [OF assms(1) _ _ assms(2,3)] \<open>snd _ = s\<close> show ?thesis
    by (simp add: client_ops expect_exception)
qed

end

section \<open>The three transports as links\<close>

text \<open>
  A line that brings the frames the client writes to a fresh server with the service and the
  server's frames back, each cut into pieces that arrive at times of their own.  The client runs
  once on a silent line to see what it writes and then on the line that carries the reply.
\<close>

definition silent_line :: stream where
  "silent_line = \<lparr> clock = 0, arrivals = [], write_plan = [], sent = [], bus = None, layers = [], tap_log = [] \<rparr>"

definition link_over ::
  "(inner \<Rightarrow> (ModbusError + Response) \<times> inner) \<Rightarrow> (poll_result list \<Rightarrow> 's server \<Rightarrow> 's server option)
     \<Rightarrow> (bytes \<Rightarrow> (nat \<times> bytes) list) \<Rightarrow> 's \<Rightarrow> (ModbusError + Response) \<times> 's" where
  "link_over exchange serve pieces s =
     (let frames = sent (in_stream (snd (exchange (inner_new silent_line))));
          sv = the (serve (map Got frames) (server_new s));
          line = silent_line \<lparr> arrivals := concat (map (data_arrivals \<circ> pieces) (sv_out sv)) \<rparr>
      in (fst (exchange (inner_new line)), sv_service sv))"

definition rtu_link :: "'s service \<Rightarrow> duration \<Rightarrow> (bytes \<Rightarrow> (nat \<times> bytes) list) \<Rightarrow> 's transport" where
  "rtu_link svc timeout pieces slave req =
     link_over (rtu_send_recv timeout slave req) (rtu_serve svc) pieces"

definition ascii_link :: "'s service \<Rightarrow> duration \<Rightarrow> (bytes \<Rightarrow> (nat \<times> bytes) list) \<Rightarrow> 's transport" where
  "ascii_link svc timeout pieces slave req =
     link_over (ascii_send_recv timeout slave req) (ascii_serve svc) pieces"

text \<open>The TCP client keeps a transaction counter from one request to the next; it starts at 1.\<close>

definition tcp_link_at ::
  "u16 \<Rightarrow> TcpConfig \<Rightarrow> 's service \<Rightarrow> duration \<Rightarrow> (bytes \<Rightarrow> (nat \<times> bytes) list) \<Rightarrow> 's transport" where
  "tcp_link_at counter config svc timeout pieces slave req =
     link_over
       (\<lambda>inner. let (r, inner, _) = tcp_send_recv timeout config slave req (inner, counter) in (r, inner))
       (tcp_serve config svc) pieces"

abbreviation tcp_link :: "TcpConfig \<Rightarrow> 's service \<Rightarrow> duration \<Rightarrow> (bytes \<Rightarrow> (nat \<times> bytes) list) \<Rightarrow> 's transport" where
  "tcp_link \<equiv> tcp_link_at 1"

text \<open>
  The pieces of a frame make it up and arrive after the client has sent its request and within its
  timeout, for frames up to the longest, that of an ASCII frame.  When the length field counts the
  PDU alone a last byte that comes alone must come within 200 ms of the piece before it.
\<close>

definition MAX_FRAME_BYTES :: nat where "MAX_FRAME_BYTES = 513"

definition delivers :: "duration \<Rightarrow> (bytes \<Rightarrow> (nat \<times> bytes) list) \<Rightarrow> bool" where
  "delivers timeout pieces \<longleftrightarrow>
     (\<forall>frame. length frame \<le> MAX_FRAME_BYTES \<longrightarrow> joined (pieces frame) = frame
        \<and> (\<forall>(t, p) \<in> set (pieces frame). p \<noteq> [] \<and> from_millis 1 < t \<and> t < from_millis 1 + timeout))"

definition tcp_delivers :: "TcpConfig \<Rightarrow> duration \<Rightarrow> (bytes \<Rightarrow> (nat \<times> bytes) list) \<Rightarrow> bool" where
  "tcp_delivers config timeout pieces \<longleftrightarrow> delivers timeout pieces \<and>
     (length_mode config = PduOnly \<longrightarrow>
       (\<forall>frame. 1 < length frame \<and> length frame \<le> MAX_FRAME_BYTES \<longrightarrow> \<not> last_byte_late (from_millis 1) (pieces frame)))"

text \<open>The request is not shadowed, or the unit id stands in the body.\<close>

definition tcp_readable :: "TcpConfig \<Rightarrow> u8 \<Rightarrow> Request \<Rightarrow> bool" where
  "tcp_readable config slave req \<longleftrightarrow> unit_id_in_body config \<or> \<not> shadowed slave (request_pdu req)"

lemma silent_line_sent_at [simp]: "sent_at silent_line = from_millis 1"
  by (simp add: sent_at_def silent_line_def prepare_send_def)

lemma delivers_timeout: "delivers timeout pieces \<Longrightarrow> 0 < timeout"
proof -
  assume d: "delivers timeout pieces"
  moreover have one: "length [0 :: u8] \<le> MAX_FRAME_BYTES" by (simp add: MAX_FRAME_BYTES_def)
  ultimately have "joined (pieces [0]) = [0]" by (simp only: delivers_def)
  then obtain tp where "tp \<in> set (pieces [0])" by (cases "pieces [0]") auto
  with d one show ?thesis unfolding delivers_def by fastforce
qed

lemma delivered:
  fixes frame :: bytes
  assumes "delivers timeout pieces" "length frame \<le> MAX_FRAME_BYTES"
  defines "st \<equiv> silent_line \<lparr> arrivals := data_arrivals (pieces frame) \<rparr>"
  shows "joined (pieces frame) = frame" "after_drain st (pieces frame)" "timely (from_millis 1 + timeout) (pieces frame)"
    "sent_at st = from_millis 1" "arrivals st = data_arrivals (pieces frame)" "clock st = 0" "write_plan st = []"
  using assms(1,2) by (auto simp: st_def delivers_def after_drain_def timely_def silent_line_def sent_at_def prepare_send_def)

lemma read_timed_sent: "read_timed wait st = (ev, st') \<Longrightarrow> sent st' = sent st"
  by (auto simp: read_timed_def Let_def record_tap_def touch_bus_def split: list.splits arrival.splits if_splits)

lemma read_at_least_sent: "read_at_least st buf deadline least = (r, buf', st') \<Longrightarrow> sent st' = sent st"
proof (induction st buf deadline least arbitrary: r buf' st' rule: read_at_least.induct)
  case (1 st buf deadline least)
  obtain ev st1 where read: "read_timed (deadline - clock st) st = (ev, st1)" by fastforce
  note s1 = read_timed_sent [OF read]
  show ?case
  proof (cases "length buf < least \<and> deadline - clock st \<noteq> 0 \<and> (\<exists>b bs. ev = Got (b # bs))")
    case True
    then obtain b bs where ev: "ev = Got (b # bs)" by blast
    with True 1(2) read have "read_at_least st1 (buf @ b # bs) deadline least = (r, buf', st')"
      by (subst (asm) read_at_least.simps) (auto simp: Let_def)
    with ev True read have "sent st' = sent st1" by (intro 1(1)) auto
    with s1 show ?thesis by simp
  next
    case False
    then have "st' = st \<or> st' = st1"
      using 1(2) read by (subst (asm) read_at_least.simps)
        (auto simp: Let_def neq_Nil_conv split: poll_result.splits if_splits)
    with s1 show ?thesis by auto
  qed
qed

lemma silent_drain: "drain_stale_data silent_line = (Inr (), silent_line \<lparr> clock := from_millis 1 \<rparr>)"
  using drain_line_quiet [of silent_line] by (simp add: silent_line_def)

lemma rtu_silent_sent:
  assumes "request_fits req"
  shows "sent (in_stream (snd (rtu_send_recv timeout slave req (inner_new silent_line)))) =
           [encode_rtu_frame (slave # request_pdu req) []]"
proof -
  let ?st = "prepare_send (silent_line \<lparr> clock := from_millis 1 \<rparr>)"
  have same: "same_line (silent_line \<lparr> clock := from_millis 1 \<rparr>) ?st" by (rule same_line_prepare)
  then have "write_plan ?st = []" by (simp add: same_line_def silent_line_def)
  from send_frame_written [OF this assms, of "[]" slave timeout encode_rtu_frame]
  obtain st2 where send: "send_frame ?st [] slave timeout req encode_rtu_frame = (Inr (), [], st2)"
    and st2: "sent st2 = sent ?st @ [encode_rtu_frame (slave # request_pdu req) []]" by blast
  obtain target r rb st3 where "read_at_least st2 [] (clock st2 + timeout) target = (r, rb, st3)"
    and target: "target = (case map_option (\<lambda>p. p + 1 + CRC_SIZE) (expected_rtu_pdu_len req) of Some n \<Rightarrow> n | None \<Rightarrow> MIN_RTU_FRAME)"
    by (metis prod_cases3)
  with silent_drain send have "in_stream (snd (rtu_send_recv timeout slave req (inner_new silent_line))) = st3"
    by (simp add: rtu_send_recv_def inner_new_def Let_def split: sum.splits)
  moreover have "sent st3 = sent st2" by (rule read_at_least_sent) fact
  ultimately show ?thesis using st2 same by (simp add: same_line_def silent_line_def)
qed

lemma ascii_silent_sent:
  assumes "request_fits req" "req \<noteq> Request.Disconnect"
  shows "sent (in_stream (snd (ascii_send_recv timeout slave req (inner_new silent_line)))) =
           [encode_ascii_frame (slave # request_pdu req)]"
proof -
  let ?st = "prepare_send (silent_line \<lparr> clock := from_millis 1 \<rparr>)"
  have same: "same_line (silent_line \<lparr> clock := from_millis 1 \<rparr>) ?st" by (rule same_line_prepare)
  then have "write_plan ?st = []" by (simp add: same_line_def silent_line_def)
  from send_frame_written [OF this assms(1), of "[]" slave timeout encode_ascii_frame_into]
  obtain st2 where send: "send_frame ?st [] slave timeout req encode_ascii_frame_into = (Inr (), [], st2)"
    and st2: "sent st2 = sent ?st @ [encode_ascii_frame (slave # request_pdu req)]" "arrivals st2 = arrivals ?st"
    by (auto simp: encode_ascii_frame_def)
  obtain r rb st3 where recv: "ascii_recv st2 [] (clock st2 + timeout) slave = (r, rb, st3)"
    by (metis prod_cases3)
  have "arrivals st2 = []" using st2 same by (simp add: same_line_def silent_line_def)
  then have "sent st3 = sent st2"
    using recv by (subst (asm) ascii_recv.simps) (auto simp: Let_def read_timed_def split: if_splits)
  moreover have "in_stream (snd (ascii_send_recv timeout slave req (inner_new silent_line))) = st3"
    using silent_drain send recv assms(2) by (simp add: ascii_send_recv_def inner_new_def Let_def)
  ultimately show ?thesis using st2 same by (simp add: same_line_def silent_line_def)
qed

lemma tcp_receive_sent: "tcp_receive config slave deadline st = (r, rb, st') \<Longrightarrow> sent st' = sent st"
  by (auto simp: tcp_receive_def tcp_extra_read_def Let_def split: sum.splits if_splits prod.splits poll_result.splits
      dest!: read_at_least_sent read_timed_sent)

lemma tcp_silent_run:
  fixes timeout :: duration and config :: TcpConfig and slave :: u8 and req :: Request and counter :: u16
  defines "out \<equiv> tcp_send_recv timeout config slave req (inner_new silent_line, counter)"
  assumes "request_fits req"
  shows "sent (in_stream (fst (snd out))) =
           [encode_tcp_frame (slave # request_pdu req) [] config (fst (next_tid (tid_mode config) counter))]"
    and "snd (snd out) = snd (next_tid (tid_mode config) counter)"
proof -
  obtain tid counter' where tid: "next_tid (tid_mode config) counter = (tid, counter')" by fastforce
  let ?st = "silent_line \<lparr> clock := from_millis 1 \<rparr>" and ?enc = "\<lambda>data buf. encode_tcp_frame data buf config tid"
  have "write_plan ?st = []" by (simp add: silent_line_def)
  from send_frame_written [OF this assms(2), of "[]" slave timeout ?enc]
  obtain st2 where send: "send_frame ?st [] slave timeout req ?enc = (Inr (), [], st2)"
    and st2: "sent st2 = [?enc (slave # request_pdu req) []]" by (auto simp: silent_line_def)
  obtain r rb st3 where recv: "tcp_receive config slave (clock st2 + timeout) st2 = (r, rb, st3)"
    by (metis prod_cases3)
  with silent_drain send tid
  have out: "in_stream (fst (snd out)) = st3" "snd (snd out) = counter'"
    by (simp_all add: out_def tcp_send_recv_def inner_new_def Let_def)
  with tcp_receive_sent [OF recv] st2 tid
  show "sent (in_stream (fst (snd out))) =
           [encode_tcp_frame (slave # request_pdu req) [] config (fst (next_tid (tid_mode config) counter))]"
    and "snd (snd out) = snd (next_tid (tid_mode config) counter)" by simp_all
qed

lemma server_new_simps [simp]:
  "sv_status (server_new s) = Serving" "sv_buf (server_new s) = []" "sv_writes (server_new s) = []"
  "sv_out (server_new s) = []" "sv_service (server_new s) = s" "healthy (server_new s)"
  by (simp_all add: server_new_def healthy_def)

lemma config_standard_shape: "config_standard = \<lparr> tid_mode = Fixed 0, unit_id_in_body = False, length_mode = Standard \<rparr>"
  by (simp add: config_standard_def config_default_def)

lemma length_request_pdu_253: "request_fits req \<Longrightarrow> length (request_pdu req) \<le> 253"
  by (cases req) (auto simp: div_ceil_8)

context service
begin

text \<open>The reply to a legal request, as bytes and as the client decodes it.\<close>

lemma reply_decodes:
  fixes s :: 's and ctx :: "u8 option"
  assumes "inv s" "request_legal req"
  defines "rsp \<equiv> reply_of req (fst (call ctx s req))"
  shows "response_try_from (response_pdu rsp) = Ok (response_view rsp)"
    and "2 \<le> length (response_pdu rsp)" and "length (response_pdu rsp) \<le> 253"
proof -
  have fits: "response_fits rsp" unfolding rsp_def by (rule reply_fits [OF assms(1,2)])
  from response_view_roundtrip [OF this, of "[]"]
  show "response_try_from (response_pdu rsp) = Ok (response_view rsp)" by simp
  show "2 \<le> length (response_pdu rsp)" by (cases rsp) auto
  show "length (response_pdu rsp) \<le> 253"
    using length_response_pdu_fits [OF response_fits_valid [OF fits]] fits by (simp add: limit_defs)
qed

end

lemma reply_sizes:
  assumes "length pdu \<le> 253"
  shows "length (encode_rtu_frame (slave # pdu) []) \<le> MAX_FRAME_BYTES"
    and "length (encode_ascii_frame (slave # pdu)) \<le> MAX_FRAME_BYTES"
    and "length (encode_tcp_frame (slave # pdu) [] config tid) \<le> MAX_FRAME_BYTES"
  using assms by (simp_all add: MAX_FRAME_BYTES_def encode_rtu_frame_eq encode_ascii_line encode_tcp_mbap)

lemma inner_stream [simp]: "in_stream (inner_new st) = st"
  by (simp add: inner_new_def)

context sized_service
begin

lemma rtu_link_service:
  assumes "inv s" "askable slave req" "delivers timeout pieces"
  shows "rtu_link call timeout pieces slave req s = service_transport call slave req s"
proof -
  from assms(2) have req: "request_legal req" "request_fits req" "slave \<noteq> 0" by (simp_all add: askable_def)
  let ?rsp = "reply_of req (fst (call (Some slave) s req))"
  let ?reply = "encode_rtu_frame (slave # response_pdu ?rsp) []"
  let ?line = "silent_line \<lparr> arrivals := data_arrivals (pieces ?reply) \<rparr>"
  note r = reply_decodes [OF assms(1) req(1), of "Some slave"]
  from reply_length [OF assms(1) req(1), of "Some slave"] obtain n where n:
    "expected_rtu_pdu_len req = Some n" "length (response_pdu ?rsp) \<le> n" by auto
  note d = delivered [OF assms(3) reply_sizes(1) [OF r(3)]] delivers_timeout [OF assms(3)]
  have "rtu_serve call [Got (encode_rtu_frame (slave # request_pdu req) [])] (server_new s) =
     Some ((server_new s) \<lparr> sv_rsp := [], sv_service := snd (call (Some slave) s req), sv_out := [?reply] \<rparr>)"
    using rtu_serve_one [of "server_new s" slave "request_pdu req" req]
      request_pdu_decodes [OF req(1), of "[]"] assms(1) req(3) by simp
  moreover have "fst (rtu_send_recv timeout slave req (inner_new ?line)) = Inr (response_view ?rsp)"
    using d r(1,2) req(2) n by (intro rtu_exchange_pieces(1) [where ps = "pieces ?reply" and n = n]) simp_all
  ultimately show ?thesis
    by (simp add: rtu_link_def link_over_def rtu_silent_sent [OF req(2)] Let_def service_transport_def)
qed

end

context service
begin

lemma ascii_link_service:
  assumes "inv s" "askable slave req" "delivers timeout pieces"
  shows "ascii_link call timeout pieces slave req s = service_transport call slave req s"
proof -
  from assms(2) have req: "request_legal req" "request_fits req" "slave \<noteq> 0" by (simp_all add: askable_def)
  let ?rsp = "reply_of req (fst (call (Some slave) s req))"
  let ?reply = "encode_ascii_frame (slave # response_pdu ?rsp)"
  let ?line = "silent_line \<lparr> arrivals := data_arrivals (pieces ?reply) \<rparr>"
  note r = reply_decodes [OF assms(1) req(1), of "Some slave"]
  note d = delivered [OF assms(3) reply_sizes(2) [OF r(3)]] delivers_timeout [OF assms(3)]
  from req(1) have ne: "req \<noteq> Request.Disconnect" by auto
  have "ascii_serve call [Got (encode_ascii_frame (slave # request_pdu req))] (server_new s) =
      Some ((server_new s) \<lparr> sv_rsp := [], sv_service := snd (call (Some slave) s req), sv_out := [?reply] \<rparr>)"
    using ascii_serve_one [of "server_new s" slave "request_pdu req" req]
      request_pdu_decodes [OF req(1), of "[]"] assms(1) req(3) by simp
  moreover have "response_pdu ?rsp \<noteq> []" using r(2) by auto
  then have "fst (ascii_send_recv timeout slave req (inner_new ?line)) = Inr (response_view ?rsp)"
    using d r(1) req(2) ne by (intro ascii_exchange_pieces(1) [where ps = "pieces ?reply"]) simp_all
  ultimately show ?thesis
    by (simp add: ascii_link_def link_over_def ascii_silent_sent [OF req(2) ne] Let_def service_transport_def)
qed

lemma tcp_link_service:
  assumes "inv s" "askable slave req" "tcp_readable config slave req" "tcp_delivers config timeout pieces"
  shows "tcp_link_at counter config call timeout pieces slave req s = service_transport call slave req s"
proof -
  from assms(2) have req: "request_legal req" "request_fits req" "slave \<noteq> 0" by (simp_all add: askable_def)
  from assms(4) have dl: "delivers timeout pieces" by (simp add: tcp_delivers_def)
  let ?rsp = "reply_of req (fst (call (Some slave) s req))" and ?pdu = "request_pdu req"
  let ?tid = "fst (next_tid (tid_mode config) counter)"
  let ?reply = "encode_tcp_frame (slave # response_pdu ?rsp) [] config ?tid"
  let ?line = "silent_line \<lparr> arrivals := data_arrivals (pieces ?reply) \<rparr>"
  note r = reply_decodes [OF assms(1) req(1), of "Some slave"]
  note d = delivered [OF dl reply_sizes(3) [OF r(3)]] delivers_timeout [OF dl]
  have dec: "request_try_from ?pdu = Ok req" using request_pdu_decodes [OF req(1), of "[]"] by simp
  then have "request_try_from (framed_seen config slave ?pdu) = Ok req"
    using assms(3) by (auto simp: framed_seen_def tcp_seen_def tcp_readable_def)
  from tcp_serve_one [OF _ _ _ req(3) dec _ this, of "server_new s" config ?tid]
  have "tcp_serve config call [Got (encode_tcp_frame (slave # ?pdu) [] config ?tid)] (server_new s) =
     Some ((server_new s) \<lparr> sv_rsp := [], sv_service := snd (call (Some slave) s req), sv_out := [?reply] \<rparr>)"
    using assms(1) length_request_pdu_253 [OF req(2)] by simp
  moreover have "fst (tcp_send_recv timeout config slave req (inner_new ?line, counter)) = Inr (response_view ?rsp)"
  proof -
    have "\<not> cut_short config (from_millis 1) (pieces ?reply)"
      using assms(4) reply_sizes(3) [OF r(3)] by (simp add: tcp_delivers_def cut_short_def encode_tcp_mbap)
    then show ?thesis
      using tcp_exchange_pieces(1) [of "inner_new ?line" "pieces ?reply" slave "response_pdu ?rsp" config ?tid timeout req
          "response_view ?rsp" slave counter] d r req(2) by simp
  qed
  ultimately show ?thesis
    by (simp add: tcp_link_at_def link_over_def tcp_silent_run(1) [OF req(2)] Let_def split_def service_transport_def)
qed

end

interpretation rtu_link: store_link "rtu_link store_service timeout pieces" "\<lambda>slave req. delivers timeout pieces"
  for timeout pieces
  by unfold_locales (rule sized_store.rtu_link_service)

interpretation ascii_link: store_link "ascii_link store_service timeout pieces" "\<lambda>slave req. delivers timeout pieces"
  for timeout pieces
  by unfold_locales (rule store.ascii_link_service)

interpretation tcp_link: store_link "tcp_link config store_service timeout pieces"
    "\<lambda>slave req. tcp_readable config slave req \<and> tcp_delivers config timeout pieces"
  for config timeout pieces
  by unfold_locales (auto intro: store.tcp_link_service)

text \<open>Every transport, whose replies come in pieces.\<close>

definition link_of ::
  "'s service \<Rightarrow> duration \<Rightarrow> (bytes \<Rightarrow> (nat \<times> bytes) list) \<Rightarrow> 's transport \<Rightarrow> bool" where
  "link_of svc timeout pieces link \<longleftrightarrow>
     delivers timeout pieces \<and> link \<in> {rtu_link svc timeout pieces, ascii_link svc timeout pieces}
       \<or> (\<exists>config. tcp_delivers config timeout pieces \<and> link = tcp_link config svc timeout pieces)"

text \<open>One byte at a time.\<close>

definition byte_by_byte :: "nat \<Rightarrow> nat \<Rightarrow> bytes \<Rightarrow> (nat \<times> bytes) list" where
  "byte_by_byte start gap frame = map (\<lambda>i. (start + i * gap, [frame ! i])) [0..<length frame]"

lemma joined_byte_by_byte: "joined (byte_by_byte start gap frame) = frame"
proof -
  have "concat (map (\<lambda>i. [frame ! i]) [0..<length frame]) = map ((!) frame) [0..<length frame]"
    by (simp only: concat_map_singleton)
  also have "\<dots> = frame" by (rule map_nth)
  finally show ?thesis by (simp add: byte_by_byte_def o_def)
qed

lemma byte_by_byte_delivers:
  assumes "from_millis 1 < start" "start + MAX_FRAME_BYTES * gap < from_millis 1 + timeout"
  shows "delivers timeout (byte_by_byte start gap)"
  unfolding delivers_def
proof (intro allI impI conjI joined_byte_by_byte)
  fix frame :: bytes
  assume len: "length frame \<le> MAX_FRAME_BYTES"
  have "start + i * gap < from_millis 1 + timeout" if "i < length frame" for i
  proof -
    have "i * gap \<le> MAX_FRAME_BYTES * gap" using that len by (intro mult_le_mono1) simp
    with assms(2) show ?thesis by linarith
  qed
  with assms(1) show "\<forall>(t, p) \<in> set (byte_by_byte start gap frame). p \<noteq> [] \<and> from_millis 1 < t \<and> t < from_millis 1 + timeout"
    by (auto simp: byte_by_byte_def)
qed

lemma byte_by_byte_prompt:
  assumes "gap \<le> from_millis 200" "1 < length frame"
  shows "\<not> last_byte_late now (byte_by_byte start gap frame)"
proof -
  let ?piece = "\<lambda>i. (start + i * gap, [frame ! i])"
  obtain k where n: "length frame = Suc (Suc k)"
    using assms(2) by (auto simp: less_iff_Suc_add)
  have ps: "byte_by_byte start gap frame = map ?piece [0..<Suc k] @ [?piece (Suc k)]"
    by (simp add: byte_by_byte_def n)
  let ?before = "after_reads now (map ?piece [0..<Suc k])"
  have "start + k * gap \<le> ?before" by (simp add: after_reads_append)
  then have "max ?before (start + Suc k * gap) \<le> ?before + from_millis 200" using assms(1) by simp
  then show ?thesis unfolding last_byte_late_def ps butlast_snoc by (simp only: after_reads_append) simp
qed

lemma byte_by_byte_tcp_delivers:
  assumes "from_millis 1 < start" "start + MAX_FRAME_BYTES * gap < from_millis 1 + timeout" "gap \<le> from_millis 200"
  shows "tcp_delivers config timeout (byte_by_byte start gap)"
  using byte_by_byte_delivers [OF assms(1,2)] byte_by_byte_prompt [OF assms(3)] by (simp add: tcp_delivers_def)

lemma links:
  "delivers timeout pieces \<Longrightarrow> link_of svc timeout pieces (rtu_link svc timeout pieces)"
  "delivers timeout pieces \<Longrightarrow> link_of svc timeout pieces (ascii_link svc timeout pieces)"
  "tcp_delivers config timeout pieces \<Longrightarrow> link_of svc timeout pieces (tcp_link config svc timeout pieces)"
  by (auto simp: link_of_def)

end
