(* ===== verification/Modbus_Capture.thy ===== *)
theory Modbus_Capture
  imports Modbus_Send_Recv
begin

text \<open>
  The recording back ends: \<open>TrafficStats\<close> and \<open>PacketCapture\<close> of \<open>src/intercept.rs\<close>,
  \<open>BusCapture\<close> of \<open>src/capture.rs\<close>, \<open>RingBufferCapture\<close> of \<open>src/monitor/ring_buffer.rs\<close> and
  \<open>ChannelRecorder\<close> of \<open>src/monitor/channel.rs\<close>.  Counters are atomic \<open>u64\<close> words and wrap.
  The locale \<open>recorder\<close> is the contract they share: a recorder holds the last records, in
  order, up to its room.
\<close>

section \<open>Packets\<close>

datatype PacketData = RawTx bytes | RawRx bytes | RawError bytes string

record PacketRecord =
  timestamp_us :: u64
  packet_data :: PacketData

definition packet :: "u64 \<Rightarrow> PacketData \<Rightarrow> PacketRecord" where
  "packet ts d = \<lparr> timestamp_us = ts, packet_data = d \<rparr>"

text \<open>The three events of a \<open>WireTap\<close>.\<close>

datatype wire_event = OnWrite bytes u64 | OnRead bytes u64 | OnError bytes string u64

text \<open>What every recording tap makes of an event.\<close>

fun event_data :: "wire_event \<Rightarrow> PacketData" where
  "event_data (OnWrite bs ts) = RawTx bs"
| "event_data (OnRead bs ts) = RawRx bs"
| "event_data (OnError bs e ts) = RawError bs e"

fun event_ts :: "wire_event \<Rightarrow> u64" where
  "event_ts (OnWrite bs ts) = ts"
| "event_ts (OnRead bs ts) = ts"
| "event_ts (OnError bs e ts) = ts"

abbreviation "event_packet ev \<equiv> packet (event_ts ev) (event_data ev)"

section \<open>Time stamps\<close>

text \<open>
  \<open>now_micros\<close> of \<open>src/wire_tap.rs\<close>.  The first call pairs the monotonic clock with the wall clock
  (\<open>None\<close> when that lies before the epoch); \<open>base\<close> is that pair once it is set.  Both clocks are read
  in nanoseconds.
\<close>

type_synonym time_base = "(nat \<times> u64) option"

definition wall_micros :: "nat \<Rightarrow> nat option \<Rightarrow> time_base \<Rightarrow> u64 \<times> time_base" where
  "wall_micros instant system base =
     (let (start, offset) =
        (case base of
           Some b \<Rightarrow> b
         | None \<Rightarrow> (instant, (case system of Some d \<Rightarrow> of_nat (as_micros d) | None \<Rightarrow> 0)))
      in (offset + of_nat (as_micros (instant - start)), Some (start, offset)))"

text \<open>Later stamps do not look at the wall clock, and differ as the monotonic clock does.\<close>

lemma wall_micros_later:
  assumes "snd (wall_micros instant system base) = Some (start, offset)" "instant \<le> instant'"
  shows "fst (wall_micros instant' system' (Some (start, offset))) = offset + of_nat (as_micros (instant' - start))"
    and "snd (wall_micros instant' system' (Some (start, offset))) = Some (start, offset)"
    and "fst (wall_micros instant system base) = offset + of_nat (as_micros (instant - start))"
  using assms by (auto simp: wall_micros_def Let_def split: prod.splits)

lemma wall_micros_monotone:
  assumes "instant \<le> instant'" and no_wrap: "unat offset + as_micros (instant' - start) < 2 ^ 64"
  shows "fst (wall_micros instant system (Some (start, offset))) \<le> fst (wall_micros instant' system' (Some (start, offset)))"
proof -
  have le: "as_micros (instant - start) \<le> as_micros (instant' - start)"
    using assms(1) by (simp add: as_micros_def div_le_mono)
  have "unat (offset + of_nat (as_micros (t - start))) = unat offset + as_micros (t - start)"
    if "as_micros (t - start) \<le> as_micros (instant' - start)" for t
    using that no_wrap by (simp add: unat_word_ariths unat_of_nat)
  with le show ?thesis by (simp add: wall_micros_def word_le_nat_alt)
qed

section \<open>Traffic statistics\<close>

record TrafficStats =
  ts_requests :: u64
  ts_responses :: u64
  ts_errors :: u64

definition stats_new :: TrafficStats where
  "stats_new = \<lparr> ts_requests = 0, ts_responses = 0, ts_errors = 0 \<rparr>"

definition stats_reset :: "TrafficStats \<Rightarrow> TrafficStats" where
  "stats_reset s = s \<lparr> ts_requests := 0, ts_responses := 0, ts_errors := 0 \<rparr>"

fun stats_tap :: "wire_event \<Rightarrow> TrafficStats \<Rightarrow> TrafficStats" where
  "stats_tap (OnWrite bs ts) s = s \<lparr> ts_requests := ts_requests s + 1 \<rparr>"
| "stats_tap (OnRead bs ts) s = s \<lparr> ts_responses := ts_responses s + 1 \<rparr>"
| "stats_tap (OnError bs e ts) s = s \<lparr> ts_errors := ts_errors s + 1 \<rparr>"

section \<open>Packet capture\<close>

type_synonym PacketCapture = "PacketRecord list"

definition capture_record :: "u64 \<Rightarrow> PacketData \<Rightarrow> PacketCapture \<Rightarrow> PacketCapture" where
  "capture_record ts d records = records @ [packet ts d]"

definition capture_drain :: "PacketCapture \<Rightarrow> PacketRecord list \<times> PacketCapture" where
  "capture_drain records = (records, [])"

fun capture_tap :: "wire_event \<Rightarrow> PacketCapture \<Rightarrow> PacketCapture" where
  "capture_tap (OnWrite bs ts) c = capture_record ts (RawTx bs) c"
| "capture_tap (OnRead bs ts) c = capture_record ts (RawRx bs) c"
| "capture_tap (OnError bs e ts) c = capture_record ts (RawError bs e) c"

definition capture_new :: PacketCapture where "capture_new = []"
definition capture_len :: "PacketCapture \<Rightarrow> nat" where "capture_len records = length records"
definition capture_is_empty :: "PacketCapture \<Rightarrow> bool" where "capture_is_empty records \<longleftrightarrow> records = []"

lemma capture_len_new [simp]: "capture_len capture_new = 0" "capture_is_empty c \<longleftrightarrow> capture_len c = 0"
  "capture_len (capture_record ts d c) = capture_len c + 1"
  by (simp_all add: capture_new_def capture_len_def capture_is_empty_def capture_record_def)

section \<open>Bus capture\<close>

datatype Store = StatsOnly | Unbounded "PacketRecord list" | Bounded "PacketRecord list" nat

record BusCapture =
  bc_requests :: u64
  bc_responses :: u64
  bc_errors :: u64
  bc_dropped :: u64
  bc_store :: Store

definition bus_stats_only :: BusCapture where
  "bus_stats_only = \<lparr> bc_requests = 0, bc_responses = 0, bc_errors = 0, bc_dropped = 0, bc_store = StatsOnly \<rparr>"

definition bus_unbounded :: BusCapture where
  "bus_unbounded = \<lparr> bc_requests = 0, bc_responses = 0, bc_errors = 0, bc_dropped = 0, bc_store = Unbounded [] \<rparr>"

definition bus_bounded :: "nat \<Rightarrow> BusCapture" where
  "bus_bounded capacity =
     (let cap = max capacity 1
      in \<lparr> bc_requests = 0, bc_responses = 0, bc_errors = 0, bc_dropped = 0, bc_store = Bounded [] cap \<rparr>)"

definition bus_reset_stats :: "BusCapture \<Rightarrow> BusCapture" where
  "bus_reset_stats c = c \<lparr> bc_requests := 0, bc_responses := 0, bc_errors := 0, bc_dropped := 0 \<rparr>"

definition bus_snapshot :: "BusCapture \<Rightarrow> PacketRecord list" where
  "bus_snapshot c = (case bc_store c of StatsOnly \<Rightarrow> [] | Unbounded v \<Rightarrow> v | Bounded buf cap \<Rightarrow> buf)"

definition bus_len :: "BusCapture \<Rightarrow> nat" where
  "bus_len c = (case bc_store c of StatsOnly \<Rightarrow> 0 | Unbounded v \<Rightarrow> length v | Bounded buf cap \<Rightarrow> length buf)"

definition bus_is_empty :: "BusCapture \<Rightarrow> bool" where
  "bus_is_empty c \<longleftrightarrow> bus_len c = 0"

lemma bus_len_snapshot: "bus_len c = length (bus_snapshot c)"
  by (simp add: bus_len_def bus_snapshot_def split: Store.splits)

definition bus_drain :: "BusCapture \<Rightarrow> PacketRecord list \<times> BusCapture" where
  "bus_drain c =
     (case bc_store c of
        StatsOnly \<Rightarrow> ([], c)
      | Unbounded v \<Rightarrow> (v, c \<lparr> bc_store := Unbounded [] \<rparr>)
      | Bounded buf cap \<Rightarrow> (buf, c \<lparr> bc_store := Bounded [] cap \<rparr>))"

definition bus_record :: "u64 \<Rightarrow> PacketData \<Rightarrow> BusCapture \<Rightarrow> BusCapture" where
  "bus_record ts d c =
     (let record' = packet ts d
      in case bc_store c of
           StatsOnly \<Rightarrow> c
         | Unbounded v \<Rightarrow> c \<lparr> bc_store := Unbounded (v @ [record']) \<rparr>
         | Bounded buf cap \<Rightarrow>
             (if length buf < cap then c \<lparr> bc_store := Bounded (buf @ [record']) cap \<rparr>
              else c \<lparr> bc_store := Bounded (tl buf @ [record']) cap, bc_dropped := bc_dropped c + 1 \<rparr>))"

fun bus_tap :: "wire_event \<Rightarrow> BusCapture \<Rightarrow> BusCapture" where
  "bus_tap (OnWrite bs ts) c = bus_record ts (RawTx bs) (c \<lparr> bc_requests := bc_requests c + 1 \<rparr>)"
| "bus_tap (OnRead bs ts) c = bus_record ts (RawRx bs) (c \<lparr> bc_responses := bc_responses c + 1 \<rparr>)"
| "bus_tap (OnError bs e ts) c = bus_record ts (RawError bs e) (c \<lparr> bc_errors := bc_errors c + 1 \<rparr>)"

section \<open>Ring buffer\<close>

record RingBufferCapture =
  rb_records :: "PacketRecord list"
  rb_capacity :: nat
  rb_unbounded :: bool
  rb_dropped :: u64

definition ring_new :: "nat \<Rightarrow> RingBufferCapture" where
  "ring_new capacity =
     (let cap = max capacity 1
      in \<lparr> rb_records = [], rb_capacity = cap, rb_unbounded = False, rb_dropped = 0 \<rparr>)"

definition ring_unbounded :: RingBufferCapture where
  "ring_unbounded = \<lparr> rb_records = [], rb_capacity = USIZE_MAX, rb_unbounded = True, rb_dropped = 0 \<rparr>"

definition ring_default :: RingBufferCapture where
  "ring_default = ring_new 10000"

definition ring_len :: "RingBufferCapture \<Rightarrow> nat" where
  "ring_len r = length (rb_records r)"

definition ring_is_empty :: "RingBufferCapture \<Rightarrow> bool" where
  "ring_is_empty r \<longleftrightarrow> rb_records r = []"

definition ring_drain :: "RingBufferCapture \<Rightarrow> PacketRecord list \<times> RingBufferCapture" where
  "ring_drain r = (rb_records r, r \<lparr> rb_records := [] \<rparr>)"

definition ring_snapshot :: "RingBufferCapture \<Rightarrow> PacketRecord list" where
  "ring_snapshot r = rb_records r"

definition ring_set_unbounded :: "RingBufferCapture \<Rightarrow> RingBufferCapture" where
  "ring_set_unbounded r = r \<lparr> rb_unbounded := True \<rparr>"

definition ring_set_bounded :: "RingBufferCapture \<Rightarrow> RingBufferCapture" where
  "ring_set_bounded r = r \<lparr> rb_unbounded := False \<rparr>"

definition ring_record :: "u64 \<Rightarrow> PacketData \<Rightarrow> RingBufferCapture \<Rightarrow> RingBufferCapture" where
  "ring_record ts d r =
     (let record' = packet ts d; is_unbounded = rb_unbounded r
      in if is_unbounded \<or> length (rb_records r) < rb_capacity r
         then r \<lparr> rb_records := rb_records r @ [record'] \<rparr>
         else r \<lparr> rb_records := tl (rb_records r) @ [record'], rb_dropped := rb_dropped r + 1 \<rparr>)"

fun ring_tap :: "wire_event \<Rightarrow> RingBufferCapture \<Rightarrow> RingBufferCapture" where
  "ring_tap (OnWrite bs ts) r = ring_record ts (RawTx bs) r"
| "ring_tap (OnRead bs ts) r = ring_record ts (RawRx bs) r"
| "ring_tap (OnError bs e ts) r = ring_record ts (RawError bs e) r"

section \<open>Channel recorder\<close>

text \<open>
  The channel of another crate is a queue of the records sent and not yet received, with a flag
  for whether the receiving task is alive.  \<open>recorder_task\<close> is one turn of that task.
\<close>

record 'sink ChannelRecorder =
  cr_queue :: "PacketRecord list"
  cr_open :: bool
  cr_dropped :: u64
  cr_sink :: 'sink

definition channel_spawn :: "'sink \<Rightarrow> 'sink ChannelRecorder" where
  "channel_spawn sink = \<lparr> cr_queue = [], cr_open = True, cr_dropped = 0, cr_sink = sink \<rparr>"

definition channel_send :: "u64 \<Rightarrow> PacketData \<Rightarrow> 'sink ChannelRecorder \<Rightarrow> 'sink ChannelRecorder" where
  "channel_send ts d c =
     (let record' = packet ts d
      in if cr_open c then c \<lparr> cr_queue := cr_queue c @ [record'] \<rparr>
         else c \<lparr> cr_dropped := cr_dropped c + 1 \<rparr>)"

definition recorder_task :: "(PacketRecord \<Rightarrow> 'sink \<Rightarrow> 'sink) \<Rightarrow> 'sink ChannelRecorder \<Rightarrow> 'sink ChannelRecorder" where
  "recorder_task on_packet c =
     (case cr_queue c of
        [] \<Rightarrow> c
      | r # rest \<Rightarrow> (if cr_open c then c \<lparr> cr_queue := rest, cr_sink := on_packet r (cr_sink c) \<rparr> else c))"

text \<open>Dropping the handle aborts the task.\<close>

definition recorder_abort :: "'sink ChannelRecorder \<Rightarrow> 'sink ChannelRecorder" where
  "recorder_abort c = c \<lparr> cr_open := False, cr_queue := [] \<rparr>"

fun channel_tap :: "wire_event \<Rightarrow> 'sink ChannelRecorder \<Rightarrow> 'sink ChannelRecorder" where
  "channel_tap (OnWrite bs ts) c = channel_send ts (RawTx bs) c"
| "channel_tap (OnRead bs ts) c = channel_send ts (RawRx bs) c"
| "channel_tap (OnError bs e ts) c = channel_send ts (RawError bs e) c"

section \<open>The contract of a recorder\<close>

definition keep_last :: "nat \<Rightarrow> 'a list \<Rightarrow> 'a list" where
  "keep_last n xs = drop (length xs - n) xs"

lemma keep_last_short: "length xs \<le> n \<Longrightarrow> keep_last n xs = xs"
  by (simp add: keep_last_def)

lemma length_keep_last [simp]: "length (keep_last n xs) = min n (length xs)"
  by (simp add: keep_last_def)

lemma keep_last_step: "keep_last n (keep_last n xs @ [y]) = keep_last n (xs @ [y])"
  by (cases "length xs \<le> n") (simp_all add: keep_last_def Suc_diff_le)

text \<open>\<open>room s = None\<close> means that nothing is ever evicted.\<close>

fun kept :: "nat option \<Rightarrow> 'a list \<Rightarrow> 'a list" where
  "kept None xs = xs"
| "kept (Some n) xs = keep_last n xs"

locale recorder =
  fixes tap :: "wire_event \<Rightarrow> 's \<Rightarrow> 's" and contents :: "'s \<Rightarrow> PacketRecord list"
    and room :: "'s \<Rightarrow> nat option" and wf :: "'s \<Rightarrow> bool"
  assumes contents_tap: "wf s \<Longrightarrow> contents (tap ev s) = kept (room s) (contents s @ [event_packet ev])"
    and room_tap: "room (tap ev s) = room s"
    and wf_tap: "wf s \<Longrightarrow> wf (tap ev s)"
    and wf_kept: "wf s \<Longrightarrow> kept (room s) (contents s) = contents s"
begin

lemma contents_fold:
  "wf s \<Longrightarrow> contents (fold tap evs s) = kept (room s) (contents s @ map event_packet evs)"
proof (induction evs rule: rev_induct)
  case Nil
  then show ?case by (simp add: wf_kept)
next
  case (snoc ev evs)
  have wf: "wf (fold tap evs s)" using snoc.prems by (induction evs arbitrary: s) (auto intro: wf_tap)
  have room: "room (fold tap evs s) = room s" by (induction evs arbitrary: s) (auto simp: room_tap)
  have "contents (fold tap (evs @ [ev]) s) = kept (room s) (contents (fold tap evs s) @ [event_packet ev])"
    using contents_tap [OF wf] room by simp
  with snoc show ?case by (cases "room s") (simp_all add: keep_last_step flip: append_assoc)
qed

end

section \<open>The recorders\<close>

definition bus_room :: "BusCapture \<Rightarrow> nat option" where
  "bus_room c = (case bc_store c of StatsOnly \<Rightarrow> Some 0 | Unbounded v \<Rightarrow> None | Bounded buf cap \<Rightarrow> Some cap)"

definition bus_wf :: "BusCapture \<Rightarrow> bool" where
  "bus_wf c \<longleftrightarrow> (case bc_store c of Bounded buf cap \<Rightarrow> length buf \<le> cap \<and> 0 < cap | _ \<Rightarrow> True)"

lemma tl_keep_last: "length xs = n \<Longrightarrow> 0 < n \<Longrightarrow> tl xs @ [x] = keep_last n (xs @ [x])"
  by (cases xs) (simp_all add: keep_last_def)

lemma bus_tap_record:
  "\<exists>r1 r2 r3. bus_tap ev c = bus_record (event_ts ev) (event_data ev)
     (c \<lparr> bc_requests := r1, bc_responses := r2, bc_errors := r3 \<rparr>)"
proof (cases ev)
  case (OnWrite bs ts)
  have "bus_tap ev c = bus_record ts (RawTx bs)
      (c \<lparr> bc_requests := bc_requests c + 1, bc_responses := bc_responses c, bc_errors := bc_errors c \<rparr>)"
    using OnWrite by simp
  with OnWrite show ?thesis by (metis event_data.simps(1) event_ts.simps(1))
next
  case (OnRead bs ts)
  have "bus_tap ev c = bus_record ts (RawRx bs)
      (c \<lparr> bc_requests := bc_requests c, bc_responses := bc_responses c + 1, bc_errors := bc_errors c \<rparr>)"
    using OnRead by simp
  with OnRead show ?thesis by (metis event_data.simps(2) event_ts.simps(2))
next
  case (OnError bs e ts)
  have "bus_tap ev c = bus_record ts (RawError bs e)
      (c \<lparr> bc_requests := bc_requests c, bc_responses := bc_responses c, bc_errors := bc_errors c + 1 \<rparr>)"
    using OnError by simp
  with OnError show ?thesis by (metis event_data.simps(3) event_ts.simps(3))
qed

lemma bus_drain_takes: "fst (bus_drain c) = bus_snapshot c" "bus_is_empty (snd (bus_drain c))"
  by (simp_all add: bus_drain_def bus_snapshot_def bus_is_empty_def bus_len_def split: Store.splits)

lemma bus_record_step:
  assumes "bus_wf c"
  shows "bus_snapshot (bus_record ts d c) = kept (bus_room c) (bus_snapshot c @ [packet ts d])"
    and "bus_wf (bus_record ts d c)"
  using assms tl_keep_last
  by (auto simp: bus_record_def bus_snapshot_def bus_room_def bus_wf_def Let_def keep_last_short keep_last_def
      Suc_le_eq not_less tl_append split: Store.splits list.splits)

lemma bus_record_room: "bus_room (bus_record ts d c) = bus_room c"
  by (auto simp: bus_record_def bus_room_def Let_def split: Store.splits)

interpretation bus: recorder bus_tap bus_snapshot bus_room bus_wf
proof
  fix s ev assume wf: "bus_wf s"
  obtain r1 r2 r3 where tap: "bus_tap ev s = bus_record (event_ts ev) (event_data ev)
     (s \<lparr> bc_requests := r1, bc_responses := r2, bc_errors := r3 \<rparr>)"
    using bus_tap_record by blast
  let ?s = "s \<lparr> bc_requests := r1, bc_responses := r2, bc_errors := r3 \<rparr>"
  from wf have "bus_wf ?s" by (simp add: bus_wf_def)
  note step = bus_record_step [OF this]
  show "bus_snapshot (bus_tap ev s) = kept (bus_room s) (bus_snapshot s @ [event_packet ev])"
    unfolding tap step by (simp add: bus_room_def bus_snapshot_def)
  show "bus_wf (bus_tap ev s)" unfolding tap by (rule step(2))
  show "kept (bus_room s) (bus_snapshot s) = bus_snapshot s"
    using wf by (auto simp: bus_room_def bus_snapshot_def bus_wf_def keep_last_short split: Store.splits)
next
  fix s ev
  obtain r1 r2 r3 where "bus_tap ev s = bus_record (event_ts ev) (event_data ev)
     (s \<lparr> bc_requests := r1, bc_responses := r2, bc_errors := r3 \<rparr>)"
    using bus_tap_record by blast
  then show "bus_room (bus_tap ev s) = bus_room s" by (simp add: bus_record_room) (simp add: bus_room_def)
qed

definition ring_room :: "RingBufferCapture \<Rightarrow> nat option" where
  "ring_room r = (if rb_unbounded r then None else Some (rb_capacity r))"

definition ring_wf :: "RingBufferCapture \<Rightarrow> bool" where
  "ring_wf r \<longleftrightarrow> 0 < rb_capacity r \<and> (\<not> rb_unbounded r \<longrightarrow> length (rb_records r) \<le> rb_capacity r)"

lemma ring_tap_record: "ring_tap ev r = ring_record (event_ts ev) (event_data ev) r"
  by (cases ev) simp_all

interpretation ring: recorder ring_tap rb_records ring_room ring_wf
proof
  fix s ev assume wf: "ring_wf s"
  show "rb_records (ring_tap ev s) = kept (ring_room s) (rb_records s @ [event_packet ev])"
    using wf tl_keep_last [of "rb_records s" "rb_capacity s" "event_packet ev"]
    by (auto simp: ring_tap_record ring_record_def ring_room_def ring_wf_def Let_def keep_last_short)
  show "ring_wf (ring_tap ev s)"
    using wf by (cases "rb_records s") (auto simp: ring_tap_record ring_record_def ring_wf_def Let_def)
  show "kept (ring_room s) (rb_records s) = rb_records s"
    using wf by (auto simp: ring_room_def ring_wf_def keep_last_short)
next
  fix s ev show "ring_room (ring_tap ev s) = ring_room s"
    by (auto simp: ring_tap_record ring_record_def ring_room_def Let_def)
qed

interpretation capture: recorder capture_tap "\<lambda>c. c" "\<lambda>c. None" "\<lambda>c. True"
proof
  fix c :: PacketCapture and ev
  show "capture_tap ev c = kept None (c @ [event_packet ev])" by (cases ev) (simp_all add: capture_record_def)
qed simp_all

section \<open>Counters\<close>

lemma bus_dropped_record:
  "bc_dropped (bus_record ts d c) =
     (case bc_store c of Bounded buf cap \<Rightarrow> if length buf < cap then bc_dropped c else bc_dropped c + 1
      | _ \<Rightarrow> bc_dropped c)"
  by (auto simp: bus_record_def Let_def split: Store.splits)

text \<open>Recorders that count what they drop: every event is kept or counted, unless none is recorded at all.\<close>

locale counting_recorder = recorder +
  fixes dropped :: "'a \<Rightarrow> u64"
  assumes dropped_tap: "wf s \<Longrightarrow> room s \<noteq> Some 0 \<Longrightarrow>
    dropped (tap ev s) + of_nat (length (contents (tap ev s))) = dropped s + of_nat (length (contents s)) + 1"
begin

lemma dropped_fold:
  "wf s \<Longrightarrow> room s \<noteq> Some 0 \<Longrightarrow>
    dropped (fold tap evs s) + of_nat (length (contents (fold tap evs s))) = dropped s + of_nat (length (contents s) + length evs)"
proof (induction evs arbitrary: s)
  case (Cons ev evs)
  with Cons.IH [of "tap ev s"] dropped_tap [of s ev] show ?case by (simp add: room_tap wf_tap algebra_simps)
qed simp

end

lemma bus_record_counted:
  assumes "bus_wf c" "bus_room c \<noteq> Some 0"
  shows "bc_dropped (bus_record ts d c) + of_nat (length (bus_snapshot (bus_record ts d c))) =
    bc_dropped c + of_nat (length (bus_snapshot c)) + 1"
  using assms
  by (auto simp: bus_record_def bus_snapshot_def bus_room_def bus_wf_def Let_def length_tl not_less split: Store.splits)

interpretation bus_counts: counting_recorder bus_tap bus_snapshot bus_room bus_wf bc_dropped
proof
  fix s ev assume wf: "bus_wf s" "bus_room s \<noteq> Some 0"
  obtain r1 r2 r3 where tap: "bus_tap ev s = bus_record (event_ts ev) (event_data ev)
     (s \<lparr> bc_requests := r1, bc_responses := r2, bc_errors := r3 \<rparr>)"
    using bus_tap_record by blast
  let ?s = "s \<lparr> bc_requests := r1, bc_responses := r2, bc_errors := r3 \<rparr>"
  from wf have "bus_wf ?s" "bus_room ?s \<noteq> Some 0" by (simp_all add: bus_wf_def bus_room_def)
  from bus_record_counted [OF this] tap
  show "bc_dropped (bus_tap ev s) + of_nat (length (bus_snapshot (bus_tap ev s))) = bc_dropped s + of_nat (length (bus_snapshot s)) + 1"
    by (simp add: bus_snapshot_def)
qed

interpretation ring_counts: counting_recorder ring_tap rb_records ring_room ring_wf rb_dropped
proof
  fix s ev assume wf: "ring_wf s" "ring_room s \<noteq> Some 0"
  show "rb_dropped (ring_tap ev s) + of_nat (length (rb_records (ring_tap ev s))) = rb_dropped s + of_nat (length (rb_records s)) + 1"
    using wf by (cases "rb_records s") (auto simp: ring_tap_record ring_record_def ring_wf_def Let_def)
qed

lemma stats_counts_fold:
  "ts_requests (fold stats_tap evs c) = ts_requests c + of_nat (length (filter (\<lambda>ev. \<exists>bs ts. ev = OnWrite bs ts) evs))
   \<and> ts_responses (fold stats_tap evs c) = ts_responses c + of_nat (length (filter (\<lambda>ev. \<exists>bs ts. ev = OnRead bs ts) evs))
   \<and> ts_errors (fold stats_tap evs c) = ts_errors c + of_nat (length (filter (\<lambda>ev. \<exists>bs e ts. ev = OnError bs e ts) evs))"
proof (induction evs arbitrary: c)
  case (Cons ev evs)
  then show ?case by (cases ev) simp_all
qed simp

lemma bus_counts_fold:
  "bc_requests (fold bus_tap evs c) = bc_requests c + of_nat (length (filter (\<lambda>ev. \<exists>bs ts. ev = OnWrite bs ts) evs))
   \<and> bc_responses (fold bus_tap evs c) = bc_responses c + of_nat (length (filter (\<lambda>ev. \<exists>bs ts. ev = OnRead bs ts) evs))
   \<and> bc_errors (fold bus_tap evs c) = bc_errors c + of_nat (length (filter (\<lambda>ev. \<exists>bs e ts. ev = OnError bs e ts) evs))"
proof (induction evs arbitrary: c)
  case (Cons ev evs)
  have "bc_requests (bus_record ts d c) = bc_requests c" "bc_responses (bus_record ts d c) = bc_responses c"
    "bc_errors (bus_record ts d c) = bc_errors c" for ts d c
    by (auto simp: bus_record_def Let_def split: Store.splits)
  with Cons show ?case by (cases ev) simp_all
qed simp

end
