(* ===== verification/Modbus_Examples.thy ===== *)
theory Modbus_Examples
  imports Modbus_Service Modbus_Capture
begin

text \<open>
  The services, hooks and the tap that the repository's examples implement on the library's
  interfaces: \<open>ReadOnlyService\<close> and \<open>LoggingService\<close> (\<open>examples/custom_service.rs\<close>), the three hooks of
  \<open>examples/server_with_hook.rs\<close> and the server they are layered into, \<open>DynamicDevice\<close>
  (\<open>examples/dynamic_server.rs\<close>) and \<open>ByteCounter\<close> (\<open>examples/custom_tap.rs\<close>).  Each service is an
  interpretation of \<open>service\<close>, each hook of \<open>hooked_service\<close>.  What they print is left out.
\<close>

section \<open>A read-only service\<close>

definition read_only_call :: "SlaveStore service" where
  "read_only_call ctx store request =
     (case request of
        Request.ReadCoils _ _ \<Rightarrow> store_call store request
      | Request.ReadDiscreteInputs _ _ \<Rightarrow> store_call store request
      | Request.ReadHoldingRegisters _ _ \<Rightarrow> store_call store request
      | Request.ReadInputRegisters _ _ \<Rightarrow> store_call store request
      | _ \<Rightarrow> (Inl IllegalFunction, store))"

lemma read_only_cases:
  "read_only_call ctx s req = store_call s req \<or> read_only_call ctx s req = (Inl IllegalFunction, s)"
  by (simp add: read_only_call_def split: Request.split)

lemma read_only_store: "snd (read_only_call ctx s req) = s"
  by (simp add: read_only_call_def split: Request.split)

interpretation read_only: service read_only_call store_bounded
proof
  fix s req ctx rsp
  assume "store_bounded s" "request_legal req" "fst (read_only_call ctx s req) = Inr rsp"
  with read_only_cases [of ctx s req] show "response_fits rsp" "response_fc rsp \<in> {request_fc req, request_fc req OR 0x80}"
    by (auto simp: store_call_response_fits store_call_fc)
qed (simp add: read_only_store)

text \<open>\<open>LoggingService\<close> of the same example delegates everything.\<close>

definition logging_service_call :: "SlaveStore service" where
  "logging_service_call ctx store request = (let (response, store) = store_call store request in (response, store))"

interpretation logging_service: service logging_service_call store_bounded
proof -
  have "logging_service_call = store_service" by (intro ext) (simp add: logging_service_call_def store_service_def)
  then show "service logging_service_call store_bounded" using store.service_axioms by simp
qed

section \<open>Hooks\<close>

text \<open>\<open>LoggingHook\<close>: its state is the call count.\<close>

definition logging_hook :: "u64 ServerHook" where
  "logging_hook =
     \<lparr> before_call = (\<lambda>call_count slave request. (None, call_count + 1)),
       after_call = (\<lambda>call_count slave result. (result, call_count)) \<rparr>"

definition is_write :: "Request \<Rightarrow> bool" where
  "is_write request =
     (case request of
        Request.WriteSingleRegister _ _ \<Rightarrow> True
      | Request.WriteMultipleRegisters _ _ \<Rightarrow> True
      | Request.WriteSingleCoil _ _ \<Rightarrow> True
      | Request.WriteMultipleCoils _ _ \<Rightarrow> True
      | Request.MaskWriteRegister _ _ _ \<Rightarrow> True
      | Request.ReadWriteMultipleRegisters _ _ _ _ \<Rightarrow> True
      | _ \<Rightarrow> False)"

definition access_control_hook :: "u8 list \<Rightarrow> unit ServerHook" where
  "access_control_hook admin_slaves =
     default_hook \<lparr> before_call := (\<lambda>h slave request.
       (if is_write request \<and> slave \<notin> set admin_slaves
        then Some (Response.Exception (request_fc request) IllegalFunction) else None, h)) \<rparr>"

text \<open>\<open>ComputeHook\<close>: its state is the sensor value.\<close>

definition compute_before :: "u16 \<Rightarrow> u8 \<Rightarrow> Request \<Rightarrow> Response option \<times> u16" where
  "compute_before val slave request =
     (case request of
        Request.ReadHoldingRegisters addr qty \<Rightarrow>
          (if 100 \<le> addr \<and> addr < 110 then
             (let val = val + 1
              in (Some (Response.ReadHoldingRegisters (map (\<lambda>i. val + of_nat i) [0..<unat qty])), val))
           else if addr = 200 then
             (let base = 0x4F4D; regs = [base, 0x5300 + ucast slave]
              in (Some (Response.ReadHoldingRegisters (vec_resize (unat qty) 0 regs)), val))
           else (None, val))
      | _ \<Rightarrow> (None, val))"

definition compute_hook :: "u16 ServerHook" where
  "compute_hook = default_hook \<lparr> before_call := compute_before \<rparr>"

text \<open>The server of the example: logging around access control around computed values.\<close>

definition demo_service :: "u8 list \<Rightarrow> (((SlaveStore \<times> u16) \<times> unit) \<times> u64) service" where
  "demo_service admin_slaves =
     hooked_call (hooked_call (hooked_call store_service compute_hook) (access_control_hook admin_slaves)) logging_hook"

lemma compute_before_fits:
  "request_legal req \<Longrightarrow> fst (compute_before val slave req) = Some rsp \<Longrightarrow>
     response_fits rsp \<and> response_fc rsp = request_fc req"
  by (auto simp: compute_before_def Let_def range_ok_def split: Request.splits if_splits)

interpretation compute: hooked_service store_service store_bounded compute_hook
  by unfold_locales (auto simp: compute_hook_def default_hook_def dest: compute_before_fits)

interpretation access: hooked_service "hooked_call store_service compute_hook" "\<lambda>sh. store_bounded (fst sh)"
    "access_control_hook admin_slaves" for admin_slaves
  by unfold_locales (auto simp: access_control_hook_def default_hook_def split: if_splits)

interpretation logging: hooked_service
    "hooked_call (hooked_call store_service compute_hook) (access_control_hook admin_slaves)"
    "\<lambda>sh. store_bounded (fst (fst sh))" logging_hook for admin_slaves
  by unfold_locales (auto simp: logging_hook_def)

text \<open>
  The layered server: a write from a unit that is no administrator is refused and changes nothing
  but the call count; every other request on plain addresses does to the store what it always does.
\<close>

lemma demo_refuses:
  assumes "is_write req" "slave \<notin> set admin_slaves"
  shows "demo_service admin_slaves (Some slave) (((store, val), u), n) req =
     (Inr (Response.Exception (request_fc req) IllegalFunction), (((store, val), u), n + 1))"
  using assms
  by (simp add: demo_service_def hooked_call_def logging_hook_def access_control_hook_def default_hook_def)

lemma demo_writes:
  assumes "is_write req" "slave \<in> set admin_slaves"
  shows "demo_service admin_slaves (Some slave) (((store, val), u), n) req =
     (fst (store_call store req), (((snd (store_call store req), val), u), n + 1))"
  using assms
  by (auto simp: demo_service_def hooked_call_def logging_hook_def access_control_hook_def default_hook_def
      compute_hook_def compute_before_def store_service_def is_write_def split: Request.splits prod.splits)

lemma demo_reads:
  assumes "\<not> is_write req"
  shows "fst (fst (fst (snd (demo_service admin_slaves ctx (((store, val), u), n) req)))) = snd (store_call store req)"
  using assms
  by (auto simp: demo_service_def hooked_call_def logging_hook_def access_control_hook_def default_hook_def
      compute_hook_def compute_before_def store_service_def is_write_def Let_def
      split: Request.splits prod.splits option.splits if_splits)

text \<open>Computed registers: consecutive values from the counter, which grows by one a read.\<close>

lemma demo_computes:
  assumes "100 \<le> a" "a < 110"
  shows "demo_service admin_slaves (Some slave) (((store, val), u), n) (Request.ReadHoldingRegisters a q) =
     (Inr (Response.ReadHoldingRegisters (map (\<lambda>i. val + 1 + of_nat i) [0..<unat q])), (((store, val + 1), u), n + 1))"
  using assms
  by (simp add: demo_service_def hooked_call_def logging_hook_def access_control_hook_def default_hook_def
      compute_hook_def compute_before_def is_write_def Let_def)

section \<open>A live device\<close>

text \<open>
  \<open>DynamicDevice\<close>: its state is the read count.  The seconds since its start and the temperature
  (a sine of that time in floating point) are arguments of a call, one reading of each for the
  whole call.
\<close>

definition adc_reading :: "u64 \<Rightarrow> u16 \<times> u64" where
  "adc_reading read_count =
     (ucast (drop_bit 16 (read_count * 1103515245 + 12345) AND 0x3FF), read_count + 1)"

fun adc_readings :: "nat \<Rightarrow> u64 \<Rightarrow> u16 list \<times> u64" where
  "adc_readings 0 read_count = ([], read_count)"
| "adc_readings (Suc n) read_count =
     (let (r, read_count) = adc_reading read_count; (rs, read_count) = adc_readings n read_count
      in (r # rs, read_count))"

definition dynamic_device_call :: "u64 \<Rightarrow> u16 \<Rightarrow> u64 service" where
  "dynamic_device_call elapsed temperature ctx read_count request =
     (let uptime = ucast elapsed
      in case request of
        Request.ReadHoldingRegisters addr cnt \<Rightarrow>
          (Inr (Response.ReadHoldingRegisters
             (map (\<lambda>i. let a = addr + of_nat i in if a = 0 then uptime else if a = 1 then temperature else 0)
                [0..<unat cnt])), read_count)
      | Request.ReadInputRegisters addr cnt \<Rightarrow>
          (let (regs, read_count) = adc_readings (unat cnt) read_count
           in (Inr (Response.ReadInputRegisters regs), read_count))
      | Request.ReadCoils addr cnt \<Rightarrow>
          (let heartbeat = ((elapsed div 5) mod 2 = 0)
           in (Inr (Response.ReadCoils (map (\<lambda>i. addr + of_nat i = 0 \<and> heartbeat) [0..<unat cnt])), read_count))
      | Request.ReadDiscreteInputs addr cnt \<Rightarrow>
          (let overheat = temperature > 250
           in (Inr (Response.ReadDiscreteInputs (map (\<lambda>i. addr + of_nat i = 0 \<and> overheat) [0..<unat cnt])), read_count))
      | Request.WriteSingleRegister addr value \<Rightarrow> (Inr (Response.WriteSingleRegister addr value), read_count)
      | Request.WriteMultipleRegisters addr values \<Rightarrow>
          (Inr (Response.WriteMultipleRegisters addr (of_nat (length values))), read_count)
      | _ \<Rightarrow> (Inl IllegalFunction, read_count))"

lemma adc_readings_Suc:
  "fst (adc_readings (Suc n) c) = fst (adc_reading c) # fst (adc_readings n (c + 1))"
  "snd (adc_readings (Suc n) c) = snd (adc_readings n (c + 1))"
  by (simp_all add: case_prod_beta Let_def adc_reading_def)

lemma adc_readings_length: "length (fst (adc_readings n c)) = n"
  by (induction n arbitrary: c) (simp_all add: adc_readings_Suc del: adc_readings.simps(2))

text \<open>Ten bits, whatever the count.\<close>

lemma adc_reading_bound: "unat (fst (adc_reading c)) < 1024"
proof -
  let ?x = "drop_bit 16 (c * 1103515245 + 12345)"
  have "?x AND 0x3FF = take_bit 10 ?x" by (simp add: take_bit_eq_mask mask_eq_exp_minus_1)
  then have "unat (fst (adc_reading c)) = take_bit 16 (take_bit 10 (unat ?x))"
    by (simp add: adc_reading_def unsigned_ucast_eq unsigned_take_bit_eq)
  also have "\<dots> \<le> take_bit 10 (unat ?x)" by (rule take_bit_nat_less_eq_self)
  also have "\<dots> < 2 ^ 10" by (rule take_bit_nat_less_exp)
  finally show ?thesis by simp
qed

lemma adc_readings_bound: "r \<in> set (fst (adc_readings n c)) \<Longrightarrow> unat r < 1024"
  by (induction n arbitrary: c)
    (auto simp: adc_readings_Suc adc_reading_bound simp del: adc_readings.simps(2))

interpretation device: service "dynamic_device_call elapsed temperature" "\<lambda>_. True" for elapsed temperature
  by unfold_locales
    (auto simp: dynamic_device_call_def range_ok_def Let_def adc_readings_length split: Request.splits prod.splits
      dest!: arg_cong [where f = "length \<circ> fst"])

section \<open>A byte counter\<close>

record ByteCounter =
  tx_bytes :: u64
  rx_bytes :: u64
  error_count :: u64

definition byte_counter_new :: ByteCounter where
  "byte_counter_new = \<lparr> tx_bytes = 0, rx_bytes = 0, error_count = 0 \<rparr>"

fun byte_counter_tap :: "wire_event \<Rightarrow> ByteCounter \<Rightarrow> ByteCounter" where
  "byte_counter_tap (OnWrite bytes ts) c = c \<lparr> tx_bytes := tx_bytes c + of_nat (length bytes) \<rparr>"
| "byte_counter_tap (OnRead bytes ts) c = c \<lparr> rx_bytes := rx_bytes c + of_nat (length bytes) \<rparr>"
| "byte_counter_tap (OnError bytes error ts) c = c \<lparr> error_count := error_count c + 1 \<rparr>"

text \<open>The counters are the sums over the events, modulo \<open>2^64\<close>.\<close>

lemma byte_counter_fold:
  "tx_bytes (fold byte_counter_tap evs c) =
     tx_bytes c + of_nat (\<Sum>ev\<leftarrow>evs. case ev of OnWrite bs ts \<Rightarrow> length bs | _ \<Rightarrow> 0)"
  "rx_bytes (fold byte_counter_tap evs c) =
     rx_bytes c + of_nat (\<Sum>ev\<leftarrow>evs. case ev of OnRead bs ts \<Rightarrow> length bs | _ \<Rightarrow> 0)"
  by (induction evs arbitrary: c rule: list.induct) (auto split: wire_event.splits)

end
