(* ===== verification/Modbus_Session.thy ===== *)
theory Modbus_Session
  imports Modbus_Client Modbus_Examples
begin

text \<open>
  Whole client programs.  A program is a sequence of client calls over any transport; an error
  ends it as the source's \<open>?\<close> does, and what it prints is collected in its result.  Two programs
  are related by \<open>simulates\<close>: whatever a program asks, a link to a server answers it as the
  service itself would, and the store as four plain memories would.  The programs are the main
  functions of the repository's examples; connecting, timing and the tap are left to the transport.
\<close>

section \<open>Programs\<close>

text \<open>
  A program ends with a result, with the error of a call, or by a panic: an index out of range or an
  arithmetic overflow.
\<close>

datatype failure = CallFailed ModbusError | OutOfRange | Overflow

type_synonym ('s, 'a) program = "'s \<Rightarrow> (failure + 'a) \<times> 's"

definition finish :: "'a \<Rightarrow> ('s, 'a) program" where
  "finish x s = (Inr x, s)"

text \<open>\<open>client.call(..).await?\<close>, and the same under a \<open>match\<close>.\<close>

definition await :: "('s \<Rightarrow> (ModbusError + 'a) \<times> 's) \<Rightarrow> ('a \<Rightarrow> ('s, 'b) program) \<Rightarrow> ('s, 'b) program" where
  "await m k s = (case m s of (Inl e, s) \<Rightarrow> (Inl (CallFailed e), s) | (Inr x, s) \<Rightarrow> k x s)"

definition attempt :: "('s \<Rightarrow> (ModbusError + 'a) \<times> 's) \<Rightarrow> (ModbusError + 'a \<Rightarrow> ('s, 'b) program) \<Rightarrow> ('s, 'b) program" where
  "attempt m k s = (case m s of (r, s) \<Rightarrow> k r s)"

definition index :: "'x list \<Rightarrow> nat \<Rightarrow> ('x \<Rightarrow> ('s, 'b) program) \<Rightarrow> ('s, 'b) program" where
  "index xs i k s = (if i < length xs then k (xs ! i) s else (Inl OutOfRange, s))"

text \<open>A look at the server's store from the same process.\<close>

definition inspect :: "('s \<Rightarrow> 'x) \<Rightarrow> ('x \<Rightarrow> ('s, 'b) program) \<Rightarrow> ('s, 'b) program" where
  "inspect f k s = k (f s) s"

datatype printed = Bits "bool list" | Regs "u16 list" | Bit bool | Reg u16 | Written | Refused ModbusError

text \<open>Arithmetic that must not overflow, and one part of a program after another.\<close>

definition require :: "bool \<Rightarrow> ('s, 'b) program \<Rightarrow> ('s, 'b) program" where
  "require c k s = (if c then k s else (Inl Overflow, s))"

definition and_then :: "('s, 'a) program \<Rightarrow> ('a \<Rightarrow> ('s, 'b) program) \<Rightarrow> ('s, 'b) program" where
  "and_then p k s = (case p s of (Inl e, s) \<Rightarrow> (Inl e, s) | (Inr x, s) \<Rightarrow> k x s)"

lemmas program_ops = finish_def await_def attempt_def index_def inspect_def

section \<open>Simulation\<close>

definition simulates :: "('s \<Rightarrow> 't \<Rightarrow> bool) \<Rightarrow> ('s \<Rightarrow> 'a \<times> 's) \<Rightarrow> ('t \<Rightarrow> 'a \<times> 't) \<Rightarrow> bool" where
  "simulates R p q \<longleftrightarrow> (\<forall>s t. R s t \<longrightarrow> fst (p s) = fst (q t) \<and> R (snd (p s)) (snd (q t)))"

named_theorems sim

lemma simulatesD: "simulates R p q \<Longrightarrow> R s t \<Longrightarrow> fst (p s) = fst (q t) \<and> R (snd (p s)) (snd (q t))"
  by (simp add: simulates_def)

lemma sim_finish [sim]: "simulates R (finish x) (finish x)"
  by (simp add: simulates_def finish_def)

lemma sim_await [sim]:
  "simulates R m n \<Longrightarrow> (\<And>x. simulates R (k x) (l x)) \<Longrightarrow> simulates R (await m k) (await n l)"
  by (fastforce simp: simulates_def await_def split: sum.splits prod.splits)

lemma sim_attempt [sim]:
  "simulates R m n \<Longrightarrow> (\<And>x. simulates R (k x) (l x)) \<Longrightarrow> simulates R (attempt m k) (attempt n l)"
  by (fastforce simp: simulates_def attempt_def split: prod.splits)

lemma sim_index [sim]: "(\<And>x. simulates R (k x) (l x)) \<Longrightarrow> simulates R (index xs i k) (index xs i l)"
  by (simp add: simulates_def index_def)

lemma sim_inspect [sim]:
  "(\<And>s t. R s t \<Longrightarrow> f s = g t) \<Longrightarrow> (\<And>x. simulates R (k x) (l x)) \<Longrightarrow> simulates R (inspect f k) (inspect g l)"
  by (auto simp: simulates_def inspect_def)

lemma sim_require [sim]: "simulates R k l \<Longrightarrow> simulates R (require c k) (require c l)"
  by (simp add: simulates_def require_def)

lemma sim_and_then [sim]:
  "simulates R p q \<Longrightarrow> (\<And>x. simulates R (k x) (l x)) \<Longrightarrow> simulates R (and_then p k) (and_then q l)"
  by (fastforce simp: simulates_def and_then_def split: sum.splits prod.splits)

lemma sim_expect: "simulates R c d \<Longrightarrow> simulates R (\<lambda>s. expect f (c s)) (\<lambda>s. expect f (d s))"
  by (fastforce simp: simulates_def expect_def split: prod.splits)

text \<open>The client methods keep a simulation of their transports.\<close>

lemma sim_methods [sim]:
  "simulates R (c slave (Request.ReadCoils a n)) (d slave (Request.ReadCoils a n)) \<Longrightarrow>
     simulates R (client_read_coils c slave a n) (client_read_coils d slave a n)"
  "simulates R (c slave (Request.ReadDiscreteInputs a n)) (d slave (Request.ReadDiscreteInputs a n)) \<Longrightarrow>
     simulates R (client_read_discrete_inputs c slave a n) (client_read_discrete_inputs d slave a n)"
  "simulates R (c slave (Request.ReadHoldingRegisters a n)) (d slave (Request.ReadHoldingRegisters a n)) \<Longrightarrow>
     simulates R (client_read_holding_registers c slave a n) (client_read_holding_registers d slave a n)"
  "simulates R (c slave (Request.ReadInputRegisters a n)) (d slave (Request.ReadInputRegisters a n)) \<Longrightarrow>
     simulates R (client_read_input_registers c slave a n) (client_read_input_registers d slave a n)"
  "simulates R (c slave (Request.WriteSingleCoil a v)) (d slave (Request.WriteSingleCoil a v)) \<Longrightarrow>
     simulates R (client_write_single_coil c slave a v) (client_write_single_coil d slave a v)"
  "simulates R (c slave (Request.WriteSingleRegister a w)) (d slave (Request.WriteSingleRegister a w)) \<Longrightarrow>
     simulates R (client_write_single_register c slave a w) (client_write_single_register d slave a w)"
  "simulates R (c slave (Request.WriteMultipleCoils a vs)) (d slave (Request.WriteMultipleCoils a vs)) \<Longrightarrow>
     simulates R (client_write_multiple_coils c slave a vs) (client_write_multiple_coils d slave a vs)"
  "simulates R (c slave (Request.WriteMultipleRegisters a ws)) (d slave (Request.WriteMultipleRegisters a ws)) \<Longrightarrow>
     simulates R (client_write_multiple_registers c slave a ws) (client_write_multiple_registers d slave a ws)"
  "simulates R (c slave (Request.MaskWriteRegister a w x)) (d slave (Request.MaskWriteRegister a w x)) \<Longrightarrow>
     simulates R (client_mask_write_register c slave a w x) (client_mask_write_register d slave a w x)"
  "simulates R (c slave (Request.Diagnostic a w)) (d slave (Request.Diagnostic a w)) \<Longrightarrow>
     simulates R (client_diagnostic c slave a w) (client_diagnostic d slave a w)"
  "simulates R (c slave (Request.ReadWriteMultipleRegisters a n b ws)) (d slave (Request.ReadWriteMultipleRegisters a n b ws)) \<Longrightarrow>
     simulates R (client_read_write_multiple_registers c slave a n b ws) (client_read_write_multiple_registers d slave a n b ws)"
  by (simp_all only: client_ops [abs_def] sim_expect)

section \<open>What answers\<close>

text \<open>Four plain memories in the place of the store.\<close>

definition memory_transport :: "memory transport" where
  "memory_transport slave req m =
     (Inr (response_view (reply_of req (fst (memory_call m req)))), snd (memory_call m req))"

lemma sim_memory:
  assumes "request_legal req"
  shows "simulates (\<lambda>s m. store_bounded s \<and> abs_store s = m) (service_transport store_service slave req) (memory_transport slave req)"
  unfolding simulates_def
proof (intro allI impI)
  fix s m
  assume s: "store_bounded s \<and> abs_store s = m"
  have "map_prod id abs_store (store_call s req) = memory_call m req" using store_call_refines_aux [of s req] s by simp
  then have "fst (memory_call m req) = fst (store_call s req)" "snd (memory_call m req) = abs_store (snd (store_call s req))"
    by (metis fst_map_prod id_apply, metis snd_map_prod)
  then show "fst (service_transport store_service slave req s) = fst (memory_transport slave req m) \<and>
      store_bounded (snd (service_transport store_service slave req s)) \<and>
      abs_store (snd (service_transport store_service slave req s)) = snd (memory_transport slave req m)"
    using s assms store_call_bounded_aux
    by (simp add: service_transport_store memory_transport_def remote_reply_def)
qed

context service_link
begin

lemma sim_link:
  assumes "askable slave req" "good slave req"
  shows "simulates (\<lambda>s t. inv s \<and> s = t) (link slave req) (service_transport call slave req)"
  using service_link [OF _ assms] assms(1) call_inv by (simp add: simulates_def service_transport_def askable_def)

end

context store_link
begin

lemma sim_store:
  assumes "askable slave req" "good slave req"
  shows "simulates (\<lambda>s m. store_bounded s \<and> abs_store s = m) (link slave req) (memory_transport slave req)"
  using sim_link [OF assms] sim_memory [of req slave] assms(1) by (simp add: simulates_def askable_def)

end

text \<open>Over TCP only the units 15, 16, 22 and 23 can have a request that is misread.\<close>

lemma not_shadowed_request:
  assumes "request_legal req" "slave \<notin> {15, 16, 22, 23}"
  shows "\<not> shadowed slave (request_pdu req)"
proof (cases "length (request_pdu req) \<le> 5")
  case False
  with assms have "slave \<noteq> hd (request_pdu req)" by (cases req) auto
  then show ?thesis by (rule not_shadowed_unit)
qed simp

section \<open>The store of an example\<close>

lemma get_reg_update: "i < length hr \<Longrightarrow> get_reg (hr[i := w]) = (get_reg hr)(i := w)"
  by (auto simp: get_reg_def fun_eq_iff)

lemma fold_max_ge: "x \<le> fold max ys (m :: nat) \<longleftrightarrow> x \<le> m \<or> (\<exists>y \<in> set ys. x \<le> y)"
  by (induction ys arbitrary: m) (auto simp: le_max_iff_disj)

lemma fold_updates:
  "\<forall>(a, w) \<in> set regs. unat a < length hr \<Longrightarrow>
     length (fold (\<lambda>(addr, val) hr. hr[unat addr := val]) regs hr) = length hr
     \<and> get_reg (fold (\<lambda>(addr, val) hr. hr[unat addr := val]) regs hr) =
         fold (\<lambda>(addr, val) m. m(unat addr := val)) regs (get_reg hr)"
  by (induction regs arbitrary: hr) (auto simp: get_reg_update)

lemma get_reg_zero: "get_reg (replicate n 0) = (\<lambda>_. 0)"
  by (auto simp: get_reg_def fun_eq_iff)

lemma get_bit_zero: "get_bit (replicate n 0) = (\<lambda>_. False)"
  by (auto simp: get_bit_def fun_eq_iff Let_def)

lemma vec_resize_zero: "vec_resize n 0 (replicate m 0) = replicate n 0"
  by (simp add: vec_resize_def min_def flip: replicate_add)

lemma fold_max_less: "\<forall>y \<in> set ys. y < b \<Longrightarrow> m < b \<Longrightarrow> fold max ys (m :: nat) < b"
  by (induction ys arbitrary: m) auto

lemma with_holding_registers_memory:
  "abs_store (with_holding_registers regs) =
     \<lparr> coil = \<lambda>_. False, input = \<lambda>_. False,
       holding = fold (\<lambda>(addr, val) m. m(unat addr := val)) regs (\<lambda>_. 0), input_reg = \<lambda>_. 0 \<rparr>"
  "store_bounded (with_holding_registers regs)"
proof -
  let ?top = "fold max (map (\<lambda>(a, _). unat a) regs) 0"
  let ?n = "if 1024 \<le> ?top then ?top + 1 else 1024"
  have regs: "holding_registers (with_holding_registers regs) =
      fold (\<lambda>(addr, val) hr. hr[unat addr := val]) regs (replicate ?n 0)"
    by (simp add: with_holding_registers_def store_new_def Let_def vec_resize_zero DEFAULT_REG_COUNT_def)
  have "unat a \<le> ?top" if "(a, w) \<in> set regs" for a w
    using that by (auto simp: fold_max_ge intro!: bexI [of _ "(a, w)"])
  then have "\<forall>(a, w) \<in> set regs. unat a < length (replicate ?n (0 :: u16))" by fastforce
  note upd = fold_updates [OF this]
  then show "abs_store (with_holding_registers regs) = \<lparr> coil = \<lambda>_. False, input = \<lambda>_. False,
      holding = fold (\<lambda>(addr, val) m. m(unat addr := val)) regs (\<lambda>_. 0), input_reg = \<lambda>_. 0 \<rparr>"
    using regs by (simp add: abs_store_def get_reg_zero)
      (simp add: with_holding_registers_def store_new_def Let_def get_reg_zero get_bit_zero)
  have "?top < 65536" by (intro fold_max_less) (auto intro: unat_u16_less)
  then show "store_bounded (with_holding_registers regs)"
    using regs upd by (simp add: store_bounded_def)
      (simp add: with_holding_registers_def store_new_def Let_def DEFAULT_REG_COUNT_def)
qed

section \<open>\<open>examples/all_function_codes.rs\<close>\<close>

definition function_codes_store :: SlaveStore where
  "function_codes_store =
     (let store = with_holding_registers [(0, 100), (1, 200), (10, 500), (20, 1000), (21, 2000), (22, 3000)];
          store = write_coil store 0 True;
          store = write_coil store 1 False
      in write_coil store 2 True)"

text \<open>The program; \<open>peek\<close> is its look at register 10 of the shared store.\<close>

definition all_function_codes :: "'s transport \<Rightarrow> ('s \<Rightarrow> u16) \<Rightarrow> ('s, printed list) program" where
  "all_function_codes call peek =
     await (client_read_coils call 1 0 8) (\<lambda>coils.
     await (client_read_discrete_inputs call 1 0 4) (\<lambda>inputs.
     await (client_read_holding_registers call 1 0 3) (\<lambda>regs.
     await (client_read_input_registers call 1 0 2) (\<lambda>input_regs.
     index coils 1 (\<lambda>before.
     await (client_write_single_coil call 1 1 True) (\<lambda>_.
     await (client_read_coils call 1 0 3) (\<lambda>coils5.
     index coils5 1 (\<lambda>after.
     await (client_write_single_register call 1 0 7777) (\<lambda>_.
     await (client_read_holding_registers call 1 0 1) (\<lambda>regs6.
     index regs6 0 (\<lambda>holding0.
     await (client_write_multiple_coils call 1 0 [True, True, False, False]) (\<lambda>_.
     await (client_read_coils call 1 0 4) (\<lambda>coils15.
     await (client_write_multiple_registers call 1 0 [111, 222, 333]) (\<lambda>_.
     await (client_read_holding_registers call 1 0 3) (\<lambda>regs16.
     inspect peek (\<lambda>before10.
     await (client_mask_write_register call 1 10 0x00FF 0xFF00) (\<lambda>_.
     await (client_read_holding_registers call 1 10 1) (\<lambda>regs22.
     index regs22 0 (\<lambda>holding10.
     await (client_read_write_multiple_registers call 1 20 4 20 [100, 200, 300]) (\<lambda>read_back.
     await (client_read_holding_registers call 1 20 4) (\<lambda>regs23.
     finish [Bits coils, Bits inputs, Regs regs, Regs input_regs, Bit before, Bit after, Reg holding0,
       Bits coils15, Regs regs16, Reg before10, Reg holding10, Regs read_back, Regs regs23])))))))))))))))))))))"

definition function_codes_output :: "printed list" where
  "function_codes_output =
     [Bits [True, False, True, False, False, False, False, False],
      Bits [False, False, False, False, False, False, False, False],
      Regs [100, 200, 0], Regs [0, 0], Bit False, Bit True, Reg 7777,
      Bits [True, True, False, False, False, False, False, False],
      Regs [111, 222, 333], Reg 500, Reg 0xFFF4, Regs [1000, 2000, 3000, 0], Regs [100, 200, 300, 0]]"

lemma write_coil_bounded: "store_bounded s \<Longrightarrow> store_bounded (write_coil s a v)"
  by (simp add: store_bounded_def write_coil_def write_bit_def put_bit_bounded)

lemma function_codes_store_memory:
  "store_bounded function_codes_store"
  "abs_store function_codes_store =
     \<lparr> coil = (\<lambda>_. False)(0 := True, 1 := False, 2 := True), input = \<lambda>_. False,
       holding = (\<lambda>_. 0)(0 := 100, 1 := 200, 10 := 500, 20 := 1000, 21 := 2000, 22 := 3000), input_reg = \<lambda>_. 0 \<rparr>"
proof -
  let ?regs = "[(0, 100), (1, 200), (10, 500), (20, 1000), (21, 2000), (22, 3000)] :: (u16 \<times> u16) list"
  note base = with_holding_registers_memory [of ?regs]
  show "store_bounded function_codes_store"
    using base(2) by (simp add: function_codes_store_def Let_def write_coil_bounded)
  show "abs_store function_codes_store =
     \<lparr> coil = (\<lambda>_. False)(0 := True, 1 := False, 2 := True), input = \<lambda>_. False,
       holding = (\<lambda>_. 0)(0 := 100, 1 := 200, 10 := 500, 20 := 1000, 21 := 2000, 22 := 3000), input_reg = \<lambda>_. 0 \<rparr>"
    using base(1)
    by (simp add: function_codes_store_def Let_def write_coil_def write_bit_def abs_store_def get_bit_put_bit_upd)
qed

lemma replicate_num: "replicate (numeral k) x = x # replicate (pred_numeral k) x"
  by (simp add: numeral_eq_Suc)

lemmas memory_run =
  program_ops client_ops expect_def memory_transport_def reply_of_def overwrite_def pad8_def div_ceil_def
  upt_rec nth_Cons' replicate_num

lemma function_codes_memory:
  "fst (all_function_codes memory_transport (\<lambda>m. holding m 10) (abs_store function_codes_store)) =
     Inr function_codes_output"
  by (simp add: all_function_codes_def function_codes_output_def function_codes_store_memory(2) memory_run)

text \<open>Over a link to the store that carries unit 1 the program does what it does on the memories.\<close>

lemma askable_simps [simp]:
  "askable slave (Request.ReadCoils a n) \<longleftrightarrow> slave \<noteq> 0 \<and> range_ok a (unat n) 2000"
  "askable slave (Request.ReadDiscreteInputs a n) \<longleftrightarrow> slave \<noteq> 0 \<and> range_ok a (unat n) 2000"
  "askable slave (Request.ReadHoldingRegisters a n) \<longleftrightarrow> slave \<noteq> 0 \<and> range_ok a (unat n) 125"
  "askable slave (Request.ReadInputRegisters a n) \<longleftrightarrow> slave \<noteq> 0 \<and> range_ok a (unat n) 125"
  "askable slave (Request.WriteSingleCoil a v) \<longleftrightarrow> slave \<noteq> 0"
  "askable slave (Request.WriteSingleRegister a w) \<longleftrightarrow> slave \<noteq> 0"
  "askable slave (Request.WriteMultipleCoils a vs) \<longleftrightarrow> slave \<noteq> 0 \<and> range_ok a (length vs) 1976"
  "askable slave (Request.WriteMultipleRegisters a ws) \<longleftrightarrow> slave \<noteq> 0 \<and> range_ok a (length ws) 123"
  "askable slave (Request.MaskWriteRegister a w x) \<longleftrightarrow> slave \<noteq> 0"
  by (auto simp: askable_def range_ok_def div_ceil_8)

context store_link
begin

lemma function_codes_link:
  assumes "\<And>req. askable 1 req \<Longrightarrow> good 1 req"
  shows "fst (all_function_codes link (\<lambda>s. read_holding_register s 10) function_codes_store) = Inr function_codes_output"
proof -
  have "simulates (\<lambda>s m. store_bounded s \<and> abs_store s = m)
      (all_function_codes link (\<lambda>s. read_holding_register s 10)) (all_function_codes memory_transport (\<lambda>m. holding m 10))"
    unfolding all_function_codes_def
    by (intro sim sim_store assms) (auto simp: range_ok_def askable_def read_holding_register_def abs_store_def)
  from simulatesD [OF this, of function_codes_store "abs_store function_codes_store"] function_codes_store_memory(1)
  show ?thesis by (simp add: function_codes_memory)
qed

end

section \<open>\<open>examples/server_with_hook.rs\<close>\<close>

text \<open>The client's requests to the layered server, administrator unit 1.\<close>

definition hook_demo :: "'s transport \<Rightarrow> ('s, printed list) program" where
  "hook_demo call =
     await (client_read_holding_registers call 1 0 3) (\<lambda>regs.
     await (client_read_holding_registers call 1 100 2) (\<lambda>computed1.
     await (client_read_holding_registers call 1 100 2) (\<lambda>computed2.
     await (client_read_holding_registers call 1 100 2) (\<lambda>computed3.
     await (client_read_holding_registers call 1 200 4) (\<lambda>info.
     await (client_write_single_register call 1 0 9999) (\<lambda>_.
     await (client_read_holding_registers call 1 0 1) (\<lambda>regs4.
     attempt (client_write_single_register call 2 0 5555) (\<lambda>denied.
     attempt (client_read_holding_registers call 2 0 1) (\<lambda>regs6.
     finish [Regs regs, Regs computed1, Regs computed2, Regs computed3, Regs info, Regs regs4,
       (case denied of Inr _ \<Rightarrow> Written | Inl e \<Rightarrow> Refused e),
       (case regs6 of Inr regs \<Rightarrow> Regs regs | Inl e \<Rightarrow> Refused e)])))))))))"

definition hook_demo_store :: SlaveStore where
  "hook_demo_store = with_holding_registers [(0, 1234), (1, 5678), (2, 100), (3, 42)]"

definition hook_demo_output :: "printed list" where
  "hook_demo_output =
     [Regs [1234, 5678, 100], Regs [1001, 1002], Regs [1002, 1003], Regs [1003, 1004],
      Regs [0x4F4D, 0x5301, 0, 0], Regs [9999], Refused (ModbusError.Exception 6 1), Regs [9999]]"

lemma hook_demo_regs:
  "get_reg (holding_registers hook_demo_store) = (\<lambda>_. 0)(0 := 1234, 1 := 5678, 2 := 100, 3 := 42)"
  "store_bounded hook_demo_store"
proof -
  let ?regs = "[(0, 1234), (1, 5678), (2, 100), (3, 42)] :: (u16 \<times> u16) list"
  show "get_reg (holding_registers hook_demo_store) = (\<lambda>_. 0)(0 := 1234, 1 := 5678, 2 := 100, 3 := 42)"
    using arg_cong [OF with_holding_registers_memory(1) [of ?regs], of holding]
    by (simp add: hook_demo_store_def abs_store_def)
  show "store_bounded hook_demo_store" unfolding hook_demo_store_def by (rule with_holding_registers_memory(2))
qed

abbreviation demo_inv :: "((SlaveStore \<times> u16) \<times> unit) \<times> u64 \<Rightarrow> bool" where
  "demo_inv st \<equiv> store_bounded (fst (fst (fst st)))"

interpretation demo: service "demo_service admin_slaves" demo_inv for admin_slaves
  unfolding demo_service_def by (rule logging.hooked.service_axioms)

interpretation sized_demo: sized_service "demo_service admin_slaves" demo_inv for admin_slaves
proof
  fix st :: "((SlaveStore \<times> u16) \<times> unit) \<times> u64" and req ctx rsp
  assume legal: "request_legal req" and rsp: "fst (demo_service admin_slaves ctx st req) = Inr rsp"
  obtain store val u n where st: "st = (((store, val), u), n)" by (metis prod.collapse)
  from rsp consider "fst (store_call store req) = Inr rsp" | fc ex where "rsp = Response.Exception fc ex"
    | a q regs where "req = Request.ReadHoldingRegisters a q" "rsp = Response.ReadHoldingRegisters regs" "length regs = unat q"
    by (auto simp: st demo_service_def hooked_call_def logging_hook_def access_control_hook_def default_hook_def
        compute_hook_def compute_before_def store_service_def Let_def
        split: Request.splits prod.splits option.splits if_splits)
  then show "length (response_pdu rsp) \<le> the (expected_rtu_pdu_len req)"
  proof cases
    case 1
    then show ?thesis using expected_length_aux [OF legal] by simp
  next
    case 2
    then show ?thesis using legal by (cases req) auto
  next
    case 3
    then show ?thesis by simp
  qed
qed

interpretation demo_rtu: service_link "demo_service admin_slaves" demo_inv
    "rtu_link (demo_service admin_slaves) timeout pieces" "\<lambda>slave req. delivers timeout pieces"
  for admin_slaves timeout pieces
  by unfold_locales (rule sized_demo.rtu_link_service)

interpretation demo_ascii: service_link "demo_service admin_slaves" demo_inv
    "ascii_link (demo_service admin_slaves) timeout pieces" "\<lambda>slave req. delivers timeout pieces"
  for admin_slaves timeout pieces
  by unfold_locales (rule demo.ascii_link_service)

interpretation demo_tcp: service_link "demo_service admin_slaves" demo_inv
    "tcp_link config (demo_service admin_slaves) timeout pieces"
    "\<lambda>slave req. tcp_readable config slave req \<and> tcp_delivers config timeout pieces"
  for config admin_slaves timeout pieces
  by unfold_locales (auto intro: demo.tcp_link_service)

text \<open>The program on the service itself, and over any link to a service.\<close>

lemma hook_demo_direct:
  "fst (hook_demo (service_transport (demo_service [1])) (((hook_demo_store, 1000), ()), 0)) = Inr hook_demo_output"
  by (simp add: hook_demo_def hook_demo_output_def program_ops client_ops expect_def service_transport_def reply_of_def
      demo_service_def hooked_call_def logging_hook_def access_control_hook_def compute_hook_def compute_before_def
      default_hook_def store_service_def is_write_def store_ops cell_simps hook_demo_regs(1) upt_rec vec_resize_def
      replicate_num unexpected_response_def)

context service_link
begin

lemma hook_demo_link:
  assumes "\<And>slave req. askable slave req \<Longrightarrow> slave \<in> {1, 2} \<Longrightarrow> good slave req" "inv s"
  shows "fst (hook_demo link s) = fst (hook_demo (service_transport call) s)"
proof -
  have "simulates (\<lambda>s t. inv s \<and> s = t) (hook_demo link) (hook_demo (service_transport call))"
    unfolding hook_demo_def by (intro sim sim_link assms(1)) (simp_all add: range_ok_def)
  from simulatesD [OF this, of s s] assms(2) show ?thesis by simp
qed

end

text \<open>The requests of the programs go to units whose id is no function code.\<close>

lemma readable_small: "askable slave req \<Longrightarrow> slave \<in> {1, 2} \<Longrightarrow> tcp_readable config slave req"
  using not_shadowed_request [of req slave] by (auto simp: askable_def tcp_readable_def)

lemma hook_demo_everywhere:
  assumes "link_of (demo_service [1]) timeout pieces link"
  shows "fst (hook_demo link (((hook_demo_store, 1000), ()), 0)) = Inr hook_demo_output"
proof -
  let ?s = "(((hook_demo_store, 1000 :: u16), ()), 0 :: u64)"
  have inv: "demo_inv ?s" by (simp add: hook_demo_regs(2))
  with assms show ?thesis
    using demo_rtu.hook_demo_link [where s = ?s] demo_ascii.hook_demo_link [where s = ?s] demo_tcp.hook_demo_link [where s = ?s]
    by (auto simp: hook_demo_direct link_of_def readable_small)
qed

lemma function_codes_everywhere:
  assumes "link_of store_service timeout pieces link"
  shows "fst (all_function_codes link (\<lambda>s. read_holding_register s 10) function_codes_store) = Inr function_codes_output"
  using assms rtu_link.function_codes_link [of timeout pieces] ascii_link.function_codes_link [of timeout pieces]
    tcp_link.function_codes_link [where timeout = timeout and pieces = pieces]
  by (auto simp: link_of_def readable_small)

section \<open>\<open>examples/custom_service.rs\<close>\<close>

definition custom_service_demo :: "'s transport \<Rightarrow> ('s, printed list) program" where
  "custom_service_demo call =
     await (client_read_holding_registers call 1 0 2) (\<lambda>regs.
     await (client_write_single_register call 1 0 9999) (\<lambda>_.
     await (client_read_holding_registers call 1 0 2) (\<lambda>regs'.
     finish [Regs regs, Written, Regs regs'])))"

definition custom_service_store :: SlaveStore where
  "custom_service_store = with_holding_registers [(0, 1234), (1, 5678)]"

lemma custom_service_regs: "get_reg (holding_registers custom_service_store) = (\<lambda>_. 0)(0 := 1234, 1 := 5678)"
  using arg_cong [OF with_holding_registers_memory(1) [of "[(0, 1234), (1, 5678)]"], of holding]
  by (simp add: custom_service_store_def abs_store_def)

lemmas service_run =
  custom_service_demo_def program_ops client_ops expect_def service_transport_def reply_of_def store_ops cell_simps
  custom_service_regs upt_rec unexpected_response_def

text \<open>With the logging service the write succeeds, with the read-only one the program ends there.\<close>

lemma custom_service_logging:
  "fst (custom_service_demo (service_transport logging_service_call) custom_service_store) =
     Inr [Regs [1234, 5678], Written, Regs [9999, 5678]]"
  by (simp add: logging_service_call_def service_run)

lemma custom_service_read_only:
  "custom_service_demo (service_transport read_only_call) custom_service_store =
     (Inl (CallFailed (ModbusError.Exception 6 1)), custom_service_store)"
  by (simp add: read_only_call_def service_run)

interpretation read_only_tcp: service_link read_only_call store_bounded "tcp_link config read_only_call timeout pieces"
    "\<lambda>slave req. tcp_readable config slave req \<and> tcp_delivers config timeout pieces"
  for config timeout pieces
  by unfold_locales (auto intro: service.tcp_link_service [OF read_only.service_axioms])

interpretation logging_tcp: service_link logging_service_call store_bounded "tcp_link config logging_service_call timeout pieces"
    "\<lambda>slave req. tcp_readable config slave req \<and> tcp_delivers config timeout pieces"
  for config timeout pieces
  by unfold_locales (auto intro: service.tcp_link_service [OF logging_service.service_axioms])

context service_link
begin

lemma custom_service_link:
  assumes "\<And>req. askable 1 req \<Longrightarrow> good 1 req" "inv s"
  shows "fst (custom_service_demo link s) = fst (custom_service_demo (service_transport call) s)"
proof -
  have "simulates (\<lambda>s t. inv s \<and> s = t) (custom_service_demo link) (custom_service_demo (service_transport call))"
    unfolding custom_service_demo_def by (intro sim sim_link assms(1)) (simp_all add: range_ok_def)
  from simulatesD [OF this, of s s] assms(2) show ?thesis by simp
qed

end

lemma custom_service_over_tcp:
  assumes "tcp_delivers config timeout pieces"
  shows "fst (custom_service_demo (tcp_link config logging_service_call timeout pieces) custom_service_store) =
      Inr [Regs [1234, 5678], Written, Regs [9999, 5678]]"
    and "fst (custom_service_demo (tcp_link config read_only_call timeout pieces) custom_service_store) =
      Inl (CallFailed (ModbusError.Exception 6 1))"
proof -
  have inv: "store_bounded custom_service_store"
    unfolding custom_service_store_def by (rule with_holding_registers_memory(2))
  with assms show "fst (custom_service_demo (tcp_link config logging_service_call timeout pieces) custom_service_store) =
      Inr [Regs [1234, 5678], Written, Regs [9999, 5678]]"
    and "fst (custom_service_demo (tcp_link config read_only_call timeout pieces) custom_service_store) =
      Inl (CallFailed (ModbusError.Exception 6 1))"
    using logging_tcp.custom_service_link [of config timeout pieces custom_service_store]
      read_only_tcp.custom_service_link [of config timeout pieces custom_service_store]
    by (auto simp: custom_service_logging custom_service_read_only readable_small)
qed

end
