(* ===== verification/Modbus_Programs.thy ===== *)
theory Modbus_Programs
  imports Modbus_Session
begin

text \<open>
  The polling programs of \<open>examples/\<close>: the read loop of the three TCP clients, the traffic of the
  bus monitor, the poll loop of the reconnect example, and the stores of the example servers.  A TCP
  client that lives through a whole program keeps its transaction counter; \<open>tcp_session\<close> is that
  client with the frames it has put on the wire.  The summaries of the captures, which count what
  another task has recorded by then, are left out.
\<close>

section \<open>The read loop of the TCP clients\<close>

text \<open>One printed line: first and last address, then what was read there.\<close>

datatype line =
    Counted u16 u16 nat nat
  | Values u16 u16 "u16 list"
  | Missed ModbusError

text \<open>\<open>start_addr + quantity - 1\<close> on \<open>u16\<close> neither overflows nor underflows.\<close>

definition span_ok :: "u16 \<Rightarrow> u16 \<Rightarrow> bool" where
  "span_ok start quantity \<longleftrightarrow> 1 \<le> unat start + unat quantity \<and> unat start + unat quantity < 2 ^ 16"

definition show_bits ::
  "u16 \<Rightarrow> u16 \<Rightarrow> ModbusError + bool list \<Rightarrow> (line \<Rightarrow> ('s, 'b) program) \<Rightarrow> ('s, 'b) program" where
  "show_bits start quantity r k =
     (case r of
        Inl e \<Rightarrow> k (Missed e)
      | Inr bits \<Rightarrow>
          (let on = length (filter id bits)
           in require (span_ok start quantity \<and> on \<le> unat quantity)
                (k (Counted start (start + quantity - 1) on (unat quantity - on)))))"

definition show_regs ::
  "u16 \<Rightarrow> u16 \<Rightarrow> ModbusError + u16 list \<Rightarrow> (line \<Rightarrow> ('s, 'b) program) \<Rightarrow> ('s, 'b) program" where
  "show_regs start quantity r k =
     (case r of
        Inl e \<Rightarrow> k (Missed e)
      | Inr regs \<Rightarrow> require (span_ok start quantity) (k (Values start (start + quantity - 1) regs)))"

definition read_round :: "'s transport \<Rightarrow> u8 \<Rightarrow> u16 \<Rightarrow> u16 \<Rightarrow> ('s, line list) program" where
  "read_round call slave_id start quantity =
     attempt (client_read_coils call slave_id start quantity) (\<lambda>r. show_bits start quantity r (\<lambda>coils.
     attempt (client_read_discrete_inputs call slave_id start quantity) (\<lambda>r. show_bits start quantity r (\<lambda>inputs.
     attempt (client_read_holding_registers call slave_id start quantity) (\<lambda>r. show_regs start quantity r (\<lambda>holdings.
     attempt (client_read_input_registers call slave_id start quantity) (\<lambda>r. show_regs start quantity r (\<lambda>input_regs.
     finish [coils, inputs, holdings, input_regs]))))))))"

fun read_rounds :: "'s transport \<Rightarrow> u8 \<Rightarrow> u16 \<Rightarrow> u16 \<Rightarrow> nat \<Rightarrow> ('s, line list list) program" where
  "read_rounds call slave_id start quantity 0 = finish []"
| "read_rounds call slave_id start quantity (Suc n) =
     and_then (read_round call slave_id start quantity) (\<lambda>round.
     and_then (read_rounds call slave_id start quantity n) (\<lambda>rounds. finish (round # rounds)))"

definition tcp_client_main :: "'s transport \<Rightarrow> ('s, line list list) program" where
  "tcp_client_main call = (let slave_id = 1; start = 0; quantity = 10; loop_count = 3
     in read_rounds call slave_id start quantity loop_count)"

text \<open>The other two clients run the same loop; the three differ in their framing.\<close>

definition tcp_client_auto_tid_main :: "'s transport \<Rightarrow> ('s, line list list) program" where
  "tcp_client_auto_tid_main call = (let slave_id = 1; start = 0; quantity = 10; loop_count = 3
     in read_rounds call slave_id start quantity loop_count)"

definition tcp_client_gateway_main :: "'s transport \<Rightarrow> ('s, line list list) program" where
  "tcp_client_gateway_main call = (let slave_id = 1; start = 0; quantity = 10; loop_count = 3
     in read_rounds call slave_id start quantity loop_count)"

definition auto_tid_config :: TcpConfig where
  "auto_tid_config = config_standard \<lparr> tid_mode := Auto \<rparr>"

lemma sim_show [sim]:
  "(\<And>x. simulates R (k x) (l x)) \<Longrightarrow> simulates R (show_bits start quantity r k) (show_bits start quantity r l)"
  "(\<And>x. simulates R (k x) (l x)) \<Longrightarrow> simulates R (show_regs start quantity r' k) (show_regs start quantity r' l)"
  by (auto simp: show_bits_def show_regs_def Let_def split: sum.splits intro: sim)

lemma sim_read_rounds:
  assumes "\<And>req. req \<in> {Request.ReadCoils start q, Request.ReadDiscreteInputs start q,
      Request.ReadHoldingRegisters start q, Request.ReadInputRegisters start q} \<Longrightarrow> simulates R (c slave req) (d slave req)"
  shows "simulates R (read_rounds c slave start q n) (read_rounds d slave start q n)"
proof (induction n)
  case (Suc n)
  have "simulates R (read_round c slave start q) (read_round d slave start q)"
    unfolding read_round_def by (intro sim assms) simp_all
  with Suc show ?case by (simp add: sim)
qed (simp add: sim)

text \<open>What a round prints of four memories.\<close>

definition round_view :: "memory \<Rightarrow> u16 \<Rightarrow> u16 \<Rightarrow> line list" where
  "round_view m start quantity =
     (let span = [unat start..<unat start + unat quantity]; last = start + quantity - 1;
          count = (\<lambda>f. let on = length (filter f span) in Counted start last on (unat quantity - on))
      in [count (coil m), count (input m), Values start last (map (holding m) span), Values start last (map (input_reg m) span)])"

lemma filter_pad8: "filter id (pad8 (map f xs)) = map f (filter f xs)"
  by (simp add: pad8_def filter_map o_def)

text \<open>A transport that also notes what it is asked.\<close>

definition noting :: "'s transport \<Rightarrow> ('s \<times> (u8 \<times> Request) list) transport" where
  "noting call slave req st = (case call slave req (fst st) of (r, s) \<Rightarrow> (r, s, snd st @ [(slave, req)]))"

definition round_requests :: "u8 \<Rightarrow> u16 \<Rightarrow> u16 \<Rightarrow> (u8 \<times> Request) list" where
  "round_requests slave start q = map (Pair slave)
     [Request.ReadCoils start q, Request.ReadDiscreteInputs start q,
      Request.ReadHoldingRegisters start q, Request.ReadInputRegisters start q]"

lemma show_bits_memory:
  "span_ok start q \<Longrightarrow> show_bits start q (Inr (pad8 (map f [unat start..<unat start + unat q]))) k =
     k (let on = length (filter f [unat start..<unat start + unat q]) in Counted start (start + q - 1) on (unat q - on))"
  using length_filter_le [of f "[unat start..<unat start + unat q]"]
  by (simp add: show_bits_def filter_pad8 require_def [abs_def] Let_def)

lemma show_regs_memory: "span_ok start q \<Longrightarrow> show_regs start q (Inr ws) k = k (Values start (start + q - 1) ws)"
  by (simp add: show_regs_def require_def [abs_def])

lemma read_round_memory:
  "span_ok start q \<Longrightarrow> read_round (noting memory_transport) slave start q (m, asked) =
     (Inr (round_view m start q), m, asked @ round_requests slave start q)"
  by (simp add: read_round_def attempt_def client_ops expect_def noting_def memory_transport_def reply_of_def
      show_bits_memory show_regs_memory finish_def round_view_def round_requests_def Let_def)

lemma read_rounds_memory:
  assumes "span_ok start q"
  shows "read_rounds (noting memory_transport) slave start q n (m, asked) =
     (Inr (replicate n (round_view m start q)), m, asked @ concat (replicate n (round_requests slave start q)))"
proof (induction n arbitrary: asked)
  case (Suc n)
  show ?case using Suc [of "asked @ round_requests slave start q"]
    by (simp add: read_round_memory [OF assms] and_then_def finish_def)
qed (simp add: finish_def)

section \<open>A TCP client through a program\<close>

text \<open>
  The state is the server's, the client's transaction counter and the frames on the wire; between
  two requests nothing is left unread.
\<close>

definition tcp_session ::
  "TcpConfig \<Rightarrow> 's service \<Rightarrow> duration \<Rightarrow> (bytes \<Rightarrow> (nat \<times> bytes) list) \<Rightarrow> ('s \<times> u16 \<times> bytes list) transport" where
  "tcp_session config svc timeout pieces slave req st =
     (let (s, counter, wire) = st;
          (_, inner, counter') = tcp_send_recv timeout config slave req (inner_new silent_line, counter);
          (r, s') = tcp_link_at counter config svc timeout pieces slave req s
      in (r, s', counter', wire @ sent (in_stream inner)))"

text \<open>What the client puts on the wire for the requests asked of it, and its counter then.\<close>

definition wire_of :: "TcpConfig \<Rightarrow> (u8 \<times> Request) list \<Rightarrow> bytes list" where
  "wire_of config asked =
     map (\<lambda>(k, slave, req). encode_tcp_frame (slave # request_pdu req) [] config
            (case tid_mode config of Fixed v \<Rightarrow> v | Auto \<Rightarrow> of_nat k))
       (enumerate 1 asked)"

definition counter_after :: "TcpConfig \<Rightarrow> nat \<Rightarrow> u16" where
  "counter_after config k = (case tid_mode config of Fixed v \<Rightarrow> 1 | Auto \<Rightarrow> of_nat (k + 1))"

lemma wire_of_simps [simp]: "wire_of config [] = []"
  "wire_of config (asked @ [(slave, req)]) = wire_of config asked @
     [encode_tcp_frame (slave # request_pdu req) [] config (fst (next_tid (tid_mode config) (counter_after config (length asked))))]"
  by (simp_all add: wire_of_def enumerate_append_eq next_tid_def counter_after_def split: TidMode.split)

lemma counter_after_simps [simp]:
  "counter_after config 0 = 1"
  "snd (next_tid (tid_mode config) (counter_after config k)) = counter_after config (Suc k)"
  by (simp_all add: next_tid_def counter_after_def split: TidMode.split)

text \<open>The session does what the service does, and nothing else is on the wire.\<close>

definition session_of :: "TcpConfig \<Rightarrow> 's \<times> u16 \<times> bytes list \<Rightarrow> 's \<times> (u8 \<times> Request) list \<Rightarrow> bool" where
  "session_of config st at \<longleftrightarrow> fst st = fst at
     \<and> snd st = (counter_after config (length (snd at)), wire_of config (snd at))"

context service
begin

lemma tcp_session_service:
  assumes "inv s" "askable slave req" "tcp_readable config slave req" "tcp_delivers config timeout pieces"
  shows "tcp_session config call timeout pieces slave req (s, counter_after config (length asked), wire_of config asked) =
     (case noting (service_transport call) slave req (s, asked) of
        (r, s', asked') \<Rightarrow> (r, s', counter_after config (length asked'), wire_of config asked'))"
proof -
  have fits: "request_fits req" using assms(2) by (simp add: askable_def)
  note run = tcp_silent_run [OF fits, of timeout config slave "counter_after config (length asked)"]
  show ?thesis
    using run tcp_link_service [OF assms, of "counter_after config (length asked)"]
    by (simp add: tcp_session_def noting_def service_transport_def split_def)
qed

lemma sim_session:
  assumes "askable slave req" "tcp_readable config slave req" "tcp_delivers config timeout pieces"
  shows "simulates (\<lambda>st at. inv (fst at) \<and> session_of config st at)
     (tcp_session config call timeout pieces slave req) (noting (service_transport call) slave req)"
  unfolding simulates_def
proof (intro allI impI)
  fix st and at :: "'s \<times> (u8 \<times> Request) list"
  assume R: "inv (fst at) \<and> session_of config st at"
  then have st: "st = (fst at, counter_after config (length (snd at)), wire_of config (snd at))"
    by (simp add: session_of_def prod_eq_iff)
  have "inv (snd (call (Some slave) (fst at) req))" using R assms(1) by (auto simp: askable_def intro: call_inv)
  with R tcp_session_service [OF _ assms, of "fst at" "snd at"]
  show "fst (tcp_session config call timeout pieces slave req st) = fst (noting (service_transport call) slave req at)
      \<and> inv (fst (snd (noting (service_transport call) slave req at)))
      \<and> session_of config (snd (tcp_session config call timeout pieces slave req st)) (snd (noting (service_transport call) slave req at))"
    by (simp add: st session_of_def noting_def service_transport_def)
qed

end

text \<open>Over the store, the session does what four memories would.\<close>

abbreviation session_inv :: "TcpConfig \<Rightarrow> SlaveStore \<times> u16 \<times> bytes list \<Rightarrow> memory \<times> (u8 \<times> Request) list \<Rightarrow> bool" where
  "session_inv config st mt \<equiv> store_bounded (fst st) \<and> abs_store (fst st) = fst mt
     \<and> snd st = (counter_after config (length (snd mt)), wire_of config (snd mt))"

lemma sim_session_memory:
  assumes "askable slave req" "tcp_readable config slave req" "tcp_delivers config timeout pieces"
  shows "simulates (session_inv config) (tcp_session config store_service timeout pieces slave req) (noting memory_transport slave req)"
  unfolding simulates_def
proof (intro allI impI)
  fix st :: "SlaveStore \<times> u16 \<times> bytes list" and mt
  assume R: "session_inv config st mt"
  let ?at = "(fst st, snd mt)"
  from R have "session_of config st ?at" by (simp add: session_of_def)
  with R simulatesD [OF store.sim_session [OF assms], where s = st and t = ?at]
  have *: "fst (tcp_session config store_service timeout pieces slave req st) = fst (noting (service_transport store_service) slave req ?at)"
    "session_of config (snd (tcp_session config store_service timeout pieces slave req st))
       (snd (noting (service_transport store_service) slave req ?at))" by simp_all
  have "request_legal req" using assms(1) by (simp add: askable_def)
  from simulatesD [OF sim_memory [OF this, of slave], of "fst st" "fst mt"] R
  have "fst (service_transport store_service slave req (fst st)) = fst (memory_transport slave req (fst mt))"
    "store_bounded (snd (service_transport store_service slave req (fst st)))"
    "abs_store (snd (service_transport store_service slave req (fst st))) = snd (memory_transport slave req (fst mt))"
    by simp_all
  with * show "fst (tcp_session config store_service timeout pieces slave req st) = fst (noting memory_transport slave req mt)
      \<and> session_inv config (snd (tcp_session config store_service timeout pieces slave req st)) (snd (noting memory_transport slave req mt))"
    by (auto simp: session_of_def noting_def split: prod.splits)
qed

lemma tcp_session_rounds:
  fixes slave :: u8 and start q :: u16 and n :: nat and config :: TcpConfig
  assumes "store_bounded s" "tcp_delivers config timeout pieces" "slave \<noteq> 0"
    and span: "1 \<le> unat q" "unat q \<le> 125" "unat start + unat q < 2 ^ 16"
  defines "asked \<equiv> concat (replicate n (round_requests slave start q))"
  obtains s' where "read_rounds (tcp_session config store_service timeout pieces) slave start q n (s, 1, []) =
      (Inr (replicate n (round_view (abs_store s) start q)), s', counter_after config (4 * n), wire_of config asked)"
    "abs_store s' = abs_store s" "store_bounded s'"
proof -
  let ?p = "read_rounds (tcp_session config store_service timeout pieces) slave start q n"
    and ?q = "read_rounds (noting memory_transport) slave start q n"
  from span have ok: "span_ok start q" by (simp add: span_ok_def)
  have askable: "askable slave req \<and> tcp_readable config slave req" if "req \<in> {Request.ReadCoils start q,
      Request.ReadDiscreteInputs start q, Request.ReadHoldingRegisters start q, Request.ReadInputRegisters start q}" for req
    using that assms(3) span by (auto simp: range_ok_def tcp_readable_def)
  have "simulates (session_inv config) ?p ?q"
    by (intro sim_read_rounds sim_session_memory conjunct1 [OF askable] conjunct2 [OF askable] assms(2))
  from simulatesD [OF this, of "(s, 1, [])" "(abs_store s, [])"] assms(1)
  have out: "fst (?p (s, 1, [])) = fst (?q (abs_store s, []))"
    "session_inv config (snd (?p (s, 1, []))) (snd (?q (abs_store s, [])))" by simp_all
  have "length asked = 4 * n" by (simp add: asked_def round_requests_def length_concat sum_list_replicate)
  with out have "?p (s, 1, []) = (Inr (replicate n (round_view (abs_store s) start q)), fst (snd (?p (s, 1, []))),
      counter_after config (4 * n), wire_of config asked)" "abs_store (fst (snd (?p (s, 1, [])))) = abs_store s"
    "store_bounded (fst (snd (?p (s, 1, []))))"
    by (simp_all add: read_rounds_memory [OF ok] asked_def prod_eq_iff)
  then show thesis by (rule that)
qed

section \<open>The stores of the example servers\<close>

abbreviation store_memory :: "SlaveStore \<Rightarrow> memory \<Rightarrow> bool" where
  "store_memory s m \<equiv> store_bounded s \<and> abs_store s = m"

text \<open>A program that is simulated on four memories, over any transport.\<close>

lemma store_run:
  assumes "simulates store_memory p q" "store_bounded s"
  shows "fst (p s) = fst (q (abs_store s)) \<and> abs_store (snd (p s)) = snd (q (abs_store s)) \<and> store_bounded (snd (p s))"
  using simulatesD [OF assms(1), of s "abs_store s"] assms(2) by auto

lemma sim_everywhere:
  assumes "link_of store_service timeout pieces link" "askable slave req" "slave \<notin> {15, 16, 22, 23}"
  shows "simulates store_memory (link slave req) (memory_transport slave req)"
proof -
  have "tcp_readable config slave req" for config
    using not_shadowed_request [of req slave] assms(2,3) by (simp add: tcp_readable_def askable_def)
  then show ?thesis
    using assms(1) rtu_link.sim_store [OF assms(2)] ascii_link.sim_store [OF assms(2)] tcp_link.sim_store [OF assms(2)]
    by (auto simp: link_of_def)
qed

lemma write_input_register_bounded: "store_bounded s \<Longrightarrow> store_bounded (write_input_register s a w)"
  by (simp add: store_bounded_def write_input_register_def write_register_def put_reg_bounded)

lemma write_discrete_input_bounded: "store_bounded s \<Longrightarrow> store_bounded (write_discrete_input s a v)"
  by (simp add: store_bounded_def write_discrete_input_def write_bit_def put_bit_bounded)

lemmas write_bounded = write_coil_bounded write_input_register_bounded write_discrete_input_bounded

lemma abs_store_writes:
  "abs_store (write_coil s a v) = abs_store s \<lparr> coil := (coil (abs_store s))(unat a := v) \<rparr>"
  "abs_store (write_discrete_input s a v) = abs_store s \<lparr> input := (input (abs_store s))(unat a := v) \<rparr>"
  "abs_store (write_input_register s a w) = abs_store s \<lparr> input_reg := (input_reg (abs_store s))(unat a := w) \<rparr>"
  by (simp_all add: abs_store_def store_ops get_bit_put_bit_upd get_reg_put_reg_upd)

definition tcp_server_store :: SlaveStore where
  "tcp_server_store =
     (let store = with_holding_registers [(0, 1234), (1, 5678), (2, 100), (3, 42), (10, 500), (11, 600), (20, 1000)];
          store = write_input_register store 0 3300;
          store = write_input_register store 1 1250;
          store = write_input_register store 2 5000;
          store = write_coil store 0 True;
          store = write_coil store 1 False;
          store = write_coil store 2 True;
          store = write_coil store 3 True;
          store = write_discrete_input store 0 True;
          store = write_discrete_input store 1 False
      in write_discrete_input store 2 True)"

definition rtu_server_store :: SlaveStore where
  "rtu_server_store =
     (let store = with_holding_registers [(0, 1234), (1, 5678), (2, 100), (3, 42), (10, 500), (11, 600), (20, 0)];
          store = write_input_register store 0 2400;
          store = write_input_register store 1 150;
          store = write_coil store 0 True;
          store = write_coil store 1 False;
          store = write_coil store 2 True;
          store = write_discrete_input store 0 True
      in write_discrete_input store 1 False)"

text \<open>The bus timing of the serial server.\<close>

definition rtu_server_timing :: BusTiming where
  "rtu_server_timing = rtu_35t 9600"

lemma rtu_server_spacing: "min_spacing rtu_server_timing = from_micros 4010"
  by (simp add: rtu_server_timing_def min_spacing_def rtu_35t_def)

lemma example_stores_memory:
  "store_bounded tcp_server_store"
  "abs_store tcp_server_store =
     \<lparr> coil = (\<lambda>_. False)(0 := True, 1 := False, 2 := True, 3 := True),
       input = (\<lambda>_. False)(0 := True, 1 := False, 2 := True),
       holding = (\<lambda>_. 0)(0 := 1234, 1 := 5678, 2 := 100, 3 := 42, 10 := 500, 11 := 600, 20 := 1000),
       input_reg = (\<lambda>_. 0)(0 := 3300, 1 := 1250, 2 := 5000) \<rparr>"
  "store_bounded rtu_server_store"
  "abs_store rtu_server_store =
     \<lparr> coil = (\<lambda>_. False)(0 := True, 1 := False, 2 := True),
       input = (\<lambda>_. False)(0 := True, 1 := False),
       holding = (\<lambda>_. 0)(0 := 1234, 1 := 5678, 2 := 100, 3 := 42, 10 := 500, 11 := 600, 20 := 0),
       input_reg = (\<lambda>_. 0)(0 := 2400, 1 := 150) \<rparr>"
  by (simp_all add: tcp_server_store_def rtu_server_store_def Let_def write_bounded with_holding_registers_memory
      abs_store_writes del: fun_upd_apply)

text \<open>What the client of \<open>tcp_client.rs\<close> prints of the store of \<open>tcp_server.rs\<close> in every round.\<close>

lemma tcp_server_round:
  "round_view (abs_store tcp_server_store) 0 10 =
     [Counted 0 9 3 7, Counted 0 9 2 8, Values 0 9 [1234, 5678, 100, 42, 0, 0, 0, 0, 0, 0],
      Values 0 9 [3300, 1250, 5000, 0, 0, 0, 0, 0, 0, 0]]"
  by (simp add: round_view_def example_stores_memory Let_def upt_rec)

section \<open>\<open>examples/bus_monitor.rs\<close>\<close>

definition bus_monitor_store :: SlaveStore where
  "bus_monitor_store =
     (let store = with_holding_registers [(0, 100), (1, 200), (2, 300), (5, 500)];
          store = write_coil store 0 True
      in write_coil store 1 False)"

text \<open>The traffic: reads, writes, and the two reads that the example expects to fail.\<close>

definition bus_monitor_main :: "'s transport \<Rightarrow> ('s, printed list) program" where
  "bus_monitor_main call =
     await (client_read_holding_registers call 1 0 3) (\<lambda>regs.
     await (client_read_coils call 1 0 4) (\<lambda>bits.
     await (client_read_discrete_inputs call 1 0 2) (\<lambda>_.
     await (client_read_input_registers call 1 0 1) (\<lambda>_.
     await (client_write_single_register call 1 0 7777) (\<lambda>_.
     await (client_write_multiple_registers call 1 10 [111, 222, 333]) (\<lambda>_.
     await (client_write_single_coil call 1 0 False) (\<lambda>_.
     attempt (client_read_holding_registers call 247 0 1) (\<lambda>absent.
     attempt (client_read_holding_registers call 1 60000 1) (\<lambda>far.
     finish [Regs regs, Bits bits, Written, Written, Written,
       (case absent of Inr regs \<Rightarrow> Regs regs | Inl e \<Rightarrow> Refused e),
       (case far of Inr regs \<Rightarrow> Regs regs | Inl e \<Rightarrow> Refused e)])))))))))"

definition bus_monitor_output :: "printed list" where
  "bus_monitor_output =
     [Regs [100, 200, 300], Bits [True, False, False, False, False, False, False, False],
      Written, Written, Written, Regs [7777], Regs [0]]"

lemma bus_monitor_store_memory:
  "store_bounded bus_monitor_store"
  "abs_store bus_monitor_store =
     \<lparr> coil = (\<lambda>_. False)(0 := True, 1 := False), input = \<lambda>_. False,
       holding = (\<lambda>_. 0)(0 := 100, 1 := 200, 2 := 300, 5 := 500), input_reg = \<lambda>_. 0 \<rparr>"
  by (simp_all add: bus_monitor_store_def Let_def write_bounded with_holding_registers_memory abs_store_writes
      del: fun_upd_apply)

lemma bus_monitor_memory:
  "fst (bus_monitor_main memory_transport (abs_store bus_monitor_store)) = Inr bus_monitor_output"
  by (simp add: bus_monitor_main_def bus_monitor_output_def bus_monitor_store_memory(2) memory_run)

lemma bus_monitor_everywhere:
  assumes "link_of store_service timeout pieces link"
  shows "fst (bus_monitor_main link bus_monitor_store) = Inr bus_monitor_output"
proof -
  have "simulates store_memory (bus_monitor_main link) (bus_monitor_main memory_transport)"
    unfolding bus_monitor_main_def by (intro sim sim_everywhere [OF assms]) (auto simp: range_ok_def)
  from store_run [OF this bus_monitor_store_memory(1)] show ?thesis by (simp add: bus_monitor_memory)
qed

section \<open>The other programs that read and write\<close>

text \<open>\<open>examples/reconnect.rs\<close>: the poll loop, \<open>n\<close> iterations of it; not every success is printed.\<close>

definition poll_step :: "'s transport \<Rightarrow> nat \<Rightarrow> ('s, (nat \<times> printed) list) program" where
  "poll_step call i =
     attempt (client_read_holding_registers call 1 0 1) (\<lambda>r.
       case r of
         Inr regs \<Rightarrow> (if i mod 10 = 1 \<or> i \<le> 3 then index regs 0 (\<lambda>w. finish [(i, Reg w)]) else finish [])
       | Inl e \<Rightarrow> finish [(i, Refused e)])"

fun poll_loop :: "'s transport \<Rightarrow> nat \<Rightarrow> nat \<Rightarrow> ('s, (nat \<times> printed) list) program" where
  "poll_loop call i 0 = finish []"
| "poll_loop call i (Suc n) =
     (let i = i + 1
      in and_then (poll_step call i) (\<lambda>p. and_then (poll_loop call i n) (\<lambda>ps. finish (p @ ps))))"

definition reconnect_store :: SlaveStore where
  "reconnect_store = with_holding_registers [(0, 42)]"

lemma read_one_memory: "client_read_holding_registers memory_transport slave a 1 m = (Inr [holding m (unat a)], m)"
  by (simp add: client_ops expect_def memory_transport_def reply_of_def)

lemma poll_loop_memory:
  "poll_loop memory_transport i n m =
     (Inr (map (\<lambda>i. (i, Reg (holding m 0))) (filter (\<lambda>i. i mod 10 = 1 \<or> i \<le> 3) [i + 1..<i + n + 1])), m)"
proof (induction n arbitrary: i)
  case (Suc n)
  have "[i + 1..<i + Suc n + 1] = (i + 1) # [i + 1 + 1..<i + 1 + n + 1]" by (simp add: upt_conv_Cons)
  with Suc [of "i + 1"] show ?case
    by (simp add: Let_def and_then_def poll_step_def program_ops read_one_memory del: upt_Suc)
qed (simp add: finish_def)

lemma poll_loop_everywhere:
  assumes "link_of store_service timeout pieces link"
  shows "fst (poll_loop link 0 n reconnect_store) =
     Inr (map (\<lambda>i. (i, Reg 42)) (filter (\<lambda>i. i mod 10 = 1 \<or> i \<le> 3) [1..<n + 1]))"
proof -
  have step: "simulates store_memory (poll_step link i) (poll_step memory_transport i)" for i
    unfolding poll_step_def
    by (intro sim sim_everywhere [OF assms]) (auto simp: range_ok_def split: sum.split intro: sim)
  have "simulates store_memory (poll_loop link i n) (poll_loop memory_transport i n)" for i
    by (induction n arbitrary: i) (simp_all add: Let_def sim step)
  from store_run [OF this, of reconnect_store 0] show ?thesis
    by (simp add: reconnect_store_def with_holding_registers_memory poll_loop_memory)
qed

text \<open>
  \<open>examples/file_recorder.rs\<close>: five reads and writes of a multiple of the round, once with 1000 and
  once with 2000.
\<close>

fun traffic_loop :: "'s transport \<Rightarrow> nat \<Rightarrow> nat list \<Rightarrow> ('s, unit) program" where
  "traffic_loop call factor [] = finish ()"
| "traffic_loop call factor (i # is') =
     await (client_read_holding_registers call 1 0 3) (\<lambda>_.
     await (client_write_single_register call 1 0 (of_nat (i * factor))) (\<lambda>_.
     traffic_loop call factor is'))"

definition file_recorder_main :: "'s transport \<Rightarrow> 's transport \<Rightarrow> ('s, unit) program" where
  "file_recorder_main ring_client file_client =
     and_then (traffic_loop ring_client 1000 [0..<5]) (\<lambda>_. traffic_loop file_client 2000 [0..<5])"

definition file_recorder_store :: SlaveStore where
  "file_recorder_store = with_holding_registers [(0, 1234), (1, 5678), (2, 100)]"

lemma file_recorder_memory:
  "file_recorder_main memory_transport memory_transport m = (Inr (), m \<lparr> holding := (holding m)(0 := 8000) \<rparr>)"
proof -
  have five: "[0..<5] = [0, 1, 2, 3, 4 :: nat]" by (simp add: upt_rec)
  show ?thesis by (simp add: file_recorder_main_def five and_then_def memory_run)
qed

lemma file_recorder_everywhere:
  assumes "link_of store_service timeout pieces link" "link_of store_service timeout' pieces' link'"
  defines "out \<equiv> file_recorder_main link link' file_recorder_store"
  shows "fst out = Inr ()" "holding (abs_store (snd out)) = (\<lambda>_. 0)(0 := 8000, 1 := 5678, 2 := 100)"
proof -
  have loop: "simulates store_memory (traffic_loop l k is') (traffic_loop memory_transport k is')"
    if "link_of store_service t p l" for t p l k is'
    by (induction is') (simp_all, (intro sim sim_everywhere [OF that] | simp add: range_ok_def)+)
  have "simulates store_memory (file_recorder_main link link') (file_recorder_main memory_transport memory_transport)"
    unfolding file_recorder_main_def by (intro sim_and_then loop [OF assms(1)] loop [OF assms(2)])
  from store_run [OF this, of file_recorder_store]
  have "fst out = Inr () \<and> abs_store (snd out) = abs_store file_recorder_store
      \<lparr> holding := (holding (abs_store file_recorder_store))(0 := 8000) \<rparr>"
    by (simp add: out_def file_recorder_memory file_recorder_store_def with_holding_registers_memory(2))
  then show "fst out = Inr ()" "holding (abs_store (snd out)) = (\<lambda>_. 0)(0 := 8000, 1 := 5678, 2 := 100)"
    by (simp_all add: file_recorder_store_def with_holding_registers_memory(1) fun_eq_iff)
qed

text \<open>\<open>examples/generic_transport.rs\<close>: four clients and servers of their own.\<close>

definition read_regs :: "'s transport \<Rightarrow> u16 \<Rightarrow> ('s, u16 list) program" where
  "read_regs call n = await (client_read_holding_registers call 1 0 n) finish"

definition rtu_over_tcp :: "SlaveStore transport \<Rightarrow> failure + u16 list" where
  "rtu_over_tcp call = fst (read_regs call 3 (with_holding_registers [(0, 1234), (1, 5678), (2, 100)]))"

definition ascii_over_tcp :: "SlaveStore transport \<Rightarrow> failure + u16 list" where
  "ascii_over_tcp call = fst (read_regs call 2 (with_holding_registers [(0, 1234), (1, 5678)]))"

definition rtu_over_duplex :: "SlaveStore transport \<Rightarrow> failure + u16 list" where
  "rtu_over_duplex call = fst (read_regs call 2 (with_holding_registers [(0, 42), (1, 99)]))"

definition ascii_over_duplex :: "SlaveStore transport \<Rightarrow> failure + u16 list" where
  "ascii_over_duplex call = fst (read_regs call 1 (with_holding_registers [(0, 77)]))"

lemma read_regs_everywhere:
  assumes "link_of store_service timeout pieces link" "1 \<le> unat n" "unat n \<le> 125"
  shows "fst (read_regs link n (with_holding_registers regs)) =
     Inr (map (holding (abs_store (with_holding_registers regs))) [0..<unat n])"
proof -
  have "simulates store_memory (read_regs link n) (read_regs memory_transport n)"
    unfolding read_regs_def by (intro sim sim_everywhere [OF assms(1)]) (use assms(2,3) in \<open>simp_all add: range_ok_def\<close>)
  from store_run [OF this with_holding_registers_memory(2)] show ?thesis
    by (simp add: read_regs_def memory_run)
qed

lemma generic_transport_everywhere:
  assumes "link_of store_service timeout pieces call"
  shows "rtu_over_tcp call = Inr [1234, 5678, 100]" "ascii_over_tcp call = Inr [1234, 5678]"
    "rtu_over_duplex call = Inr [42, 99]" "ascii_over_duplex call = Inr [77]"
  by (simp_all add: rtu_over_tcp_def ascii_over_tcp_def rtu_over_duplex_def ascii_over_duplex_def
      read_regs_everywhere [OF assms] with_holding_registers_memory upt_rec)

text \<open>\<open>examples/bus_timing.rs\<close>: the reads of one client, and the table of spacings.\<close>

fun repeat_read :: "'s transport \<Rightarrow> nat \<Rightarrow> ('s, unit) program" where
  "repeat_read call 0 = finish ()"
| "repeat_read call (Suc n) = await (client_read_holding_registers call 1 0 1) (\<lambda>_. repeat_read call n)"

definition spacing_table :: "(u32 \<times> duration) list" where
  "spacing_table = map (\<lambda>baud. (baud, min_spacing (rtu_35t baud))) [9600, 19200, 38400, 57600, 115200]"

lemma spacing_table_values:
  "spacing_table = [(9600, from_micros 4010), (19200, from_micros 2005), (38400, from_micros 1750),
     (57600, from_micros 1750), (115200, from_micros 1750)]"
  by (simp add: spacing_table_def min_spacing_def rtu_35t_def)

lemma repeat_read_sim:
  assumes "link_of store_service timeout pieces link"
  shows "simulates store_memory (repeat_read link n) (repeat_read memory_transport n)"
  by (induction n) (simp_all, (intro sim sim_everywhere [OF assms] | simp add: range_ok_def)+)

lemma repeat_read_memory: "repeat_read memory_transport n m = (Inr (), m)"
  by (induction n) (simp_all add: program_ops read_one_memory)

lemma repeat_read_everywhere:
  assumes "link_of store_service timeout pieces link" "store_bounded s"
  shows "fst (repeat_read link n s) = Inr ()"
  using store_run [OF repeat_read_sim [OF assms(1)] assms(2), of n] by (simp add: repeat_read_memory)

end
