(* ===== verification/Modbus_Sniff.thy ===== *)
theory Modbus_Sniff
  imports Modbus_Capture Modbus_Transport "HOL-Library.Sublist"
begin

text \<open>
  \<open>src/transport/sniff_io.rs\<close>: the bounded byte channel with drop-oldest semantics, the
  background reader that fans chunks out to the data and the tap channel, and \<open>poll_read\<close> of
  the proxy.  Channel operations run under a mutex and are functions on the channel; each
  returns whether it woke a registered waker.  The lemmas show the size invariant, the exact
  eviction, that no byte is lost unaccounted, and that \<open>poll_read\<close> delivers in order.
\<close>

section \<open>The channel\<close>

record SniffChannel =
  queue :: "bytes list"
  total_bytes :: nat
  capacity :: nat
  dropped_chunks :: nat
  dropped_bytes :: nat
  closed :: bool
  ch_error :: "io_error option"
  waker :: bool

definition channel_new :: "nat \<Rightarrow> SniffChannel" where
  "channel_new cap =
     \<lparr> queue = [], total_bytes = 0, capacity = cap, dropped_chunks = 0, dropped_bytes = 0,
       closed = False, ch_error = None, waker = False \<rparr>"

definition evict_front :: "SniffChannel \<Rightarrow> SniffChannel" where
  "evict_front ch =
     (case queue ch of
        [] \<Rightarrow> ch
      | old # rest \<Rightarrow>
          ch \<lparr> queue := rest, total_bytes := total_bytes ch - length old,
               dropped_chunks := dropped_chunks ch + 1, dropped_bytes := dropped_bytes ch + length old \<rparr>)"

lemma evict_front_queue [simp]: "queue (evict_front ch) = tl (queue ch)"
  by (simp add: evict_front_def split: list.splits)

function ch_send :: "SniffChannel \<Rightarrow> bytes \<Rightarrow> bool \<times> SniffChannel" where
  "ch_send ch chunk =
     (if total_bytes ch + length chunk > capacity ch then
        (if queue ch \<noteq> [] then ch_send (evict_front ch) chunk
         else (False, ch \<lparr> dropped_chunks := dropped_chunks ch + 1,
                           dropped_bytes := dropped_bytes ch + length chunk \<rparr>))
      else (waker ch, ch \<lparr> queue := queue ch @ [chunk], total_bytes := total_bytes ch + length chunk,
                           waker := False \<rparr>))"
  by pat_completeness auto
termination
  by (relation "measure (\<lambda>(ch, chunk). length (queue ch))") auto

declare ch_send.simps [simp del]

definition ch_send_error :: "SniffChannel \<Rightarrow> io_error \<Rightarrow> bool \<times> SniffChannel" where
  "ch_send_error ch error = (waker ch, ch \<lparr> ch_error := Some error, waker := False \<rparr>)"

function evict_to :: "nat \<Rightarrow> SniffChannel \<Rightarrow> SniffChannel" where
  "evict_to new_cap ch =
     (if total_bytes ch > new_cap then
        (if queue ch \<noteq> [] then evict_to new_cap (evict_front ch) else ch)
      else ch)"
  by pat_completeness auto
termination
  by (relation "measure (\<lambda>(new_cap, ch). length (queue ch))") auto

declare evict_to.simps [simp del]

definition ch_set_capacity :: "SniffChannel \<Rightarrow> nat \<Rightarrow> SniffChannel" where
  "ch_set_capacity ch new_cap = evict_to new_cap (ch \<lparr> capacity := new_cap \<rparr>)"

definition ch_close :: "SniffChannel \<Rightarrow> bool \<times> SniffChannel" where
  "ch_close ch = (waker ch, ch \<lparr> closed := True, waker := False \<rparr>)"

definition ch_poll_recv :: "SniffChannel \<Rightarrow> (io_error + bytes option) \<times> SniffChannel" where
  "ch_poll_recv ch =
     (case queue ch of
        data # rest \<Rightarrow> (Inr (Some data), ch \<lparr> queue := rest, total_bytes := total_bytes ch - length data \<rparr>)
      | [] \<Rightarrow>
          (case ch_error ch of
             Some e \<Rightarrow> (Inl e, ch \<lparr> ch_error := None \<rparr>)
           | None \<Rightarrow>
               (if closed ch then (Inl (IoError UnexpectedEof ''channel closed''), ch)
                else (Inr None, ch \<lparr> waker := True \<rparr>))))"

text \<open>One poll of the future of \<open>recv\<close>: \<open>None\<close> when pending, else the received chunk, if any.\<close>

definition ch_poll_next :: "SniffChannel \<Rightarrow> bytes option option \<times> SniffChannel" where
  "ch_poll_next ch =
     (case ch_poll_recv ch of
        (Inr (Some data), ch) \<Rightarrow> (Some (Some data), ch)
      | (Inr None, ch) \<Rightarrow> (None, ch)
      | (Inl _, ch) \<Rightarrow> (Some None, ch))"

section \<open>The proxy\<close>

text \<open>
  The sniffing state.  \<open>reader_finished\<close> is what \<open>reader_handle.is_finished()\<close> answers;
  \<open>tap_state\<close> is the state of the tap behind the tap channel.
\<close>

record 'tap Sniffing =
  data_channel :: SniffChannel
  tap_channel :: SniffChannel
  reader_finished :: bool
  pending :: "bytes option"
  tap_state :: 'tap

datatype ('t, 'tap) SniffState = Passthrough 't | SniffingState "'tap Sniffing"

record ('t, 'tap) SniffIo =
  si_buf_size :: nat
  si_data_capacity :: nat
  si_tap_capacity :: nat
  si_timing :: "BusTiming option"
  si_state :: "('t, 'tap) SniffState"

definition start_sniffing :: "'tap \<Rightarrow> BusTiming option \<Rightarrow> nat \<Rightarrow> nat \<Rightarrow> nat \<Rightarrow> ('t, 'tap) SniffIo" where
  "start_sniffing tap timing buf_size data_cap tap_cap =
     \<lparr> si_buf_size = buf_size, si_data_capacity = data_cap, si_tap_capacity = tap_cap, si_timing = timing,
       si_state = SniffingState
         \<lparr> data_channel = channel_new data_cap, tap_channel = channel_new tap_cap,
           reader_finished = False, pending = None, tap_state = tap \<rparr> \<rparr>"

definition sniff_io_new :: "'t \<Rightarrow> 'tap option \<Rightarrow> BusTiming option \<Rightarrow> ('t, 'tap) SniffIo" where
  "sniff_io_new inner tap timing =
     (case tap of
        Some t \<Rightarrow> start_sniffing t timing DEFAULT_BUF_SIZE DEFAULT_DATA_CHANNEL_CAPACITY
                    DEFAULT_TAP_CHANNEL_CAPACITY
      | None \<Rightarrow>
          \<lparr> si_buf_size = DEFAULT_BUF_SIZE, si_data_capacity = DEFAULT_DATA_CHANNEL_CAPACITY,
            si_tap_capacity = DEFAULT_TAP_CHANNEL_CAPACITY, si_timing = timing, si_state = Passthrough inner \<rparr>)"

definition with_buf_size :: "('t, 'tap) SniffIo \<Rightarrow> nat \<Rightarrow> ('t, 'tap) SniffIo" where
  "with_buf_size io size' = io \<lparr> si_buf_size := size' \<rparr>"

definition with_channel_capacity :: "('t, 'tap) SniffIo \<Rightarrow> nat \<Rightarrow> ('t, 'tap) SniffIo" where
  "with_channel_capacity io n =
     (let io = io \<lparr> si_data_capacity := n \<rparr>
      in case si_state io of
           SniffingState s \<Rightarrow> io \<lparr> si_state := SniffingState (s \<lparr> data_channel := ch_set_capacity (data_channel s) n \<rparr>) \<rparr>
         | Passthrough _ \<Rightarrow> io)"

definition with_tap_channel_capacity :: "('t, 'tap) SniffIo \<Rightarrow> nat \<Rightarrow> ('t, 'tap) SniffIo" where
  "with_tap_channel_capacity io n =
     (let io = io \<lparr> si_tap_capacity := n \<rparr>
      in case si_state io of
           SniffingState s \<Rightarrow> io \<lparr> si_state := SniffingState (s \<lparr> tap_channel := ch_set_capacity (tap_channel s) n \<rparr>) \<rparr>
         | Passthrough _ \<Rightarrow> io)"

definition data_dropped_bytes :: "('t, 'tap) SniffIo \<Rightarrow> nat" where
  "data_dropped_bytes io = (case si_state io of SniffingState s \<Rightarrow> dropped_bytes (data_channel s) | Passthrough _ \<Rightarrow> 0)"

definition data_dropped_chunks :: "('t, 'tap) SniffIo \<Rightarrow> nat" where
  "data_dropped_chunks io = (case si_state io of SniffingState s \<Rightarrow> dropped_chunks (data_channel s) | Passthrough _ \<Rightarrow> 0)"

definition tap_dropped_chunks :: "('t, 'tap) SniffIo \<Rightarrow> nat" where
  "tap_dropped_chunks io = (case si_state io of SniffingState s \<Rightarrow> dropped_chunks (tap_channel s) | Passthrough _ \<Rightarrow> 0)"

definition channel_capacity :: "('t, 'tap) SniffIo \<Rightarrow> nat" where
  "channel_capacity io = (case si_state io of SniffingState s \<Rightarrow> capacity (data_channel s) | Passthrough _ \<Rightarrow> 0)"

definition tap_dropped_bytes :: "('t, 'tap) SniffIo \<Rightarrow> nat" where
  "tap_dropped_bytes io = (case si_state io of SniffingState s \<Rightarrow> dropped_bytes (tap_channel s) | Passthrough _ \<Rightarrow> 0)"

definition total_dropped_bytes :: "('t, 'tap) SniffIo \<Rightarrow> nat" where
  "total_dropped_bytes io = data_dropped_bytes io + tap_dropped_bytes io"

definition sniff_replace_inner :: "('t, 'tap) SniffIo \<Rightarrow> 'tap option \<Rightarrow> 't \<Rightarrow> ('t, 'tap) SniffIo" where
  "sniff_replace_inner io tap new =
     (case tap of
        Some t \<Rightarrow> start_sniffing t (si_timing io) (si_buf_size io) (si_data_capacity io) (si_tap_capacity io)
      | None \<Rightarrow> io \<lparr> si_state := Passthrough new \<rparr>)"

text \<open>\<open>drop\<close> closes both channels.\<close>

definition sniff_drop :: "'tap Sniffing \<Rightarrow> 'tap Sniffing" where
  "sniff_drop s = s \<lparr> data_channel := snd (ch_close (data_channel s)), tap_channel := snd (ch_close (tap_channel s)) \<rparr>"

text \<open>One turn of the background reader on what its read returns.\<close>

definition active_reader :: "arrival \<Rightarrow> 'tap Sniffing \<Rightarrow> 'tap Sniffing" where
  "active_reader a s =
     (if reader_finished s then s
      else case a of
        Data [] \<Rightarrow>
          s \<lparr> data_channel := snd (ch_send_error (data_channel s) (IoError UnexpectedEof ''transport closed'')),
              reader_finished := True \<rparr>
      | Data chunk \<Rightarrow>
          (let s = s \<lparr> data_channel := snd (ch_send (data_channel s) chunk),
                       tap_channel := snd (ch_send (tap_channel s) chunk) \<rparr>
           in if closed (data_channel s) then s \<lparr> reader_finished := True \<rparr> else s)
      | ReadFail e \<Rightarrow> s \<lparr> data_channel := snd (ch_send_error (data_channel s) e), reader_finished := True \<rparr>)"

text \<open>One turn of the tap forwarder.\<close>

definition tap_forwarder :: "(wire_event \<Rightarrow> 'tap \<Rightarrow> 'tap) \<Rightarrow> u64 \<Rightarrow> 'tap Sniffing \<Rightarrow> 'tap Sniffing" where
  "tap_forwarder tap now s =
     (case ch_poll_next (tap_channel s) of
        (Some (Some chunk), ch) \<Rightarrow> s \<lparr> tap_channel := ch, tap_state := tap (OnRead chunk now) (tap_state s) \<rparr>
      | (_, ch) \<Rightarrow> s \<lparr> tap_channel := ch \<rparr>)"

datatype poll_read = ReadyOk bytes | ReadyErr io_error | Pending

text \<open>\<open>poll_read\<close> in the sniffing state, with room for \<open>n\<close> bytes in the caller's buffer.\<close>

definition poll_read :: "nat \<Rightarrow> 'tap Sniffing \<Rightarrow> poll_read \<times> 'tap Sniffing" where
  "poll_read room s =
     (case pending s of
        Some p \<Rightarrow>
          (let n = min (length p) room
           in (ReadyOk (take n p), s \<lparr> pending := (if n < length p then Some (drop n p) else None) \<rparr>))
      | None \<Rightarrow>
          (case ch_poll_recv (data_channel s) of
             (Inr (Some data), ch) \<Rightarrow>
               (let n = min (length data) room
                in (ReadyOk (take n data),
                    s \<lparr> data_channel := ch, pending := (if n < length data then Some (drop n data) else pending s) \<rparr>))
           | (Inr None, ch) \<Rightarrow>
               (if reader_finished s
                then (ReadyErr (IoError BrokenPipe ''background reader terminated''), s \<lparr> data_channel := ch \<rparr>)
                else (Pending, s \<lparr> data_channel := ch \<rparr>))
           | (Inl e, ch) \<Rightarrow> (ReadyErr e, s \<lparr> data_channel := ch \<rparr>)))"

text \<open>
  The \<open>AsyncRead\<close> and \<open>AsyncWrite\<close> of the proxy.  Without a tap the transport is polled itself: a
  function of its state.  \<open>now\<close> is the time of the call.  Leftover bytes of an earlier chunk return
  early, before the bus timing is touched.
\<close>

definition touch_timing :: "u64 \<Rightarrow> ('t, 'tap) SniffIo \<Rightarrow> ('t, 'tap) SniffIo" where
  "touch_timing now io = io \<lparr> si_timing := map_option (touch now) (si_timing io) \<rparr>"

definition io_poll_read ::
  "(nat \<Rightarrow> 't \<Rightarrow> poll_read \<times> 't) \<Rightarrow> u64 \<Rightarrow> nat \<Rightarrow> ('t, 'tap) SniffIo \<Rightarrow> poll_read \<times> ('t, 'tap) SniffIo" where
  "io_poll_read inner_read now room io =
     (let (leftover, result, io) =
        (case si_state io of
           Passthrough inner \<Rightarrow> (let (r, inner) = inner_read room inner in (False, r, io \<lparr> si_state := Passthrough inner \<rparr>))
         | SniffingState s \<Rightarrow>
             (let (r, s') = poll_read room s in (pending s \<noteq> None, r, io \<lparr> si_state := SniffingState s' \<rparr>)))
      in case result of
           ReadyOk bs \<Rightarrow> (result, if \<not> leftover \<and> bs \<noteq> [] then touch_timing now io else io)
         | _ \<Rightarrow> (result, io))"

datatype poll_write = WroteOk nat | WroteErr io_error | WritePending

text \<open>What a tap sees of a write.\<close>

definition tap_write :: "(wire_event \<Rightarrow> 'tap \<Rightarrow> 'tap) \<Rightarrow> u64 \<Rightarrow> bytes \<Rightarrow> 'tap Sniffing \<Rightarrow> 'tap Sniffing" where
  "tap_write tap now bytes s = s \<lparr> tap_state := tap (OnWrite bytes now) (tap_state s) \<rparr>"

definition io_poll_write ::
  "(wire_event \<Rightarrow> 'tap \<Rightarrow> 'tap) \<Rightarrow> poll_write \<Rightarrow> u64 \<Rightarrow> bytes \<Rightarrow> ('t, 'tap) SniffIo \<Rightarrow> poll_write \<times> ('t, 'tap) SniffIo" where
  "io_poll_write tap result now buf io =
     (case result of
        WroteOk n \<Rightarrow>
          (if n > 0 then
             let io = (case si_state io of
                         SniffingState s \<Rightarrow> io \<lparr> si_state := SniffingState (tap_write tap now (take n buf) s) \<rparr>
                       | Passthrough _ \<Rightarrow> io)
             in (result, touch_timing now io)
           else (result, io))
      | _ \<Rightarrow> (result, io))"

text \<open>\<open>SniffIo::prepare_send\<close>: how long it waits.\<close>

definition io_prepare_send :: "u64 \<Rightarrow> ('t, 'tap) SniffIo \<Rightarrow> duration" where
  "io_prepare_send now io = (case si_timing io of Some t \<Rightarrow> wait_if_needed now t | None \<Rightarrow> 0)"

text \<open>After a write of at least one byte the next send waits for the spacing, with a tap or without.\<close>

lemma write_then_prepare:
  assumes "0 < n" "si_timing io = Some t" "now \<noteq> 0" "now \<le> later"
  shows "unat now + unat (min_spacing_us t)
    \<le> unat later + as_micros (io_prepare_send later (snd (io_poll_write tap (WroteOk n) now buf io)))"
proof -
  have "si_timing (snd (io_poll_write tap (WroteOk n) now buf io)) = Some (touch now t)"
    using assms(1,2) by (simp add: io_poll_write_def touch_timing_def Let_def split: SniffState.split)
  moreover have "1 \<le> now" using assms(3) by (simp add: word_le_nat_alt unat_gt_0 Suc_le_eq)
  then have "last_event_us (touch now t) = now" "min_spacing_us (touch now t) = min_spacing_us t"
    by (simp_all add: touch_def max_absorb1)
  ultimately show ?thesis
    using spacing_kept [of "touch now t" later] assms(3,4) by (simp add: io_prepare_send_def as_micros_def)
qed

text \<open>Leftover bytes do not touch the timing.\<close>

lemma leftover_not_touched:
  assumes "si_state io = SniffingState s" "pending s = Some p"
  shows "si_timing (snd (io_poll_read inner_read now room io)) = si_timing io"
  using assms by (simp add: io_poll_read_def poll_read_def Let_def)

section \<open>Size and accounting\<close>

definition ch_wf :: "SniffChannel \<Rightarrow> bool" where
  "ch_wf ch \<longleftrightarrow> total_bytes ch = length (concat (queue ch)) \<and> total_bytes ch \<le> capacity ch"

text \<open>The queue entries count, whatever the capacity.\<close>

definition ch_counted :: "SniffChannel \<Rightarrow> bool" where
  "ch_counted ch \<longleftrightarrow> total_bytes ch = length (concat (queue ch))"

lemma evict_front_facts:
  assumes "ch_counted ch" "queue ch \<noteq> []"
  shows "ch_counted (evict_front ch)" and "capacity (evict_front ch) = capacity ch"
    and "total_bytes (evict_front ch) \<le> total_bytes ch"
    and "dropped_bytes (evict_front ch) + total_bytes (evict_front ch) = dropped_bytes ch + total_bytes ch"
    and "dropped_chunks (evict_front ch) + length (queue (evict_front ch)) = dropped_chunks ch + length (queue ch)"
  using assms by (auto simp: evict_front_def ch_counted_def neq_Nil_conv)

lemma evict_front_keeps:
  "closed (evict_front ch) = closed ch" "ch_error (evict_front ch) = ch_error ch" "waker (evict_front ch) = waker ch"
  by (simp_all add: evict_front_def split: list.splits)

text \<open>The chunks that stay when \<open>need\<close> bytes must fit beside them.\<close>

fun fit_suffix :: "nat \<Rightarrow> nat \<Rightarrow> bytes list \<Rightarrow> bytes list" where
  "fit_suffix cap need [] = []"
| "fit_suffix cap need (c # cs) =
     (if length (concat (c # cs)) + need \<le> cap then c # cs else fit_suffix cap need cs)"

lemma fit_suffix_suffix: "\<exists>k. fit_suffix cap need cs = drop k cs"
proof (induction cs)
  case (Cons c cs)
  then obtain k where k: "fit_suffix cap need cs = drop k cs" by blast
  show ?case
  proof (cases "length (concat (c # cs)) + need \<le> cap")
    case True
    then show ?thesis by (intro exI [of _ 0]) simp
  next
    case False
    with k show ?thesis by (intro exI [of _ "Suc k"]) (simp del: concat.simps)
  qed
qed simp

lemma fit_suffix_fits: "need \<le> cap \<Longrightarrow> length (concat (fit_suffix cap need cs)) + need \<le> cap"
  by (induction cs) auto

lemma ch_send_effect:
  assumes "ch_send ch chunk = (w, ch')" and "ch_wf ch"
  shows "queue ch' = (if length chunk \<le> capacity ch
                      then fit_suffix (capacity ch) (length chunk) (queue ch) @ [chunk] else [])
    \<and> ch_wf ch' \<and> capacity ch' = capacity ch
    \<and> dropped_bytes ch' + total_bytes ch' = dropped_bytes ch + total_bytes ch + length chunk
    \<and> closed ch' = closed ch \<and> ch_error ch' = ch_error ch"
  using assms
proof (induction ch chunk rule: ch_send.induct)
  case (1 ch chunk)
  show ?case
  proof (cases "total_bytes ch + length chunk > capacity ch \<and> queue ch \<noteq> []")
    case True
    then obtain c cs where q: "queue ch = c # cs" by (cases "queue ch") auto
    from 1(3) have counted: "ch_counted ch" by (simp add: ch_wf_def ch_counted_def)
    note e = evict_front_facts [OF counted conjunct2 [OF True]]
    have "ch_wf (evict_front ch)" using e 1(3) by (auto simp: ch_wf_def ch_counted_def)
    moreover have "ch_send (evict_front ch) chunk = (w, ch')"
      using True 1(2) by (subst (asm) ch_send.simps) simp
    moreover have "fit_suffix (capacity ch) (length chunk) (queue ch) = fit_suffix (capacity ch) (length chunk) cs"
      using True counted q by (simp add: ch_counted_def)
    ultimately show ?thesis using 1(1) True e q by (simp add: evict_front_keeps)
  next
    case False
    then consider (full) "total_bytes ch + length chunk > capacity ch" "queue ch = []"
      | (fits) "total_bytes ch + length chunk \<le> capacity ch" by force
    then show ?thesis
    proof cases
      case full
      with 1(2,3) show ?thesis by (subst (asm) ch_send.simps) (auto simp: ch_wf_def)
    next
      case fits
      moreover from this 1(3) have "fit_suffix (capacity ch) (length chunk) (queue ch) = queue ch"
        by (cases "queue ch") (auto simp: ch_wf_def)
      ultimately show ?thesis
        using 1(2,3) by (subst (asm) ch_send.simps) (auto simp: ch_wf_def)
    qed
  qed
qed

lemma evict_to_effect:
  assumes "ch_counted ch" "capacity ch = new_cap"
  shows "ch_wf (evict_to new_cap ch) \<and> queue (evict_to new_cap ch) = fit_suffix new_cap 0 (queue ch)
    \<and> dropped_bytes (evict_to new_cap ch) + total_bytes (evict_to new_cap ch) = dropped_bytes ch + total_bytes ch"
  using assms
proof (induction new_cap ch rule: evict_to.induct)
  case (1 new_cap ch)
  show ?case
  proof (cases "total_bytes ch > new_cap \<and> queue ch \<noteq> []")
    case True
    then obtain c cs where q: "queue ch = c # cs" by (cases "queue ch") auto
    note e = evict_front_facts [OF 1(2) conjunct2 [OF True]]
    have "evict_to new_cap ch = evict_to new_cap (evict_front ch)"
      using True by (subst evict_to.simps) simp
    moreover have "fit_suffix new_cap 0 (queue ch) = fit_suffix new_cap 0 cs"
      using True 1(2) q by (simp add: ch_counted_def)
    ultimately show ?thesis using 1 True e q by simp
  next
    case False
    then have "evict_to new_cap ch = ch" by (subst evict_to.simps) auto
    moreover have "total_bytes ch \<le> new_cap" using False 1(2) by (auto simp: ch_counted_def)
    ultimately show ?thesis
      using 1(2,3) by (cases "queue ch") (auto simp: ch_wf_def ch_counted_def)
  qed
qed

section \<open>Delivery in order\<close>

text \<open>The bytes a reader of the proxy has still to get.\<close>

definition undelivered :: "'tap Sniffing \<Rightarrow> bytes" where
  "undelivered s = (case pending s of Some p \<Rightarrow> p | None \<Rightarrow> []) @ concat (queue (data_channel s))"

lemma poll_read_delivers:
  "poll_read room s = (ReadyOk bs, s') \<Longrightarrow> undelivered s = bs @ undelivered s' \<and> length bs \<le> room"
  by (auto simp: poll_read_def ch_poll_recv_def undelivered_def Let_def min_def
      split: option.splits list.splits if_splits)

lemma poll_read_not_ok:
  "poll_read room s = (r, s') \<Longrightarrow> (\<nexists>bs. r = ReadyOk bs) \<Longrightarrow> undelivered s = [] \<and> undelivered s' = []"
  by (auto simp: poll_read_def ch_poll_recv_def undelivered_def Let_def
      split: option.splits list.splits if_splits)

text \<open>Reading again and again, with the rooms given.\<close>

fun poll_reads :: "nat list \<Rightarrow> 'tap Sniffing \<Rightarrow> bytes \<times> 'tap Sniffing" where
  "poll_reads [] s = ([], s)"
| "poll_reads (room # rooms) s =
     (case poll_read room s of
        (ReadyOk bs, s) \<Rightarrow> (let (rest, s) = poll_reads rooms s in (bs @ rest, s))
      | (_, s) \<Rightarrow> ([], s))"

lemma poll_reads_in_order: "poll_reads rooms s = (bs, s') \<Longrightarrow> undelivered s = bs @ undelivered s'"
proof (induction rooms arbitrary: s bs)
  case (Cons room rooms)
  obtain r s1 where r: "poll_read room s = (r, s1)" by fastforce
  show ?case
  proof (cases r)
    case (ReadyOk cs)
    obtain ds s2 where "poll_reads rooms s1 = (ds, s2)" by fastforce
    with Cons r ReadyOk poll_read_delivers [of room s cs s1] show ?thesis by (auto simp: Let_def)
  qed (use Cons.prems r poll_read_not_ok [OF r] in auto)
qed simp

lemma active_reader_undelivered:
  assumes "\<not> reader_finished s" "ch_wf (data_channel s)" "chunk \<noteq> []"
    and "total_bytes (data_channel s) + length chunk \<le> capacity (data_channel s)"
  shows "undelivered (active_reader (Data chunk) s) = undelivered s @ chunk"
proof -
  obtain c cs where "chunk = c # cs" using assms(3) by (cases chunk) auto
  moreover have "queue (snd (ch_send (data_channel s) chunk)) = queue (data_channel s) @ [chunk]"
    using assms(4) by (subst ch_send.simps) simp
  ultimately show ?thesis
    using assms(1) by (simp add: active_reader_def undelivered_def Let_def)
qed

text \<open>The end of the transport: first an error that is not retried, then one that is.\<close>

lemma eof_sequence:
  assumes "\<not> reader_finished s" "pending s = None" "queue (data_channel s) = []" "ch_error (data_channel s) = None"
    and "\<not> closed (data_channel s)"
  defines "s1 \<equiv> active_reader (Data []) s"
  shows "fst (poll_read room s1) = ReadyErr (IoError UnexpectedEof ''transport closed'')"
    and "fst (poll_read room (snd (poll_read room s1))) = ReadyErr (IoError BrokenPipe ''background reader terminated'')"
  using assms(1-5)
  by (auto simp: s1_def active_reader_def ch_send_error_def poll_read_def ch_poll_recv_def)

end
