(* ===== verification/Modbus_Proxy.thy ===== *)
theory Modbus_Proxy
  imports Modbus_Sniff
begin

text \<open>
  Runs of the tapping proxy: the step relation of its reader task, its tap task and its caller, what
  the caller is given, what the tap sees of reads and writes, and what a bus capture behind it has
  recorded then.
\<close>

section \<open>Runs of the proxy\<close>

text \<open>
  The reader task, the tap task and the caller, who reads and writes, interleave freely.  \<open>sniffs tap
  data_cap tap_cap t s arrived delivered written\<close>: from a new proxy with these channel capacities
  and tap state \<open>t\<close> the state \<open>s\<close> is reached after the transport gave \<open>arrived\<close>, the caller was
  given \<open>delivered\<close>, and the transport took the writes \<open>written\<close>.
\<close>

definition arrived_bytes :: "arrival \<Rightarrow> bytes" where
  "arrived_bytes a = (case a of Data bs \<Rightarrow> bs | ReadFail e \<Rightarrow> [])"

definition proxy_start :: "nat \<Rightarrow> nat \<Rightarrow> 'tap \<Rightarrow> 'tap Sniffing" where
  "proxy_start data_cap tap_cap t =
     \<lparr> data_channel = channel_new data_cap, tap_channel = channel_new tap_cap,
       reader_finished = False, pending = None, tap_state = t \<rparr>"

inductive sniffs ::
  "(wire_event \<Rightarrow> 'tap \<Rightarrow> 'tap) \<Rightarrow> nat \<Rightarrow> nat \<Rightarrow> 'tap \<Rightarrow> 'tap Sniffing \<Rightarrow> bytes \<Rightarrow> bytes \<Rightarrow> bytes list \<Rightarrow> bool"
  for tap :: "wire_event \<Rightarrow> 'tap \<Rightarrow> 'tap" and data_cap tap_cap :: nat and t :: 'tap
where
  start: "sniffs tap data_cap tap_cap t (proxy_start data_cap tap_cap t) [] [] []"
| arrive: "sniffs tap data_cap tap_cap t (active_reader a s) (arrived @ arrived_bytes a) delivered written"
    if "sniffs tap data_cap tap_cap t s arrived delivered written" "\<not> reader_finished s"
| forward: "sniffs tap data_cap tap_cap t (tap_forwarder tap now s) arrived delivered written"
    if "sniffs tap data_cap tap_cap t s arrived delivered written"
| deliver: "sniffs tap data_cap tap_cap t s' arrived (delivered @ bs) written"
    if "sniffs tap data_cap tap_cap t s arrived delivered written" "poll_read room s = (ReadyOk bs, s')"
| refuse: "sniffs tap data_cap tap_cap t s' arrived delivered written"
    if "sniffs tap data_cap tap_cap t s arrived delivered written" "poll_read room s = (r, s')" "\<nexists>bs. r = ReadyOk bs"
| accept: "sniffs tap data_cap tap_cap t (tap_write tap now (take n buf) s) arrived delivered (written @ [take n buf])"
    if "sniffs tap data_cap tap_cap t s arrived delivered written" "0 < n" "n \<le> length buf"

text \<open>What a run keeps: the channel's accounting, and that nothing is reordered or invented.\<close>

definition accounted :: "nat \<Rightarrow> 'tap Sniffing \<Rightarrow> bytes \<Rightarrow> bytes \<Rightarrow> bool" where
  "accounted data_cap s arrived delivered \<longleftrightarrow>
     ch_wf (data_channel s) \<and> capacity (data_channel s) = data_cap
     \<and> subseq (delivered @ undelivered s) arrived
     \<and> length arrived = length (delivered @ undelivered s) + dropped_bytes (data_channel s)"

lemma fit_suffix_subseq: "subseq (concat (fit_suffix cap need cs)) (concat cs)"
proof -
  obtain k where "fit_suffix cap need cs = drop k cs" using fit_suffix_suffix by blast
  then have "concat cs = concat (take k cs) @ concat (fit_suffix cap need cs)"
    by (metis append_take_drop_id concat_append)
  then show ?thesis by (metis list_emb_append2 subseq_order.order_refl)
qed

lemma send_accounted:
  assumes "ch_send ch chunk = (w, ch')" "ch_wf ch"
  shows "subseq (concat (queue ch')) (concat (queue ch) @ chunk)"
    and "length (concat (queue ch)) + length chunk + dropped_bytes ch = length (concat (queue ch')) + dropped_bytes ch'"
    and "ch_wf ch'" "capacity ch' = capacity ch"
proof -
  note e = ch_send_effect [OF assms]
  show "subseq (concat (queue ch')) (concat (queue ch) @ chunk)"
    using e fit_suffix_subseq [of "capacity ch" "length chunk" "queue ch"]
    by (auto split: if_splits intro: list_emb_append_mono)
  show "length (concat (queue ch)) + length chunk + dropped_bytes ch = length (concat (queue ch')) + dropped_bytes ch'"
  proof -
    have "total_bytes ch' = length (concat (queue ch'))" "total_bytes ch = length (concat (queue ch))"
      "dropped_bytes ch' + total_bytes ch' = dropped_bytes ch + total_bytes ch + length chunk"
      using e assms(2) unfolding ch_wf_def by blast+
    then show ?thesis by linarith
  qed
  show "ch_wf ch'" "capacity ch' = capacity ch" using e by simp_all
qed

lemma arrive_accounted:
  assumes "accounted data_cap s arrived delivered" "\<not> reader_finished s"
  shows "accounted data_cap (active_reader a s) (arrived @ arrived_bytes a) delivered"
proof (cases "\<exists>b bs. a = Data (b # bs)")
  case True
  then obtain chunk where a: "a = Data chunk" "chunk \<noteq> []" by blast
  obtain w ch where send: "ch_send (data_channel s) chunk = (w, ch)" by fastforce
  note e = send_accounted [OF send conjunct1 [OF assms(1) [unfolded accounted_def]]]
  have data: "data_channel (active_reader a s) = ch" and same: "pending (active_reader a s) = pending s"
    using a assms(2) send by (auto simp: active_reader_def Let_def neq_Nil_conv)
  define front where "front = delivered @ (case pending s of Some p \<Rightarrow> p | None \<Rightarrow> [])"
  have old: "delivered @ undelivered s = front @ concat (queue (data_channel s))"
    and new: "delivered @ undelivered (active_reader a s) = front @ concat (queue ch)"
    using data same by (simp_all add: undelivered_def front_def)
  have "subseq (front @ concat (queue ch)) ((front @ concat (queue (data_channel s))) @ chunk)"
    using e(1) by (simp add: list_emb_append_mono)
  moreover have "subseq ((front @ concat (queue (data_channel s))) @ chunk) (arrived @ chunk)"
    using assms(1) old by (intro list_emb_append_mono) (simp_all add: accounted_def)
  ultimately have "subseq (front @ concat (queue ch)) (arrived @ chunk)"
    by (rule subseq_order.order_trans)
  then show ?thesis
    using assms(1) e(2-4) a data unfolding accounted_def new old arrived_bytes_def by simp
next
  case False
  then have "a = Data [] \<or> (\<exists>e. a = ReadFail e)"
    by (metis arrival.exhaust neq_Nil_conv)
  then have "arrived_bytes a = []" and "undelivered (active_reader a s) = undelivered s"
    and "queue (data_channel (active_reader a s)) = queue (data_channel s)"
    and "ch_wf (data_channel (active_reader a s)) = ch_wf (data_channel s)"
    and "capacity (data_channel (active_reader a s)) = capacity (data_channel s)"
    and "dropped_bytes (data_channel (active_reader a s)) = dropped_bytes (data_channel s)"
    by (auto simp: arrived_bytes_def active_reader_def undelivered_def ch_send_error_def ch_wf_def
        split: arrival.splits list.splits)
  then show ?thesis using assms(1) by (simp add: accounted_def)
qed

lemma poll_read_channel:
  assumes "poll_read room s = (r, s')" "ch_wf (data_channel s)"
  shows "ch_wf (data_channel s') \<and> capacity (data_channel s') = capacity (data_channel s)
    \<and> dropped_bytes (data_channel s') = dropped_bytes (data_channel s)"
  using assms
  by (auto simp: poll_read_def ch_poll_recv_def ch_wf_def Let_def split: option.splits list.splits if_splits)

lemma poll_read_tap:
  "poll_read room s = (r, s') \<Longrightarrow> tap_channel s' = tap_channel s \<and> tap_state s' = tap_state s"
  by (auto simp: poll_read_def ch_poll_recv_def Let_def split: option.splits list.splits if_splits)

lemma sniffs_accounted:
  "sniffs tap data_cap tap_cap t s arrived delivered written \<Longrightarrow> accounted data_cap s arrived delivered"
proof (induction rule: sniffs.induct)
  case start
  then show ?case by (simp add: accounted_def proxy_start_def channel_new_def undelivered_def ch_wf_def)
next
  case (arrive s arrived delivered written a)
  then show ?case by (simp add: arrive_accounted)
next
  case (forward s arrived delivered written now)
  have "data_channel (tap_forwarder tap now s) = data_channel s" "pending (tap_forwarder tap now s) = pending s"
    by (auto simp: tap_forwarder_def split: option.splits prod.splits)
  with forward.IH show ?case by (simp add: accounted_def undelivered_def)
next
  case (deliver s arrived delivered written room bs s')
  then show ?case
    using poll_read_delivers [OF deliver.hyps(2)] poll_read_channel [OF deliver.hyps(2)] by (simp add: accounted_def)
next
  case (refuse s arrived delivered written room r s')
  then show ?case
    using poll_read_not_ok [OF refuse.hyps(2,3)] poll_read_channel [OF refuse.hyps(2)] by (simp add: accounted_def)
next
  case (accept s arrived delivered written n buf now)
  from accept.IH show ?case by (simp add: accounted_def undelivered_def tap_write_def)
qed

section \<open>What the tap sees\<close>

fun written_of :: "wire_event \<Rightarrow> bytes list" where
  "written_of (OnWrite bs ts) = [bs]"
| "written_of _ = []"

fun read_of :: "wire_event \<Rightarrow> bytes list" where
  "read_of (OnRead bs ts) = [bs]"
| "read_of _ = []"

fun is_error :: "wire_event \<Rightarrow> bool" where
  "is_error (OnError bs e ts) = True"
| "is_error _ = False"

abbreviation "writes_seen seen \<equiv> concat (map written_of seen)"
abbreviation "reads_seen seen \<equiv> concat (map read_of seen)"

text \<open>
  The events a tap was given account for its state: every write in order, and of the chunks read a
  subsequence, the rest waiting in its channel or counted as dropped there; never an error.
\<close>

definition tapped ::
  "(wire_event \<Rightarrow> 'tap \<Rightarrow> 'tap) \<Rightarrow> 'tap \<Rightarrow> wire_event list \<Rightarrow> 'tap Sniffing \<Rightarrow> bytes \<Rightarrow> bytes list \<Rightarrow> bool" where
  "tapped tap t seen s arrived written \<longleftrightarrow>
     tap_state s = fold tap seen t \<and> writes_seen seen = written \<and> (\<forall>ev \<in> set seen. \<not> is_error ev)
     \<and> ch_wf (tap_channel s)
     \<and> subseq (concat (reads_seen seen) @ concat (queue (tap_channel s))) arrived
     \<and> length arrived = length (concat (reads_seen seen)) + length (concat (queue (tap_channel s))) + dropped_bytes (tap_channel s)"

lemma arrive_tapped:
  assumes "tapped tap t seen s arrived written" "\<not> reader_finished s"
  shows "tapped tap t seen (active_reader a s) (arrived @ arrived_bytes a) written"
proof (cases "\<exists>b bs. a = Data (b # bs)")
  case True
  then obtain chunk where a: "a = Data chunk" "chunk \<noteq> []" by blast
  obtain w ch where send: "ch_send (tap_channel s) chunk = (w, ch)" by fastforce
  from assms(1) have "ch_wf (tap_channel s)" by (simp add: tapped_def)
  note e = send_accounted [OF send this]
  have data: "tap_channel (active_reader a s) = ch" "tap_state (active_reader a s) = tap_state s"
    using a assms(2) send by (auto simp: active_reader_def Let_def neq_Nil_conv)
  let ?read = "concat (reads_seen seen)"
  have "subseq (?read @ concat (queue ch)) ((?read @ concat (queue (tap_channel s))) @ chunk)"
    using e(1) by (simp add: list_emb_append_mono)
  moreover have "subseq ((?read @ concat (queue (tap_channel s))) @ chunk) (arrived @ chunk)"
    using assms(1) by (intro list_emb_append_mono) (simp_all add: tapped_def)
  ultimately have "subseq (?read @ concat (queue ch)) (arrived @ chunk)"
    by (rule subseq_order.order_trans)
  then show ?thesis using assms(1) e(2,3) a data by (simp add: tapped_def arrived_bytes_def)
next
  case False
  then have "a = Data [] \<or> (\<exists>e. a = ReadFail e)"
    by (metis arrival.exhaust neq_Nil_conv)
  then have "arrived_bytes a = []" "tap_channel (active_reader a s) = tap_channel s" "tap_state (active_reader a s) = tap_state s"
    by (auto simp: arrived_bytes_def active_reader_def split: arrival.splits list.splits)
  then show ?thesis using assms(1) by (simp add: tapped_def)
qed

lemma forward_tapped:
  assumes "tapped tap t seen s arrived written"
  shows "\<exists>seen'. tapped tap t seen' (tap_forwarder tap now s) arrived written"
proof (cases "queue (tap_channel s)")
  case Nil
  have "tapped tap t seen (tap_forwarder tap now s) arrived written"
    using assms Nil
    by (auto simp: tapped_def tap_forwarder_def ch_poll_next_def ch_poll_recv_def ch_wf_def split: option.splits)
  then show ?thesis ..
next
  case (Cons chunk rest)
  have "tapped tap t (seen @ [OnRead chunk now]) (tap_forwarder tap now s) arrived written"
    using assms Cons by (auto simp: tapped_def tap_forwarder_def ch_poll_next_def ch_poll_recv_def ch_wf_def)
  then show ?thesis ..
qed

lemma sniffs_tapped:
  "sniffs tap data_cap tap_cap t s arrived delivered written \<Longrightarrow> \<exists>seen. tapped tap t seen s arrived written"
proof (induction rule: sniffs.induct)
  case start
  have "tapped tap t [] (proxy_start data_cap tap_cap t) [] []"
    by (simp add: tapped_def proxy_start_def channel_new_def ch_wf_def)
  then show ?case ..
next
  case (arrive s arrived delivered written a)
  then obtain seen where "tapped tap t seen s arrived written" by blast
  from arrive_tapped [OF this arrive.hyps(2)] show ?case ..
next
  case (forward s arrived delivered written now)
  then obtain seen where "tapped tap t seen s arrived written" by blast
  from forward_tapped [OF this] show ?case .
next
  case (deliver s arrived delivered written room bs s')
  have "tap_channel s' = tap_channel s" "tap_state s' = tap_state s"
    using poll_read_tap [OF deliver.hyps(2)] by simp_all
  with deliver.IH show ?case by (simp add: tapped_def)
next
  case (refuse s arrived delivered written room r s')
  have "tap_channel s' = tap_channel s" "tap_state s' = tap_state s"
    using poll_read_tap [OF refuse.hyps(2)] by simp_all
  with refuse.IH show ?case by (simp add: tapped_def)
next
  case (accept s arrived delivered written n buf now)
  then obtain seen where "tapped tap t seen s arrived written" by blast
  then have "tapped tap t (seen @ [OnWrite (take n buf) now]) (tap_write tap now (take n buf) s) arrived (written @ [take n buf])"
    by (simp add: tapped_def tap_write_def)
  then show ?case ..
qed

section \<open>A bus capture on the proxy\<close>

text \<open>The data of the records of one direction.\<close>

fun sent_data :: "PacketData \<Rightarrow> bytes list" where
  "sent_data (RawTx bs) = [bs]"
| "sent_data _ = []"

fun received_data :: "PacketData \<Rightarrow> bytes list" where
  "received_data (RawRx bs) = [bs]"
| "received_data _ = []"

abbreviation "sent_records rs \<equiv> concat (map (sent_data \<circ> packet_data) rs)"
abbreviation "received_records rs \<equiv> concat (map (received_data \<circ> packet_data) rs)"

lemma records_of_events:
  "sent_records (map event_packet seen) = writes_seen seen"
  "received_records (map event_packet seen) = reads_seen seen"
proof -
  have "(sent_data \<circ> packet_data) (event_packet ev) = written_of ev"
    "(received_data \<circ> packet_data) (event_packet ev) = read_of ev" for ev
    by (cases ev; simp add: packet_def)+
  then show "sent_records (map event_packet seen) = writes_seen seen"
    "received_records (map event_packet seen) = reads_seen seen" by (simp_all add: o_def)
qed

lemma recorders_all: "bus_snapshot (fold bus_tap seen bus_unbounded) = map event_packet seen"
proof -
  have "bus_wf bus_unbounded" by (simp add: bus_wf_def bus_unbounded_def)
  from bus.contents_fold [OF this, of seen] show ?thesis
    by (simp add: bus_room_def bus_snapshot_def bus_unbounded_def)
qed

lemma seen_counts:
  "\<forall>ev \<in> set seen. \<not> is_error ev \<Longrightarrow>
     bc_requests (fold bus_tap seen bus_unbounded) = of_nat (length (writes_seen seen))
     \<and> bc_responses (fold bus_tap seen bus_unbounded) = of_nat (length (reads_seen seen))
     \<and> bc_errors (fold bus_tap seen bus_unbounded) = 0"
proof -
  assume ok: "\<forall>ev \<in> set seen. \<not> is_error ev"
  have "length (writes_seen seen) = length (filter (\<lambda>ev. \<exists>bs ts. ev = OnWrite bs ts) seen)"
    "length (reads_seen seen) = length (filter (\<lambda>ev. \<exists>bs ts. ev = OnRead bs ts) seen)"
    by (induction seen) (simp_all, (case_tac a; simp)+)
  moreover have "filter (\<lambda>ev. \<exists>bs e ts. ev = OnError bs e ts) seen = []"
    using ok by (auto simp: filter_empty_conv)
  ultimately show ?thesis
    using bus_counts_fold [of seen bus_unbounded] by (simp add: bus_unbounded_def)
qed


section \<open>Room enough\<close>

lemma send_no_drop:
  assumes "ch_send ch chunk = (w, ch')" "ch_wf ch" "length (concat (queue ch)) + length chunk \<le> capacity ch"
  shows "dropped_bytes ch' = dropped_bytes ch"
  using assms by (subst (asm) ch_send.simps) (auto simp: ch_wf_def)

lemma active_reader_sends:
  assumes "\<not> reader_finished s"
  shows "(\<exists>w. ch_send (data_channel s) (arrived_bytes a) = (w, data_channel (active_reader a s)))
      \<and> (\<exists>w. ch_send (tap_channel s) (arrived_bytes a) = (w, tap_channel (active_reader a s)))
    \<or> dropped_bytes (data_channel (active_reader a s)) = dropped_bytes (data_channel s)
      \<and> tap_channel (active_reader a s) = tap_channel s"
  using assms
  by (auto simp: active_reader_def arrived_bytes_def Let_def ch_send_error_def prod_eq_iff split: arrival.splits list.splits)

lemma tap_forwarder_channels:
  "data_channel (tap_forwarder tap now s) = data_channel s"
  "dropped_bytes (tap_channel (tap_forwarder tap now s)) = dropped_bytes (tap_channel s)"
  "capacity (tap_channel (tap_forwarder tap now s)) = capacity (tap_channel s)"
  by (auto simp: tap_forwarder_def ch_poll_next_def ch_poll_recv_def split: option.splits prod.splits list.splits)

lemma sniffs_tap_capacity:
  "sniffs tap data_cap tap_cap t s arrived delivered written \<Longrightarrow> capacity (tap_channel s) = tap_cap"
proof (induction rule: sniffs.induct)
  case start
  then show ?case by (simp add: proxy_start_def channel_new_def)
next
  case (arrive s arrived delivered written a)
  obtain seen where "tapped tap t seen s arrived written" using sniffs_tapped [OF arrive.hyps(1)] by blast
  then have "ch_wf (tap_channel s)" by (simp add: tapped_def)
  then show ?case using active_reader_sends [OF arrive.hyps(2), of a] arrive.IH by (auto dest: send_accounted(4))
qed (simp_all add: tap_forwarder_channels poll_read_tap tap_write_def)

text \<open>A channel whose capacity covers all that has arrived drops nothing.\<close>

lemma sniffs_no_drop:
  "sniffs tap data_cap tap_cap t s arrived delivered written \<Longrightarrow>
     (length arrived \<le> data_cap \<longrightarrow> dropped_bytes (data_channel s) = 0)
     \<and> (length arrived \<le> tap_cap \<longrightarrow> dropped_bytes (tap_channel s) = 0)"
proof (induction rule: sniffs.induct)
  case start
  then show ?case by (simp add: proxy_start_def channel_new_def)
next
  case (arrive s arrived delivered written a)
  obtain seen where "tapped tap t seen s arrived written" using sniffs_tapped [OF arrive.hyps(1)] by blast
  then have tap: "ch_wf (tap_channel s)" "length (concat (queue (tap_channel s))) \<le> length arrived" by (simp_all add: tapped_def)
  have "accounted data_cap s arrived delivered" by (rule sniffs_accounted [OF arrive.hyps(1)])
  then have data: "ch_wf (data_channel s)" "capacity (data_channel s) = data_cap"
    "length (concat (queue (data_channel s))) \<le> length arrived"
    by (auto simp: accounted_def undelivered_def split: option.splits)
  note fits = send_no_drop [OF _ data(1), of "arrived_bytes a"] send_no_drop [OF _ tap(1), of "arrived_bytes a"]
  show ?case
    using active_reader_sends [OF arrive.hyps(2), of a] arrive.IH data(2,3) tap(2) sniffs_tap_capacity [OF arrive.hyps(1)]
    by (elim disjE exE conjE) (auto dest!: fits)
next
  case (deliver s arrived delivered written room bs s')
  then show ?case
    using poll_read_channel [OF deliver.hyps(2)] poll_read_tap [OF deliver.hyps(2)] sniffs_accounted [OF deliver.hyps(1)]
    by (simp add: accounted_def)
next
  case (refuse s arrived delivered written room r s')
  then show ?case
    using poll_read_channel [OF refuse.hyps(2)] poll_read_tap [OF refuse.hyps(2)] sniffs_accounted [OF refuse.hyps(1)]
    by (simp add: accounted_def)
qed (simp_all add: tap_forwarder_channels tap_write_def)

end
