(* ===== verification/Modbus_Calendar.thy ===== *)
theory Modbus_Calendar
  imports Modbus_Prelude "HOL-Library.Signed_Division"
begin

text \<open>
  \<open>days_to_ymd\<close> of \<open>src/intercept.rs\<close>: the civil date of a day number.  The \<open>i64\<close> and \<open>u32\<close> values
  of the computation are integers (\<open>/\<close> on \<open>i64\<close> truncates, \<open>sdiv\<close>).  The date is checked against a
  direct count of the days since 1970-01-01 in the Gregorian calendar (\<open>days_from_civil\<close>).
\<close>

section \<open>Calendar\<close>

definition days_to_ymd :: "int \<Rightarrow> int \<times> int \<times> int" where
  "days_to_ymd z =
     (let z = z + 719468;
          era = (if z \<ge> 0 then z else z - 146096) sdiv 146097;
          doe = z - era * 146097;
          yoe = (doe - doe div 1460 + doe div 36524 - doe div 146096) div 365;
          y = yoe + era * 400;
          doy = doe - (365 * yoe + yoe div 4 - yoe div 100);
          mp = (5 * doy + 2) div 153;
          d = doy - (153 * mp + 2) div 5 + 1;
          m = (if mp < 10 then mp + 3 else mp - 9);
          y = (if m \<le> 2 then y + 1 else y)
      in (y, m, d))"

definition leap :: "int \<Rightarrow> bool" where
  "leap y \<longleftrightarrow> y mod 4 = 0 \<and> (y mod 100 \<noteq> 0 \<or> y mod 400 = 0)"

definition month_lengths :: "bool \<Rightarrow> int list" where
  "month_lengths lp = [31, if lp then 29 else 28, 31, 30, 31, 30, 31, 31, 30, 31, 30, 31]"

definition valid_date :: "int \<Rightarrow> int \<Rightarrow> int \<Rightarrow> bool" where
  "valid_date y m d \<longleftrightarrow> 1 \<le> m \<and> m \<le> 12 \<and> 1 \<le> d \<and> d \<le> month_lengths (leap y) ! nat (m - 1)"

definition leap_days :: "int \<Rightarrow> int" where
  "leap_days y = y div 4 - y div 100 + y div 400"

text \<open>Days since 1970-01-01, counted: years, leap days before the year, months, days.\<close>

definition days_from_civil :: "int \<Rightarrow> int \<Rightarrow> int \<Rightarrow> int" where
  "days_from_civil y m d =
     365 * (y - 1970) + (leap_days (y - 1) - 477)
     + sum_list (take (nat (m - 1)) (month_lengths (leap y))) + (d - 1)"

lemma div_by:
  fixes a b q r :: int
  assumes "a = b * q + r" "0 \<le> r" "r < b"
  shows "a div b = q"
  using assms by (metis add.commute div_mult_self_is_m div_pos_pos_trivial div_mult_self4 add_cancel_left_left
      div_mult_self2 less_le_trans not_less order.strict_iff_order)

lemma div_bounds:
  fixes n a :: int
  assumes "0 < n"
  shows "n * (a div n) \<le> a" "a < n * (a div n) + n"
  using mult_div_mod_eq [of n a] pos_mod_sign [OF assms, of a] pos_mod_bound [OF assms, of a] by linarith+

lemma era_floor: "(if z \<ge> 0 then z else z - 146096) sdiv 146097 = (z :: int) div 146097"
proof (cases "z \<ge> 0")
  case True
  then show ?thesis by (simp add: signed_divide_int_def sgn_if) 
next
  case False
  define q where "q = z div 146097"
  define r where "r = z mod 146097"
  have z: "z = 146097 * q + r" and r: "0 \<le> r" "r < 146097" by (simp_all add: q_def r_def)
  have "(146096 - z) div 146097 = - q"
    by (rule div_by [where r = "146096 - r"]) (use z r in auto)
  with False show ?thesis by (simp add: signed_divide_int_def sgn_if q_def)
qed

text \<open>The year of the era.\<close>

lemma year_of_era:
  assumes "0 \<le> doe" "doe < (146097 :: int)"
  defines "yoe \<equiv> (doe - doe div 1460 + doe div 36524 - doe div 146096) div 365"
  defines "doy \<equiv> doe - (365 * yoe + yoe div 4 - yoe div 100)"
  shows "0 \<le> yoe \<and> yoe < 400 \<and> 0 \<le> doy \<and> doy \<le> 365 \<and> (doy = 365 \<longrightarrow> leap (yoe + 1))"
proof (cases "doe = 146096")
  case True
  then show ?thesis by (simp add: yoe_def doy_def leap_def)
next
  case False
  define b where "b = doe div 36524"
  define rb where "rb = doe mod 36524"
  define q where "q = rb div 1461"
  define rq where "rq = rb mod 1461"
  have rb: "0 \<le> rb" "rb < 36524" and rq: "0 \<le> rq" "rq < 1461"
    by (simp_all add: rb_def rq_def)
  have doe: "doe = 36524 * b + rb" and rbq: "rb = 1461 * q + rq"
    by (simp_all add: b_def rb_def q_def rq_def)
  have b: "0 \<le> b" "b \<le> 3" using doe rb assms(1,2) False by linarith+
  have q: "0 \<le> q" "q \<le> 24" using rbq rb rq by linarith+
  define dl where "dl = (if 24 * b + q + rq \<ge> 1460 then 1 else 0 :: int)"
  have dl: "0 \<le> dl" "dl \<le> 1" by (simp_all add: dl_def)
  have a: "doe div 1460 = 25 * b + q + dl"
    by (rule div_by [where r = "24 * b + q + rq - 1460 * dl"])
      (use doe rbq b q rq in \<open>auto simp: dl_def\<close>)
  have e: "doe div 146096 = 0" using assms(1,2) False by simp
  define k where "k = (rq - dl) div 365"
  have rqd: "0 \<le> rq - dl" "rq - dl \<le> 1459" using b q rq by (auto simp: dl_def)
  note krq = div_bounds [of 365 "rq - dl", simplified, folded k_def]
  have k: "0 \<le> k" "k \<le> 3" using rqd krq by linarith+
  have bb: "doe div 36524 = b" by (simp add: b_def)
  have n: "doe - doe div 1460 + doe div 36524 - doe div 146096 = 365 * (100 * b + 4 * q) + (rq - dl)"
    unfolding a e bb using doe rbq by simp
  have yoe: "yoe = 100 * b + 4 * q + k"
    unfolding yoe_def n by (rule div_by [where r = "rq - dl - 365 * k"]) (use krq in auto)
  have s: "yoe div 4 = 25 * b + q" by (rule div_by [where r = k]) (use yoe k in auto)
  have t: "yoe div 100 = b" by (rule div_by [where r = "4 * q + k"]) (use yoe k q in auto)
  have doy: "doy = rq - 365 * k" unfolding doy_def s t using yoe doe rbq by simp
  have "leap (yoe + 1)" if "doy = 365"
  proof -
    have "rq = 365 * k + 365" and "dl = 1" using that doy krq dl by linarith+
    then have "k = 3" and "rq = 1460" using k b q rq by (auto simp: dl_def split: if_splits)
    then have eq: "yoe + 1 = 100 * b + 4 * (q + 1)" and "q < 24"
      using yoe rbq rb(2) q by auto
    then have h: "(100 * b + 4 * (q + 1)) mod 100 = 4 * (q + 1)"
      using mod_mult_self1 [of "4 * (q + 1)" b 100] q by (simp add: ac_simps)
    have f: "(100 * b + 4 * (q + 1)) mod 4 = 0"
      using mod_mult_self1_is_0 [of 4 "25 * b + q + 1"] by (simp add: algebra_simps)
    show ?thesis unfolding leap_def eq f h using q by simp
  qed
  then show ?thesis using yoe doy b q k krq dl by auto
qed

text \<open>The month and the day of a day of the year that starts in March.\<close>

lemma month_of_year_day:
  fixes doy :: int
  assumes "0 \<le> doy" "doy \<le> 365" "doy = 365 \<longrightarrow> lp"
  defines "mp \<equiv> (5 * doy + 2) div 153"
  defines "d \<equiv> doy - (153 * mp + 2) div 5 + 1"
  defines "m \<equiv> (if mp < 10 then mp + 3 else mp - 9)"
  shows "1 \<le> m \<and> m \<le> 12 \<and> 1 \<le> d \<and> d \<le> month_lengths lp ! nat (m - 1)
    \<and> sum_list (take (nat (m - 1)) (month_lengths lp)) + d - 1
        = (if m \<le> 2 then doy - 306 else doy + 59 + of_bool lp)"
proof -
  note mp = div_bounds [of 153 "5 * doy + 2", simplified, folded mp_def]
  then have "0 \<le> mp" "mp \<le> 11" using assms(1,2) by linarith+
  then have "mp = 0 \<or> mp = 1 \<or> mp = 2 \<or> mp = 3 \<or> mp = 4 \<or> mp = 5 \<or> mp = 6 \<or> mp = 7 \<or> mp = 8 \<or> mp = 9
      \<or> mp = 10 \<or> mp = 11" by arith
  then show ?thesis
    using mp assms(1-3) unfolding m_def d_def
    by (elim disjE; cases lp) (simp_all add: month_lengths_def)
qed

lemma div_pred: "((y :: int) - 1) div n = y div n - of_bool (y mod n = 0)" if "1 < n"
proof (rule div_by [where r = "if y mod n = 0 then n - 1 else y mod n - 1"])
  have y: "y = n * (y div n) + y mod n" by simp
  then show "y - 1 = n * (y div n - of_bool (y mod n = 0)) + (if y mod n = 0 then n - 1 else y mod n - 1)"
    by (auto simp: algebra_simps)
  have "0 \<le> y mod n" using that by simp
  then show "0 \<le> (if y mod n = 0 then n - 1 else y mod n - 1)" using that by (cases "y mod n = 0"; simp; linarith)
  have "y mod n < n" using that by simp
  then show "(if y mod n = 0 then n - 1 else y mod n - 1) < n" by auto
qed

lemma leap_days_step: "leap_days (y - 1) = leap_days y - of_bool (leap y)"
proof -
  have h: "y mod 100 = 0" if "y mod 400 = 0" using mod_mod_cancel [of 100 400 y] that by simp
  have f: "y mod 4 = 0" if "y mod 100 = 0" using mod_mod_cancel [of 4 100 y] that by simp
  have d: "(y - 1) div 4 = y div 4 - of_bool (y mod 4 = 0)"
    "(y - 1) div 100 = y div 100 - of_bool (y mod 100 = 0)"
    "(y - 1) div 400 = y div 400 - of_bool (y mod 400 = 0)"
    by (rule div_pred; simp)+
  show ?thesis
    unfolding leap_days_def d leap_def
    by (cases "y mod 400 = 0"; cases "y mod 100 = 0"; cases "y mod 4 = 0") (use h f in simp_all)
qed

lemma leap_era: "leap (y + 400 * e) \<longleftrightarrow> leap y"
  using mod_mult_self2 [of y 4 "100 * e"] mod_mult_self2 [of y 100 "4 * e"] mod_mult_self2 [of y 400 e]
  by (simp add: leap_def)

lemma leap_days_era: "leap_days (y + 400 * e) = leap_days y + 97 * e"
  using div_mult_self2 [of 4 y "100 * e"] div_mult_self2 [of 100 y "4 * e"] div_mult_self2 [of 400 y e]
  by (simp add: leap_days_def)

lemma days_to_ymd_aux:
  assumes "days_to_ymd z = (y, m, d)"
  shows "valid_date y m d \<and> days_from_civil y m d = z"
proof -
  define era where "era = (z + 719468) div 146097"
  define doe where "doe = (z + 719468) mod 146097"
  have doe: "z + 719468 - era * 146097 = doe" "0 \<le> doe" "doe < 146097"
    by (simp_all add: era_def doe_def minus_div_mult_eq_mod)
  define yoe where "yoe = (doe - doe div 1460 + doe div 36524 - doe div 146096) div 365"
  define doy where "doy = doe - (365 * yoe + yoe div 4 - yoe div 100)"
  note yo = year_of_era [OF doe(2,3), folded yoe_def, folded doy_def]
  let ?Y = "yoe + era * 400"
  let ?mp = "(5 * doy + 2) div 153"
  have m: "m = (if ?mp < 10 then ?mp + 3 else ?mp - 9)"
    and d: "d = doy - (153 * ?mp + 2) div 5 + 1"
    and y: "y = (if m \<le> 2 then ?Y + 1 else ?Y)"
    using assms unfolding days_to_ymd_def Let_def era_floor era_def [symmetric] doe(1)
      yoe_def [symmetric] doy_def [symmetric]
    by auto
  have "doy < 365" if "2 < m" using that yo m by (auto split: if_splits)
  then have lp: "doy = 365 \<longrightarrow> leap y"
    using yo leap_era [of "yoe + 1" era] y by (auto simp: algebra_simps)
  have "0 \<le> doy" "doy \<le> 365" using yo by blast+
  note month = month_of_year_day [OF this lp, folded m d]
  then have sum: "sum_list (take (nat (m - 1)) (month_lengths (leap y))) + d - 1
      = (if m \<le> 2 then doy - 306 else doy + 59 + of_bool (leap y))" by blast
  have "yoe div 4 - yoe div 100 = leap_days yoe" using yo by (simp add: leap_days_def)
  then have days: "z = 365 * ?Y + leap_days ?Y + doy - 719468"
    using doe(1) leap_days_era [of yoe era] unfolding doy_def by (simp add: algebra_simps)
  have "days_from_civil y m d = z"
  proof (cases "m \<le> 2")
    case True
    with sum y show ?thesis unfolding days_from_civil_def days by simp
  next
    case False
    with sum y leap_days_step [of ?Y] show ?thesis unfolding days_from_civil_def days by simp
  qed
  then show ?thesis using month unfolding valid_date_def by blast
qed

end
