(* ===== verification/Modbus_Timestamp.thy ===== *)
theory Modbus_Timestamp
  imports Modbus_Capture Modbus_Calendar "HOL-Library.Sublist"
begin

text \<open>
  The formatting half of \<open>src/intercept.rs\<close> and \<open>src/monitor/file_recorder.rs\<close>: ISO timestamps, hex
  dumps, the display line of a packet, the line the file recorder writes and its bounded queue.
  Strings are the bytes of their UTF-8 form.  A timestamp before the year 10000 has 26 characters
  and can be read back; the lines that reach the file are the formatted packets in order, less
  those counted as dropped.
\<close>

section \<open>Timestamps\<close>

text \<open>\<open>{:0w}\<close> of a signed integer: the sign is part of the width.\<close>

definition fmt_int :: "nat \<Rightarrow> int \<Rightarrow> string" where
  "fmt_int w i = (if i < 0 then CHR ''-'' # pad_left CHR ''0'' (w - 1) (show_nat (nat (- i)))
                  else pad_left CHR ''0'' w (show_nat (nat i)))"

definition format_timestamp :: "u64 \<Rightarrow> string" where
  "format_timestamp ts =
     (let secs = int (unat ts) div 1000000;
          us = int (unat ts) mod 1000000;
          days = secs div 86400;
          time_of_day = secs mod 86400;
          hour = time_of_day div 3600;
          min = time_of_day mod 3600 div 60;
          sec = time_of_day mod 60;
          (y, m, d) = days_to_ymd days
      in fmt_int 4 y @ ''-'' @ fmt_int 2 m @ ''-'' @ fmt_int 2 d @ ''T'' @ fmt_int 2 hour @ '':'' @
         fmt_int 2 min @ '':'' @ fmt_int 2 sec @ ''.'' @ fmt_int 6 us)"

section \<open>Packet lines\<close>

text \<open>\<open>write_hex\<close> and \<open>hex_str\<close>: the bytes in hex, a blank between two.\<close>

definition hex_str :: "bytes \<Rightarrow> string" where
  "hex_str bs = concat (map (\<lambda>(i, b). (if i > 0 then '' '' else []) @ hex2 b) (List.enumerate 0 bs))"

definition write_hex :: "bytes \<Rightarrow> string" where
  "write_hex bs = ''['' @ hex_str bs @ '']''"

definition em_dash :: string where
  "em_dash = [CHR 0xE2, CHR 0x80, CHR 0x94]"

text \<open>\<open>{:>3}B\<close> of a length.\<close>

definition size_column :: "bytes \<Rightarrow> string" where
  "size_column bs = pad_left CHR '' '' 3 (show_nat (length bs)) @ ''B''"

definition packet_display :: "PacketRecord \<Rightarrow> string" where
  "packet_display r =
     (let ts = format_timestamp (timestamp_us r)
      in case packet_data r of
           RawTx bs \<Rightarrow> ''[TX] '' @ ts @ ''  '' @ size_column bs @ ''  '' @ write_hex bs
         | RawRx bs \<Rightarrow> ''[RX] '' @ ts @ ''  '' @ size_column bs @ ''  '' @ write_hex bs
         | RawError bs err \<Rightarrow>
             ''[ERR] '' @ ts @ ''  '' @ size_column bs @ ''  '' @ write_hex bs @ ''  '' @ em_dash @ '' '' @ err)"

definition format_detail :: "PacketRecord \<Rightarrow> string \<times> string" where
  "format_detail r =
     (case packet_data r of
        RawTx b \<Rightarrow> (''TX'', size_column b @ ''  ['' @ hex_str b @ '']'')
      | RawRx b \<Rightarrow> (''RX'', size_column b @ ''  ['' @ hex_str b @ '']'')
      | RawError b e \<Rightarrow> (''ERR'', size_column b @ ''  ['' @ hex_str b @ '']  '' @ em_dash @ '' '' @ e))"

definition format_record :: "PacketRecord \<Rightarrow> string" where
  "format_record r =
     (let ts = format_timestamp (timestamp_us r); (dir, detail) = format_detail r
      in ts @ ''  '' @ dir @ ''  '' @ detail)"

section \<open>File recorder\<close>

text \<open>
  The bounded channel of the standard library is its queue of lines; \<open>fr_io\<close> tells whether the
  writing thread still holds the receiving end.  \<open>file_io\<close> is one turn of that thread, with the
  outcome of its write; \<open>fr_written\<close> are the lines the writer took.
\<close>

record FileRecorder =
  fr_queue :: "string list"
  fr_io :: bool
  fr_dropped :: u64
  fr_written :: "string list"

definition FILE_CHANNEL :: nat where
  "FILE_CHANNEL = 4096"

definition file_new :: FileRecorder where
  "file_new = \<lparr> fr_queue = [], fr_io = True, fr_dropped = 0, fr_written = [] \<rparr>"

definition file_on_packet :: "PacketRecord \<Rightarrow> FileRecorder \<Rightarrow> FileRecorder" where
  "file_on_packet r f =
     (let line = format_record r
      in if fr_io f \<and> length (fr_queue f) < FILE_CHANNEL then f \<lparr> fr_queue := fr_queue f @ [line] \<rparr>
         else f \<lparr> fr_dropped := fr_dropped f + 1 \<rparr>)"

definition file_io :: "bool \<Rightarrow> FileRecorder \<Rightarrow> FileRecorder" where
  "file_io ok f =
     (case fr_queue f of
        [] \<Rightarrow> f
      | line # rest \<Rightarrow>
          (if \<not> fr_io f then f
           else if ok then f \<lparr> fr_queue := rest, fr_written := fr_written f @ [line] \<rparr>
           else f \<lparr> fr_queue := [], fr_io := False \<rparr>))"

datatype file_event = Packet PacketRecord | Write bool

fun file_step :: "file_event \<Rightarrow> FileRecorder \<Rightarrow> FileRecorder" where
  "file_step (Packet r) f = file_on_packet r f"
| "file_step (Write ok) f = file_io ok f"

section \<open>Reading a number back\<close>

definition digit_value :: "char \<Rightarrow> nat" where
  "digit_value c = of_char c - 48"

definition read_nat :: "string \<Rightarrow> nat" where
  "read_nat s = foldl (\<lambda>n c. 10 * n + digit_value c) 0 s"

lemma digit_value_char: "d < 10 \<Longrightarrow> digit_value (digit_char d) = d"
  by (simp add: digit_value_def digit_char_def)

lemma read_nat_snoc: "read_nat (s @ [c]) = 10 * read_nat s + digit_value c"
  by (simp add: read_nat_def)

lemma read_show_nat: "read_nat (show_nat n) = n"
proof (induction n rule: show_nat.induct)
  case (1 n)
  show ?case
  proof (cases "n < 10")
    case True
    then show ?thesis by (simp add: show_nat.simps [of n] read_nat_def digit_value_char)
  next
    case False
    then show ?thesis
      using 1 by (simp add: show_nat.simps [of n] read_nat_snoc digit_value_char)
  qed
qed

lemma read_pad_left [simp]: "read_nat (pad_left CHR ''0'' w (show_nat n)) = n"
proof -
  have zeros: "foldl (\<lambda>n c. 10 * n + digit_value c) 0 (replicate k CHR ''0'') = 0" for k
    by (induction k) (simp_all add: digit_value_def)
  show ?thesis using read_show_nat [of n] by (simp add: pad_left_def read_nat_def zeros)
qed

lemma length_show_nat: "n < 10 ^ Suc k \<Longrightarrow> length (show_nat n) \<le> Suc k"
proof (induction k arbitrary: n)
  case 0
  then show ?case by (simp add: show_nat.simps [of n])
next
  case (Suc k)
  then have "n div 10 < 10 ^ Suc k" by (simp add: less_mult_imp_div_less mult.commute)
  then have "length (show_nat (n div 10)) \<le> Suc k" by (rule Suc.IH)
  then show ?case by (simp add: show_nat.simps [of n])
qed

lemma length_fmt_int:
  assumes "0 \<le> i" "i < 10 ^ w" "0 < w"
  shows "length (fmt_int w i) = w"
proof -
  obtain k where w: "w = Suc k" using assms(3) by (cases w) auto
  have "nat i < 10 ^ Suc k" using assms w by (simp add: nat_less_iff)
  from length_show_nat [OF this] show ?thesis using assms(1) w by (simp add: fmt_int_def)
qed

lemma read_fmt_int: "0 \<le> i \<Longrightarrow> int (read_nat (fmt_int w i)) = i"
  by (simp add: fmt_int_def)

section \<open>Timestamps read back\<close>

definition field :: "nat \<Rightarrow> nat \<Rightarrow> string \<Rightarrow> int" where
  "field pos w s = int (read_nat (take w (drop pos s)))"

definition parse_timestamp :: "string \<Rightarrow> int" where
  "parse_timestamp s =
     ((days_from_civil (field 0 4 s) (field 5 2 s) (field 8 2 s) * 86400
       + field 11 2 s * 3600 + field 14 2 s * 60 + field 17 2 s) * 1000000 + field 20 6 s)"

lemma leap_days_bounds: "97 * y - 699 \<le> 400 * leap_days y" "400 * leap_days y \<le> 97 * y + 396"
proof -
  define a b c where "a = y div 4" and "b = y div 100" and "c = y div 400"
  have "4 * a \<le> y" "y < 4 * a + 4" "100 * b \<le> y" "y < 100 * b + 100" "400 * c \<le> y" "y < 400 * c + 400"
    unfolding a_def b_def c_def by (rule div_bounds; simp)+
  then show "97 * y - 699 \<le> 400 * leap_days y" "400 * leap_days y \<le> 97 * y + 396"
    unfolding leap_days_def a_def [symmetric] b_def [symmetric] c_def [symmetric] by (simp_all add: algebra_simps)
qed

lemma month_sum:
  assumes "1 \<le> m" "m \<le> 12"
  shows "0 \<le> sum_list (take (nat (m - 1)) (month_lengths lp))"
    and "sum_list (take (nat (m - 1)) (month_lengths lp)) \<le> 335"
    and "month_lengths lp ! nat (m - 1) \<le> 31"
proof -
  have "m = 1 \<or> m = 2 \<or> m = 3 \<or> m = 4 \<or> m = 5 \<or> m = 6 \<or> m = 7 \<or> m = 8 \<or> m = 9 \<or> m = 10 \<or> m = 11 \<or> m = 12"
    using assms by arith
  then show "0 \<le> sum_list (take (nat (m - 1)) (month_lengths lp))"
    and "sum_list (take (nat (m - 1)) (month_lengths lp)) \<le> 335"
    and "month_lengths lp ! nat (m - 1) \<le> 31"
    by (elim disjE; simp add: month_lengths_def)+
qed

lemma date_ranges:
  assumes "days_to_ymd z = (y, m, d)" "0 \<le> z" "z < 2932897"
  shows "0 \<le> y \<and> y < 10000 \<and> 1 \<le> m \<and> m \<le> 12 \<and> 1 \<le> d \<and> d \<le> 31"
proof -
  from days_to_ymd_aux [OF assms(1)] have v: "valid_date y m d" and z: "days_from_civil y m d = z" by auto
  then have md: "1 \<le> m" "m \<le> 12" "1 \<le> d" "d \<le> 31"
    using month_sum(3) [of m "leap y"] by (auto simp: valid_date_def)
  define s where "s = sum_list (take (nat (m - 1)) (month_lengths (leap y)))"
  have sum: "0 \<le> s" "s \<le> 335" unfolding s_def by (rule month_sum [OF md(1,2)])+
  have "0 \<le> y"
    using z assms(2) md sum(2) leap_days_bounds(2) [of "y - 1"]
    unfolding days_from_civil_def s_def [symmetric] by (simp add: algebra_simps)
  moreover have "y < 10000"
    using z assms(3) md sum(1) leap_days_bounds(1) [of "y - 1"]
    unfolding days_from_civil_def s_def [symmetric] by (simp add: algebra_simps)
  ultimately show ?thesis using md by blast
qed

lemma format_timestamp_parts:
  assumes "unat ts < 253402300800000000"
  obtains y m d where "days_to_ymd (int (unat ts) div 1000000 div 86400) = (y, m, d)"
    and "days_from_civil y m d = int (unat ts) div 1000000 div 86400"
    and "length (fmt_int 4 y) = 4" "length (fmt_int 2 m) = 2" "length (fmt_int 2 d) = 2"
    and "0 \<le> y" "0 \<le> m" "0 \<le> d"
proof -
  obtain y m d where ymd: "days_to_ymd (int (unat ts) div 1000000 div 86400) = (y, m, d)"
    by (metis prod_cases3)
  define n where "n = int (unat ts)"
  have "0 \<le> n" "n < 253402300800000000" using assms unfolding n_def by linarith+
  then have "n div 1000000 div 86400 < 2932897" "0 \<le> n div 1000000 div 86400"
    using div_bounds(1) [of 86400 "n div 1000000", OF zero_less_numeral]
      div_bounds(1) [of 1000000 n, OF zero_less_numeral]
    by (linarith, simp add: pos_imp_zdiv_nonneg_iff)
  from date_ranges [OF ymd, folded n_def, OF this(2,1)]
  have r: "0 \<le> y \<and> y < 10000 \<and> 1 \<le> m \<and> m \<le> 12 \<and> 1 \<le> d \<and> d \<le> 31" .
  show thesis
    by (rule that [OF ymd conjunct2 [OF days_to_ymd_aux [OF ymd]]]) (use r in \<open>auto intro!: length_fmt_int\<close>)
qed

lemma format_timestamp_aux:
  assumes "unat ts < 253402300800000000"
  shows "length (format_timestamp ts) = 26 \<and> parse_timestamp (format_timestamp ts) = int (unat ts)"
proof -
  define s where "s = int (unat ts) div 1000000"
  define us where "us = int (unat ts) mod 1000000"
  obtain y m d where ymd: "days_to_ymd (s div 86400) = (y, m, d)" "days_from_civil y m d = s div 86400"
    and len: "length (fmt_int 4 y) = 4" "length (fmt_int 2 m) = 2" "length (fmt_int 2 d) = 2"
    and pos: "0 \<le> y" "0 \<le> m" "0 \<le> d"
    using format_timestamp_parts [OF assms] unfolding s_def by blast
  define tod where "tod = s mod 86400"
  have tod: "0 \<le> tod" "tod < 86400" and us: "0 \<le> us" "us < 10 ^ 6" by (simp_all add: tod_def us_def)
  have h: "0 \<le> tod div 3600" "tod div 3600 < 10 ^ 2" using tod by (simp_all add: div_less_iff_less_mult)
  have mi: "0 \<le> tod mod 3600 div 60" "tod mod 3600 div 60 < 10 ^ 2"
    using pos_mod_bound [of 3600 tod] by (simp_all add: div_less_iff_less_mult pos_imp_zdiv_nonneg_iff)
  have sec: "0 \<le> tod mod 60" "tod mod 60 < 10 ^ 2" using pos_mod_bound [of 60 tod] by simp_all
  have lens: "length (fmt_int 2 (tod div 3600)) = 2" "length (fmt_int 2 (tod mod 3600 div 60)) = 2"
    "length (fmt_int 2 (tod mod 60)) = 2" "length (fmt_int 6 us) = 6"
    by (rule length_fmt_int [OF h] length_fmt_int [OF mi] length_fmt_int [OF sec] length_fmt_int [OF us]; simp)+
  have fmt: "format_timestamp ts = fmt_int 4 y @ ''-'' @ fmt_int 2 m @ ''-'' @ fmt_int 2 d @ ''T'' @
      fmt_int 2 (tod div 3600) @ '':'' @ fmt_int 2 (tod mod 3600 div 60) @ '':'' @ fmt_int 2 (tod mod 60) @ ''.'' @ fmt_int 6 us"
    unfolding format_timestamp_def Let_def s_def [symmetric] us_def [symmetric] ymd tod_def [symmetric] by simp
  have sixty: "tod mod 3600 mod 60 = tod mod 60" using mod_mod_cancel [of 60 3600 tod] by simp
  have "tod mod 3600 div 60 * 60 + tod mod 60 = tod mod 3600"
    using div_mult_mod_eq [of "tod mod 3600" 60] by (simp only: sixty)
  then have parts: "tod div 3600 * 3600 + tod mod 3600 div 60 * 60 + tod mod 60 = tod"
    by (simp only: add.assoc div_mult_mod_eq)
  have whole: "s div 86400 * 86400 + tod = s" "s * 1000000 + us = int (unat ts)"
    unfolding tod_def s_def us_def by (rule div_mult_mod_eq)+
  have total: "(s div 86400 * 86400 + tod div 3600 * 3600 + tod mod 3600 div 60 * 60 + tod mod 60) * 1000000 + us
      = int (unat ts)"
    using whole by (simp only: add.assoc parts [unfolded add.assoc])
  have "parse_timestamp (format_timestamp ts)
      = (days_from_civil y m d * 86400 + tod div 3600 * 3600 + tod mod 3600 div 60 * 60 + tod mod 60) * 1000000 + us"
    unfolding parse_timestamp_def field_def fmt
    by (simp add: len lens read_fmt_int [OF h(1)] read_fmt_int [OF mi(1)] read_fmt_int [OF sec(1)]
        read_fmt_int [OF us(1)] read_fmt_int [OF pos(1)] read_fmt_int [OF pos(2)] read_fmt_int [OF pos(3)])
  with total show ?thesis unfolding ymd(2) by (simp add: fmt len lens)
qed

section \<open>What the file recorder loses\<close>

definition file_wf :: "FileRecorder \<Rightarrow> bool" where
  "file_wf f \<longleftrightarrow> length (fr_queue f) \<le> FILE_CHANNEL \<and> (\<not> fr_io f \<longrightarrow> fr_queue f = [])"

fun packets_of :: "file_event list \<Rightarrow> PacketRecord list" where
  "packets_of [] = []"
| "packets_of (Packet r # steps) = r # packets_of steps"
| "packets_of (Write ok # steps) = packets_of steps"

lemma file_step_wf: "file_wf f \<Longrightarrow> file_wf (file_step st f)"
  by (cases st) (auto simp: file_wf_def file_on_packet_def file_io_def Let_def split: list.splits)

lemma file_recorder_aux:
  "subseq (fr_written (fold file_step steps f) @ fr_queue (fold file_step steps f))
     (fr_written f @ fr_queue f @ map format_record (packets_of steps))"
proof (induction steps arbitrary: f rule: packets_of.induct)
  case (2 r steps)
  show ?case
  proof (cases "fr_io f \<and> length (fr_queue f) < FILE_CHANNEL")
    case True
    then show ?thesis using "2.IH" [of "file_on_packet r f"] by (simp add: file_on_packet_def)
  next
    case False
    have "subseq (fr_written f @ fr_queue f @ map format_record (packets_of steps))
        (fr_written f @ fr_queue f @ map format_record (packets_of (Packet r # steps)))"
      by (intro list_emb_append_mono) (auto intro: list_emb_Cons)
    then show ?thesis
      using "2.IH" [of "file_on_packet r f"] False
      by (auto simp: file_on_packet_def Let_def intro: subseq_order.order_trans)
  qed
next
  case (3 ok steps)
  have "subseq (fr_written (file_io ok f) @ fr_queue (file_io ok f)) (fr_written f @ fr_queue f)"
    by (auto simp: file_io_def split: list.splits)
  then have "subseq ((fr_written (file_io ok f) @ fr_queue (file_io ok f)) @ map format_record (packets_of steps))
      ((fr_written f @ fr_queue f) @ map format_record (packets_of steps))"
    by (rule list_emb_append_mono) simp
  with "3.IH" [of "file_io ok f"] show ?case by (auto intro: subseq_order.order_trans)
qed simp

text \<open>While the file can be written every packet is queued, written or counted.\<close>

lemma file_counts_aux:
  assumes "file_wf f" "fr_io f" "Write False \<notin> set steps"
  shows "of_nat (length (fr_written (fold file_step steps f)) + length (fr_queue (fold file_step steps f)))
           + fr_dropped (fold file_step steps f)
         = of_nat (length (fr_written f) + length (fr_queue f) + length (packets_of steps)) + fr_dropped f"
  using assms
proof (induction steps arbitrary: f)
  case (Cons st steps)
  have wf: "file_wf (file_step st f)" using Cons.prems(1) by (rule file_step_wf)
  have io: "fr_io (file_step st f)"
    using Cons.prems by (cases st) (auto simp: file_on_packet_def file_io_def Let_def split: list.splits)
  have "of_nat (length (fr_written (file_step st f)) + length (fr_queue (file_step st f))) + fr_dropped (file_step st f)
      = of_nat (length (fr_written f) + length (fr_queue f) + length (packets_of [st])) + fr_dropped f"
    using Cons.prems by (cases st) (auto simp: file_on_packet_def file_io_def Let_def split: list.splits)
  moreover have "length (packets_of (st # steps)) = length (packets_of [st]) + length (packets_of steps)"
    by (cases st) simp_all
  ultimately show ?case using Cons.IH [OF wf io] Cons.prems(3) by (simp add: algebra_simps)
qed simp

end
