(* ===== verification/Modbus_Monitor.thy ===== *)
theory Modbus_Monitor
  imports Modbus_Programs Modbus_Proxy Modbus_Timestamp
begin

text \<open>
  Programs with a tap.  The traffic of \<open>examples/bus_monitor.rs\<close>, put on the wire by a TCP client,
  seen by the proxy, recorded by a bus capture and analysed by the example; the byte counter of
  \<open>examples/custom_tap.rs\<close> behind the proxy; the dumps that \<open>examples/tcp_client.rs\<close>,
  \<open>file_recorder.rs\<close> and \<open>generic_transport.rs\<close> make of their records.  The program fixes what is
  written, a run of the proxy fixes what the tap has seen of it at some moment.
\<close>

section \<open>Packet analysis\<close>

definition tx_count :: "PacketRecord list \<Rightarrow> nat" where
  "tx_count packets = length (filter (\<lambda>p. case packet_data p of RawTx _ \<Rightarrow> True | _ \<Rightarrow> False) packets)"

definition rx_count :: "PacketRecord list \<Rightarrow> nat" where
  "rx_count packets = length (filter (\<lambda>p. case packet_data p of RawRx _ \<Rightarrow> True | _ \<Rightarrow> False) packets)"

definition err_count :: "PacketRecord list \<Rightarrow> nat" where
  "err_count packets = length (filter (\<lambda>p. case packet_data p of RawError _ _ \<Rightarrow> True | _ \<Rightarrow> False) packets)"

definition packet_prefix :: "PacketRecord \<Rightarrow> string" where
  "packet_prefix p = (case packet_data p of RawTx _ \<Rightarrow> ''[TX]'' | RawRx _ \<Rightarrow> ''[RX]'' | RawError _ _ \<Rightarrow> ''[ERR]'')"

record monitor_report =
  mr_requests :: u64
  mr_responses :: u64
  mr_errors :: u64
  mr_dropped :: u64
  mr_tx :: nat
  mr_rx :: nat
  mr_err :: nat
  mr_dump :: "string list"

definition bus_monitor_report :: "BusCapture \<Rightarrow> monitor_report" where
  "bus_monitor_report cap =
     (let (packets, _) = bus_drain cap
      in \<lparr> mr_requests = bc_requests cap, mr_responses = bc_responses cap, mr_errors = bc_errors cap,
           mr_dropped = bc_dropped cap,
           mr_tx = tx_count packets, mr_rx = rx_count packets, mr_err = err_count packets,
           mr_dump = map (\<lambda>p. ''  '' @ packet_display p @ ''  '' @ packet_prefix p) packets \<rparr>)"

lemma counts_of_records:
  "tx_count rs = length (sent_records rs)" "rx_count rs = length (received_records rs)"
  by (induction rs) (auto simp: tx_count_def rx_count_def split: PacketData.splits)

lemma counts_cover: "tx_count rs + rx_count rs + err_count rs = length rs"
  by (induction rs) (auto simp: tx_count_def rx_count_def err_count_def split: PacketData.splits)

lemma err_count_events: "\<forall>ev \<in> set seen. \<not> is_error ev \<Longrightarrow> err_count (map event_packet seen) = 0"
proof (induction seen)
  case (Cons ev seen)
  then show ?case by (cases ev) (simp_all add: err_count_def packet_def)
qed (simp add: err_count_def)

lemma bus_dropped_unbounded: "bc_dropped (fold bus_tap seen bus_unbounded) = 0"
proof -
  have "bus_room c = None \<Longrightarrow> bc_dropped (bus_tap ev c) = bc_dropped c \<and> bus_room (bus_tap ev c) = None" for ev c
    by (cases ev) (auto simp: bus_record_def bus_room_def Let_def split: Store.splits)
  then have "bus_room c = None \<Longrightarrow> bc_dropped (fold bus_tap seen c) = bc_dropped c" for c
    by (induction seen arbitrary: c) simp_all
  then show ?thesis by (simp add: bus_unbounded_def bus_room_def)
qed

text \<open>The report on an unbounded capture behind the proxy.\<close>

lemma report_of_run:
  assumes "sniffs bus_tap data_cap tap_cap bus_unbounded p arrived delivered written"
  defines "rp \<equiv> bus_monitor_report (tap_state p)"
  shows "mr_tx rp = length written" "mr_requests rp = of_nat (length written)" "mr_responses rp = of_nat (mr_rx rp)"
    "mr_errors rp = 0" "mr_err rp = 0" "mr_dropped rp = 0" "length (mr_dump rp) = mr_tx rp + mr_rx rp"
    "sent_records (bus_snapshot (tap_state p)) = written"
proof -
  obtain seen where seen: "tapped bus_tap bus_unbounded seen p arrived written"
    using sniffs_tapped [OF assms(1)] by blast
  let ?rs = "bus_snapshot (tap_state p)"
  from seen have tap: "tap_state p = fold bus_tap seen bus_unbounded" and written: "writes_seen seen = written"
    and ok: "\<forall>ev \<in> set seen. \<not> is_error ev" by (simp_all add: tapped_def)
  have rs: "?rs = map event_packet seen" unfolding tap by (rule recorders_all)
  have sent: "sent_records ?rs = writes_seen seen" "received_records ?rs = reads_seen seen"
    unfolding rs by (rule records_of_events)+
  then show "sent_records ?rs = written" by (simp only: written)
  have "fst (bus_drain (tap_state p)) = ?rs" by (rule bus_drain_takes)
  then have rp: "mr_tx rp = tx_count ?rs" "mr_rx rp = rx_count ?rs" "mr_err rp = err_count ?rs" "length (mr_dump rp) = length ?rs"
    "mr_requests rp = bc_requests (tap_state p)" "mr_responses rp = bc_responses (tap_state p)"
    "mr_errors rp = bc_errors (tap_state p)" "mr_dropped rp = bc_dropped (tap_state p)"
    by (simp_all add: rp_def bus_monitor_report_def split_def)
  have counts: "tx_count ?rs = length written" "rx_count ?rs = length (reads_seen seen)" "err_count ?rs = 0"
    by (simp_all only: counts_of_records sent written) (simp only: rs err_count_events [OF ok])
  show "mr_tx rp = length written" "mr_err rp = 0" by (simp_all only: rp counts)
  show "mr_requests rp = of_nat (length written)" "mr_responses rp = of_nat (mr_rx rp)" "mr_errors rp = 0"
    using seen_counts [OF ok, folded tap, unfolded written] by (simp_all only: rp counts)
  show "mr_dropped rp = 0" by (simp only: rp tap bus_dropped_unbounded)
  show "length (mr_dump rp) = mr_tx rp + mr_rx rp"
    using counts_cover [of ?rs] counts(3) by (simp only: rp)
qed

text \<open>Some run of the proxy writes any given frames, before anything has arrived.\<close>

lemma writes_run:
  "\<forall>w \<in> set ws. w \<noteq> [] \<Longrightarrow> \<exists>p. sniffs tap data_cap tap_cap t p [] [] ws"
proof (induction ws rule: rev_induct)
  case Nil
  have "sniffs tap data_cap tap_cap t (proxy_start data_cap tap_cap t) [] [] []" by (rule sniffs.start)
  then show ?case ..
next
  case (snoc w ws)
  then obtain p where run: "sniffs tap data_cap tap_cap t p [] [] ws" by auto
  have "0 < length w" using snoc.prems by simp
  from sniffs.accept [OF run this order_refl, of 1]
  have "sniffs tap data_cap tap_cap t (tap_write tap 1 w p) [] [] (ws @ [w])" by simp
  then show ?case ..
qed

section \<open>The bus monitor over TCP\<close>

text \<open>What the program asks, in order.\<close>

definition bus_monitor_requests :: "(u8 \<times> Request) list" where
  "bus_monitor_requests =
     [(1, Request.ReadHoldingRegisters 0 3), (1, Request.ReadCoils 0 4), (1, Request.ReadDiscreteInputs 0 2),
      (1, Request.ReadInputRegisters 0 1), (1, Request.WriteSingleRegister 0 7777),
      (1, Request.WriteMultipleRegisters 10 [111, 222, 333]), (1, Request.WriteSingleCoil 0 False),
      (247, Request.ReadHoldingRegisters 0 1), (1, Request.ReadHoldingRegisters 60000 1)]"

text \<open>A transport that notes what it is asked runs a program as the transport does.\<close>

lemma bus_monitor_noted:
  "fst (bus_monitor_main (noting memory_transport) (abs_store bus_monitor_store, [])) = Inr bus_monitor_output"
  "snd (snd (bus_monitor_main (noting memory_transport) (abs_store bus_monitor_store, []))) = bus_monitor_requests"
  by (simp_all add: bus_monitor_main_def bus_monitor_output_def bus_monitor_requests_def bus_monitor_store_memory(2)
      memory_run noting_def)

lemma sim_session_everywhere:
  assumes "tcp_delivers config timeout pieces" "askable slave req" "slave \<notin> {15, 16, 22, 23}"
  shows "simulates (session_inv config) (tcp_session config store_service timeout pieces slave req) (noting memory_transport slave req)"
proof -
  have "tcp_readable config slave req"
    using not_shadowed_request [of req slave] assms(2,3) by (simp add: tcp_readable_def askable_def)
  with assms show ?thesis by (intro sim_session_memory)
qed

lemma session_run:
  assumes "simulates (session_inv config) p q" "store_bounded s"
  shows "fst (p (s, 1, [])) = fst (q (abs_store s, [])) \<and> snd (snd (snd (p (s, 1, [])))) = wire_of config (snd (snd (q (abs_store s, []))))"
  using simulatesD [OF assms(1), of "(s, 1, [])" "(abs_store s, [])"] assms(2) by simp

lemma bus_monitor_session:
  assumes "tcp_delivers config timeout pieces"
  defines "out \<equiv> bus_monitor_main (tcp_session config store_service timeout pieces) (bus_monitor_store, 1, [])"
  shows "fst out = Inr bus_monitor_output" "snd (snd (snd out)) = wire_of config bus_monitor_requests"
proof -
  have "simulates (session_inv config) (bus_monitor_main (tcp_session config store_service timeout pieces))
      (bus_monitor_main (noting memory_transport))"
    unfolding bus_monitor_main_def by (intro sim sim_session_everywhere [OF assms(1)]) (auto simp: range_ok_def)
  from session_run [OF this bus_monitor_store_memory(1)]
  show "fst out = Inr bus_monitor_output" "snd (snd (snd out)) = wire_of config bus_monitor_requests"
    by (simp_all add: out_def bus_monitor_noted)
qed

lemma wire_of_nonempty: "w \<in> set (wire_of config asked) \<Longrightarrow> w \<noteq> []"
  by (auto simp: wire_of_def encode_tcp_mbap mbap_def)

section \<open>The byte counter of \<open>examples/custom_tap.rs\<close>\<close>

text \<open>The traffic of the example before the read that it expects to fail.\<close>

definition custom_tap_traffic :: "'s transport \<Rightarrow> ('s, unit) program" where
  "custom_tap_traffic call =
     await (client_read_holding_registers call 1 0 1) (\<lambda>_.
     await (client_write_single_register call 1 0 42) (\<lambda>_. finish ()))"

definition custom_tap_store :: SlaveStore where
  "custom_tap_store = with_holding_registers [(0, 100)]"

lemma byte_counter_counts:
  "tx_bytes (fold byte_counter_tap seen byte_counter_new) = of_nat (length (concat (writes_seen seen)))"
  "rx_bytes (fold byte_counter_tap seen byte_counter_new) = of_nat (length (concat (reads_seen seen)))"
  "\<forall>ev \<in> set seen. \<not> is_error ev \<Longrightarrow> error_count (fold byte_counter_tap seen byte_counter_new) = 0"
proof -
  have "tx_bytes (byte_counter_tap ev c) = tx_bytes c + of_nat (length (concat (written_of ev)))"
    "rx_bytes (byte_counter_tap ev c) = rx_bytes c + of_nat (length (concat (read_of ev)))"
    "\<not> is_error ev \<Longrightarrow> error_count (byte_counter_tap ev c) = error_count c" for ev c
    by (cases ev; simp)+
  then have "tx_bytes (fold byte_counter_tap seen c) = tx_bytes c + of_nat (length (concat (writes_seen seen)))"
    "rx_bytes (fold byte_counter_tap seen c) = rx_bytes c + of_nat (length (concat (reads_seen seen)))"
    "\<forall>ev \<in> set seen. \<not> is_error ev \<Longrightarrow> error_count (fold byte_counter_tap seen c) = error_count c" for c
    by (induction seen arbitrary: c) simp_all
  then show "tx_bytes (fold byte_counter_tap seen byte_counter_new) = of_nat (length (concat (writes_seen seen)))"
    "rx_bytes (fold byte_counter_tap seen byte_counter_new) = of_nat (length (concat (reads_seen seen)))"
    "\<forall>ev \<in> set seen. \<not> is_error ev \<Longrightarrow> error_count (fold byte_counter_tap seen byte_counter_new) = 0"
    by (simp_all add: byte_counter_new_def)
qed

text \<open>
  The counter behind the proxy: all bytes written, the bytes read less those that wait or were
  dropped, and never an error, whatever the line does.
\<close>

lemma byte_counter_run:
  assumes "sniffs byte_counter_tap data_cap tap_cap byte_counter_new p arrived delivered written"
  shows "tx_bytes (tap_state p) = of_nat (length (concat written))" "error_count (tap_state p) = 0"
    "rx_bytes (tap_state p) + of_nat (length (concat (queue (tap_channel p))) + dropped_bytes (tap_channel p)) = of_nat (length arrived)"
proof -
  obtain seen where seen: "tapped byte_counter_tap byte_counter_new seen p arrived written"
    using sniffs_tapped [OF assms] by blast
  then have tap: "tap_state p = fold byte_counter_tap seen byte_counter_new" and written: "writes_seen seen = written"
    and ok: "\<forall>ev \<in> set seen. \<not> is_error ev"
    and arrived: "length arrived = length (concat (reads_seen seen)) + length (concat (queue (tap_channel p))) + dropped_bytes (tap_channel p)"
    by (simp_all add: tapped_def)
  show "tx_bytes (tap_state p) = of_nat (length (concat written))" "error_count (tap_state p) = 0"
    unfolding tap byte_counter_counts(1) written byte_counter_counts(3) [OF ok] by (rule refl)+
  show "rx_bytes (tap_state p) + of_nat (length (concat (queue (tap_channel p))) + dropped_bytes (tap_channel p)) = of_nat (length arrived)"
    unfolding tap byte_counter_counts(2) arrived by simp
qed

lemma custom_tap_everywhere:
  assumes "link_of store_service timeout pieces link"
  shows "fst (custom_tap_traffic link custom_tap_store) = Inr ()"
    and "fst (client_read_holding_registers link 247 0 1 (snd (custom_tap_traffic link custom_tap_store))) = Inr [42]"
proof -
  note step = sim_everywhere [OF assms]
  have traffic: "simulates store_memory (custom_tap_traffic link) (custom_tap_traffic memory_transport)"
    unfolding custom_tap_traffic_def by (intro sim step) (auto simp: range_ok_def)
  have bounded: "store_bounded custom_tap_store"
    unfolding custom_tap_store_def by (rule with_holding_registers_memory(2))
  note run = store_run [OF traffic bounded]
  have m: "custom_tap_traffic memory_transport m = (Inr (), m \<lparr> holding := (holding m)(0 := 42) \<rparr>)" for m
    by (simp add: custom_tap_traffic_def memory_run)
  from run show "fst (custom_tap_traffic link custom_tap_store) = Inr ()" by (simp add: m)
  have "simulates store_memory (client_read_holding_registers link 247 0 1) (client_read_holding_registers memory_transport 247 0 1)"
    by (intro sim_methods step) (auto simp: range_ok_def)
  from simulatesD [OF this, of "snd (custom_tap_traffic link custom_tap_store)" "snd (custom_tap_traffic memory_transport (abs_store custom_tap_store))"] run
  show "fst (client_read_holding_registers link 247 0 1 (snd (custom_tap_traffic link custom_tap_store))) = Inr [42]"
    by (simp add: m read_one_memory)
qed

text \<open>The number of bytes the example prints as transmitted, in the standard framing.\<close>

lemma custom_tap_bytes:
  assumes "tcp_delivers config_standard timeout pieces"
    and "snd (snd (snd (custom_tap_traffic (tcp_session config_standard store_service timeout pieces) (custom_tap_store, 1, [])))) = wire"
    and "sniffs byte_counter_tap data_cap tap_cap byte_counter_new p arrived delivered wire"
  shows "tx_bytes (tap_state p) = 24"
proof -
  have traffic: "simulates (session_inv config_standard) (custom_tap_traffic (tcp_session config_standard store_service timeout pieces))
      (custom_tap_traffic (noting memory_transport))"
    unfolding custom_tap_traffic_def by (intro sim sim_session_everywhere [OF assms(1)]) (auto simp: range_ok_def)
  have bounded: "store_bounded custom_tap_store"
    unfolding custom_tap_store_def by (rule with_holding_registers_memory(2))
  have run: "wire = wire_of config_standard (snd (snd (custom_tap_traffic (noting memory_transport) (abs_store custom_tap_store, []))))"
    unfolding assms(2) [symmetric] by (rule session_run [OF traffic bounded, THEN conjunct2])
  have "snd (snd (custom_tap_traffic (noting memory_transport) (m, []))) =
      [(1, Request.ReadHoldingRegisters 0 1), (1, Request.WriteSingleRegister 0 42)]" for m
    by (simp add: custom_tap_traffic_def memory_run noting_def)
  with run have "length (concat wire) = 24"
    by (simp add: wire_of_def config_standard_shape encode_tcp_mbap mbap_def)
  with byte_counter_run(1) [OF assms(3)] show ?thesis by simp
qed

section \<open>Dumps of records\<close>

text \<open>
  \<open>examples/tcp_client.rs\<close>: the counters and the records at the end; \<open>generic_transport.rs\<close> prints
  the records alone.
\<close>

definition capture_summary :: "BusCapture \<Rightarrow> string list" where
  "capture_summary cap =
     (let counters = ''Requests: '' @ show_nat (unat (bc_requests cap)) @ ''  Responses: '' @ show_nat (unat (bc_responses cap))
            @ ''  Errors: '' @ show_nat (unat (bc_errors cap)) @ ''  Dropped: '' @ show_nat (unat (bc_dropped cap));
          (packets, cap) = bus_drain cap
      in counters # map (\<lambda>pkt. ''  '' @ packet_display pkt) packets)"

definition ascii_dump :: "BusCapture \<Rightarrow> string list" where
  "ascii_dump cap = map (\<lambda>pkt. ''     '' @ packet_display pkt) (fst (bus_drain cap))"

text \<open>
  \<open>examples/file_recorder.rs\<close>: the ring buffer as lines of a file.  The time in milliseconds is a
  division in floating point; its three decimals are exact for stamps below \<open>2 ^ 52\<close> microseconds (the
  year 2112).
\<close>

definition millis_column :: "u64 \<Rightarrow> string" where
  "millis_column ts =
     pad_left CHR '' '' 12 (show_nat (unat ts div 1000) @ ''.'' @ pad_left CHR ''0'' 3 (show_nat (unat ts mod 1000)))"

text \<open>\<open>{:02X?}\<close> of a byte list.\<close>

fun debug_hex :: "bytes \<Rightarrow> string" where
  "debug_hex [] = []"
| "debug_hex [b] = hex2 b"
| "debug_hex (b # bs) = hex2 b @ '', '' @ debug_hex bs"

definition ring_line :: "PacketRecord \<Rightarrow> string" where
  "ring_line pkt =
     (let ts_ms = millis_column (timestamp_us pkt); size = (\<lambda>b :: bytes. show_nat (length b) @ ''B '')
      in case packet_data pkt of
           RawTx b \<Rightarrow> ''-> '' @ ts_ms @ ''ms TX '' @ size b @ ''['' @ debug_hex b @ '']'' @ [CHR 10]
         | RawRx b \<Rightarrow> ''<- '' @ ts_ms @ ''ms RX '' @ size b @ ''['' @ debug_hex b @ '']'' @ [CHR 10]
         | RawError b e \<Rightarrow> ''!! '' @ ts_ms @ ''ms ERR '' @ size b @ em_dash @ '' '' @ e @ [CHR 10])"

definition ring_dump :: "BusCapture \<Rightarrow> string \<times> BusCapture" where
  "ring_dump ring = (let (packets, ring) = bus_drain ring in (concat (map ring_line packets), ring))"

text \<open>What reaches the file are the last hundred records.\<close>

lemma ring_dump_bounded:
  "fst (ring_dump (fold bus_tap evs (bus_bounded 100))) = concat (map ring_line (keep_last 100 (map event_packet evs)))"
proof -
  have "bus_wf (bus_bounded 100)" by (simp add: bus_wf_def bus_bounded_def)
  from bus.contents_fold [OF this, of evs]
  have "bus_snapshot (fold bus_tap evs (bus_bounded 100)) = keep_last 100 (map event_packet evs)"
    by (simp add: bus_room_def bus_snapshot_def bus_bounded_def)
  then show ?thesis by (simp add: ring_dump_def split_def bus_drain_takes)
qed

lemma ring_line_example:
  "ring_line (packet 1500 (RawTx [1, 0xAB])) = ''->        1.500ms TX 2B [01, AB]'' @ [CHR 10]"
  by code_simp

section \<open>\<open>examples/reconnect_serial.rs\<close>\<close>

text \<open>Two clients that can reopen their line; the line of the example does not break.\<close>

definition rtu_reconnect_demo :: "SlaveStore transport \<Rightarrow> failure + u16 list" where
  "rtu_reconnect_demo call = fst (read_regs call 1 (with_holding_registers [(0, 42)]))"

definition ascii_reconnect_demo :: "SlaveStore transport \<Rightarrow> failure + u16 list" where
  "ascii_reconnect_demo call = fst (read_regs call 1 (with_holding_registers [(0, 99)]))"

lemma reconnect_serial_everywhere:
  assumes "link_of store_service timeout pieces call"
  shows "rtu_reconnect_demo call = Inr [42]" "ascii_reconnect_demo call = Inr [99]"
  by (simp_all add: rtu_reconnect_demo_def ascii_reconnect_demo_def read_regs_everywhere [OF assms] with_holding_registers_memory)

end
