(* ===== verification/Modbus_Reconnect.thy ===== *)
theory Modbus_Reconnect
  imports Modbus_Receive
begin

text \<open>
  Recovery by reconnecting: \<open>run_with_reconnect\<close> of \<open>src/transport/send_recv.rs\<close> with the
  closures of the TCP client (\<open>tcp.rs\<close>).  A connection that the other end has closed costs one
  interval; the request goes out once, on the first connection that is alive.
\<close>

section \<open>Rounds\<close>

text \<open>A failed attempt and a successful rebuild: one round of the loop.\<close>

lemma reconnect_loop_round:
  assumes "send s = (Inl e, s1)" "is_retryable e" "rebuild (sleep (interval cfg) s1) = (True, s2)"
    and "max_retries cfg = 0 \<or> unat failures < unat (max_retries cfg)"
  shows "reconnect_loop cfg send rebuild sleep exceeded_err failures rebuild_failures s =
     reconnect_loop cfg send rebuild sleep exceeded_err (failures + 1) 0 s2"
proof -
  have "\<not> (0 < max_retries cfg \<and> max_retries cfg < failures + 1)"
    using assms(4)
  proof
    assume less: "unat failures < unat (max_retries cfg)"
    have "(unat (max_retries cfg) :: nat) < 2 ^ LENGTH(32)" by (rule unsigned_less)
    with less have "unat (failures + 1) = unat failures + 1" by (simp add: unat_word_ariths)
    with less show ?thesis by (simp add: word_less_nat_alt)
  qed simp
  with assms(1-3) show ?thesis by (subst reconnect_loop.simps) auto
qed

lemma reconnect_loop_end:
  assumes "send s = (Inr rsp, s')"
  shows "reconnect_loop cfg send rebuild sleep exceeded_err failures rebuild_failures s = Some (Inr rsp, s')"
  using assms by (subst reconnect_loop.simps) simp

section \<open>The TCP client\<close>

text \<open>
  A connection the other end has closed, seen by an untapped client and by a tapped one: the end of
  the stream is an error that is retried, or one that is not.
\<close>

definition closed_conn :: "stream \<Rightarrow> bool" where
  "closed_conn st \<longleftrightarrow> arrivals st = [(0, Data [])] \<and> tap_count st = 0"

text \<open>The client's new connection, which goes on where the old one was.\<close>

definition reopened :: "tcp_client \<Rightarrow> stream \<Rightarrow> nat \<Rightarrow> stream \<Rightarrow> inner" where
  "reopened cl conn now old = inner_new (sniff_new (tc_tap cl) (tc_bus_timing cl \<noteq> None)
     (conn \<lparr> clock := now, bus := bus old, tap_log := tap_log old \<rparr>))"

lemma closed_drain:
  "closed_conn st \<Longrightarrow> drain_stale_data st = (Inl (Connection ''connection closed''), st \<lparr> arrivals := [] \<rparr>)"
  by (simp add: closed_conn_def drain_stale_data_def read_timed_def read_event_def tap_count_def)

lemma closed_reopened:
  "arrivals conn = [(0, Data [])] \<Longrightarrow> layers conn = [] \<Longrightarrow> \<not> tc_tap cl \<Longrightarrow> closed_conn (in_stream (reopened cl conn now old))"
  by (simp add: closed_conn_def reopened_def inner_new_def sniff_new_def tap_count_def)

text \<open>The error of a tapped client ends its call at once.\<close>

lemma tapped_gives_up:
  assumes "arrivals (in_stream inner) = [(0, Data [])]" "0 < tap_count (in_stream inner)" "tc_reconnect cl = Some cfg"
  shows "tcp_call cl slave req ((inner, counter), plan) =
    Some (Inl (Other ''transport closed''),
      (inner \<lparr> in_stream := (in_stream inner) \<lparr> arrivals := [] \<rparr> \<rparr>, counter), plan)"
proof -
  have "drain_stale_data (in_stream inner) =
      (Inl (Other ''transport closed''), (in_stream inner) \<lparr> arrivals := [] \<rparr>)"
    using assms(1,2) by (simp add: drain_stale_data_def read_timed_def read_event_def tap_count_def from_io_error_def)
  then show ?thesis
    using assms(3) by (simp add: tcp_call_def run_with_reconnect_def tcp_send_recv_def reconnect_loop.simps)
qed

text \<open>The rounds on closed connections, until an attempt gives one that is not.\<close>

abbreviation opened :: "duration \<times> stream \<Rightarrow> attempt" where
  "opened \<equiv> \<lambda>(took, conn). (took, Some conn)"

lemma tcp_rounds:
  fixes slave :: u8 and request :: Request and took :: duration
  assumes cl: "\<not> tc_tap cl" and dead: "\<And>took conn. (took, conn) \<in> set gone \<Longrightarrow> arrivals conn = [(0, Data [])] \<and> layers conn = []"
    and limit: "max_retries cfg = 0 \<or> unat failures + Suc (length gone) \<le> unat (max_retries cfg)"
    and closed: "closed_conn (in_stream inner)"
  defines "send \<equiv> \<lambda>(s, plan). let (r, s) = tcp_send_recv (tc_timeout cl) (tc_config cl) slave request s in (r, s, plan)"
    and "sleep \<equiv> \<lambda>d ((inner, counter), plan).
      ((inner \<lparr> in_stream := (in_stream inner) \<lparr> clock := clock (in_stream inner) + d \<rparr> \<rparr>, counter), plan)"
    and "now \<equiv> \<lambda>inner gone. clock (in_stream inner) + Suc (length gone) * interval cfg + sum_list (map fst gone) + took"
  shows "reconnect_loop cfg send (tcp_rebuild cl) sleep Connection failures rf
      ((inner, counter), map opened gone @ (took, Some conn) # plan) =
    reconnect_loop cfg send (tcp_rebuild cl) sleep Connection (failures + of_nat (Suc (length gone))) 0
      ((reopened cl conn (now inner gone) (in_stream inner), counter), plan)"
  using limit closed dead
proof (induction gone arbitrary: failures rf inner)
  case Nil
  let ?st = "in_stream inner"
  have send: "send ((inner, counter), (took, Some conn) # plan) =
      (Inl (Connection ''connection closed''), (inner \<lparr> in_stream := ?st \<lparr> arrivals := [] \<rparr> \<rparr>, counter), (took, Some conn) # plan)"
    using closed_drain [OF Nil(2)] by (simp add: send_def tcp_send_recv_def)
  have "tcp_rebuild cl (sleep (interval cfg) ((inner \<lparr> in_stream := ?st \<lparr> arrivals := [] \<rparr> \<rparr>, counter), (took, Some conn) # plan)) =
      (True, (reopened cl conn (clock ?st + interval cfg + took) ?st, counter), plan)"
    by (simp add: sleep_def tcp_rebuild_def reopened_def inner_new_def)
  note round = reconnect_loop_round [where send = send and rebuild = "tcp_rebuild cl" and sleep = sleep and cfg = cfg, OF send _ this]
  have "max_retries cfg = 0 \<or> unat failures < unat (max_retries cfg)" using Nil(1) by auto
  from round [OF _ this] show ?case by (simp add: now_def)
next
  case (Cons tc gone)
  obtain t gone_conn where tc: "tc = (t, gone_conn)" by (cases tc)
  let ?st = "in_stream inner" and ?plan = "map opened gone @ (took, Some conn) # plan"
  let ?next = "reopened cl gone_conn (clock ?st + interval cfg + t) ?st"
  have dead: "arrivals gone_conn = [(0, Data [])]" "layers gone_conn = []" using Cons.prems(3) tc by auto
  have send: "send ((inner, counter), (t, Some gone_conn) # ?plan) =
      (Inl (Connection ''connection closed''), (inner \<lparr> in_stream := ?st \<lparr> arrivals := [] \<rparr> \<rparr>, counter), (t, Some gone_conn) # ?plan)"
    using closed_drain [OF Cons.prems(2)] by (simp add: send_def tcp_send_recv_def)
  have step: "unat (failures + 1) = unat failures + 1" if "unat failures + Suc (Suc (length gone)) \<le> unat (max_retries cfg)"
  proof -
    have "(unat (max_retries cfg) :: nat) < 2 ^ LENGTH(32)" by (rule unsigned_less)
    with that show ?thesis by (simp add: unat_word_ariths)
  qed
  have "tcp_rebuild cl (sleep (interval cfg) ((inner \<lparr> in_stream := ?st \<lparr> arrivals := [] \<rparr> \<rparr>, counter), (t, Some gone_conn) # ?plan)) =
      (True, (?next, counter), ?plan)"
    by (simp add: sleep_def tcp_rebuild_def reopened_def inner_new_def)
  note round = reconnect_loop_round [where send = send and rebuild = "tcp_rebuild cl" and sleep = sleep and cfg = cfg, OF send _ this]
  have "max_retries cfg = 0 \<or> unat failures < unat (max_retries cfg)" using Cons.prems(1) by auto
  from round [OF _ this] have "reconnect_loop cfg send (tcp_rebuild cl) sleep Connection failures rf ((inner, counter), map opened (tc # gone) @ (took, Some conn) # plan) =
      reconnect_loop cfg send (tcp_rebuild cl) sleep Connection (failures + 1) 0 ((?next, counter), ?plan)"
    by (simp add: tc)
  also have "\<dots> = reconnect_loop cfg send (tcp_rebuild cl) sleep Connection (failures + 1 + of_nat (Suc (length gone))) 0
      ((reopened cl conn (now ?next gone) (in_stream ?next), counter), plan)"
    using Cons.prems(1,3) step closed_reopened [OF dead cl] by (intro Cons.IH) auto
  finally show ?case by (simp add: tc now_def reopened_def inner_new_def sniff_new_def algebra_simps)
qed

lemma tcp_recovers:
  fixes inner :: inner and conn :: stream and u :: u8 and took :: duration
  assumes cl: "tc_reconnect cl = Some cfg" "\<not> tc_tap cl"
    and dead: "\<And>took conn. (took, conn) \<in> set gone \<Longrightarrow> arrivals conn = [(0, Data [])] \<and> layers conn = []"
    and limit: "max_retries cfg = 0 \<or> Suc (length gone) \<le> unat (max_retries cfg)" and closed: "closed_conn (in_stream inner)"
  defines "now \<equiv> clock (in_stream inner) + Suc (length gone) * interval cfg + sum_list (map fst gone) + took"
  assumes line: "arrivals conn = data_arrivals ps" "joined ps = encode_tcp_frame (u # pdu) [] (tc_config cl) tid" "write_plan conn = []"
    and time: "after_drain (conn \<lparr> clock := now \<rparr>) ps" "timely (now + from_millis 1 + tc_timeout cl) ps" "0 < tc_timeout cl"
    and req: "request_fits req" and rsp: "length pdu \<le> 253" "response_try_from pdu = Ok rsp"
    and config: "unit_id_in_body (tc_config cl) \<Longrightarrow> u = slave" "\<not> cut_short (tc_config cl) (now + from_millis 1) ps"
  obtains inner' counter' where
    "tcp_call cl slave req ((inner, counter), map opened gone @ (took, Some conn) # plan) = Some (Inr rsp, (inner', counter'), plan)"
    "sent (in_stream inner') = sent conn @
       [encode_tcp_frame (slave # request_pdu req) [] (tc_config cl) (fst (next_tid (tid_mode (tc_config cl)) counter))]"
    "clock (in_stream inner') = answered_at (tc_config cl) (now + from_millis 1) (now + from_millis 1 + tc_timeout cl) ps"
proof -
  let ?new = "reopened cl conn now (in_stream inner)"
  have st: "clock (in_stream ?new) = now" "arrivals (in_stream ?new) = data_arrivals ps" "write_plan (in_stream ?new) = []"
    "sent (in_stream ?new) = sent conn" "after_drain (in_stream ?new) ps"
    using line time(1) by (simp_all add: reopened_def inner_new_def sniff_new_def after_drain_def)
  obtain inner' counter' where send: "tcp_send_recv (tc_timeout cl) (tc_config cl) slave req (?new, counter) = (Inr rsp, inner', counter')"
    and inner': "sent (in_stream inner') = sent conn @
       [encode_tcp_frame (slave # request_pdu req) [] (tc_config cl) (fst (next_tid (tid_mode (tc_config cl)) counter))]"
     "clock (in_stream inner') = answered_at (tc_config cl) (now + from_millis 1) (now + from_millis 1 + tc_timeout cl) ps"
    using tcp_exchange_pieces [OF st(2) line(2) st(3) st(5) _ time(3) req rsp config(1), of counter] time(2) config(2)
    by (cases "tcp_send_recv (tc_timeout cl) (tc_config cl) slave req (?new, counter)") (auto simp: st)
  have limit': "max_retries cfg = 0 \<or> unat (0 :: u32) + Suc (length gone) \<le> unat (max_retries cfg)" using limit by simp
  have "tcp_call cl slave req ((inner, counter), map opened gone @ (took, Some conn) # plan) = Some (Inr rsp, (inner', counter'), plan)"
    unfolding tcp_call_def run_with_reconnect_def cl(1) option.case
    by (subst tcp_rounds [OF cl(2) dead limit' closed], assumption, rule reconnect_loop_end)
      (simp only: now_def [symmetric] send prod.case Let_def)
  then show thesis using inner' by (rule that)
qed

end
