(* ===== verification/Modbus_Deadlines.thy ===== *)
theory Modbus_Deadlines
  imports Modbus_Reconnect
begin

text \<open>
  How long a call may take, on any line: one exchange of each client
  (\<open>src/transport/send_recv.rs\<close>, \<open>rtu.rs\<close>, \<open>ascii.rs\<close>, \<open>tcp.rs\<close>) and a call that reconnects.  The
  source has time limits on every wait but the opening of a transport: that takes the time it takes.
\<close>

section \<open>Reading\<close>

text \<open>Every loop over the input is a run of timed reads.\<close>

inductive reads :: "stream \<Rightarrow> stream \<Rightarrow> bool" where
  none: "reads st st"
| read: "read_timed wait st = (ev, st1) \<Longrightarrow> reads st1 st' \<Longrightarrow> reads st st'"

definition spacing_of :: "stream \<Rightarrow> duration" where
  "spacing_of st = (case bus st of Some t \<Rightarrow> min_spacing t | None \<Rightarrow> 0)"

lemma spacing_of_bus: "map_option min_spacing_us (bus st') = map_option min_spacing_us (bus st) \<Longrightarrow> spacing_of st' = spacing_of st"
  by (auto simp: spacing_of_def min_spacing_def split: option.splits)

lemma spacing_touch [simp]: "spacing_of (touch_bus st) = spacing_of st"
  by (rule spacing_of_bus) (simp add: touch_bus_def touch_def option.map_comp comp_def)

lemma spacing_record [simp]: "spacing_of (record_tap ev st) = spacing_of st"
  by (simp add: record_tap_def spacing_of_def)

lemma spacing_update [simp]:
  "spacing_of (st \<lparr> clock := c \<rparr>) = spacing_of st" "spacing_of (st \<lparr> arrivals := a \<rparr>) = spacing_of st"
  "spacing_of (st \<lparr> write_plan := w \<rparr>) = spacing_of st" "spacing_of (st \<lparr> sent := fs \<rparr>) = spacing_of st"
  by (simp_all add: spacing_of_def)

lemma spacing_read: "read_timed wait st = (ev, st1) \<Longrightarrow> spacing_of st1 = spacing_of st"
  by (auto simp: read_timed_def Let_def split: list.splits arrival.splits if_splits)

lemma spacing_reads: "reads st st' \<Longrightarrow> spacing_of st' = spacing_of st"
  by (induction rule: reads.induct) (simp_all add: spacing_read)

lemma reads_trans: "reads a b \<Longrightarrow> reads b c \<Longrightarrow> reads a c"
  by (induction rule: reads.induct) (auto intro: reads.read)

lemma drain_loop_reads: "reads st (snd (drain_loop deadline st))"
proof (induction deadline st rule: drain_loop.induct)
  case (1 deadline st)
  let ?wait = "min (deadline - clock st) (from_millis DRAIN_QUIET_MS)"
  obtain ev st1 where read: "read_timed ?wait st = (ev, st1)" by fastforce
  with 1 have "reads st1 (snd (drain_loop deadline st1))" if "ev = Got bs" "bs \<noteq> []" "deadline - clock st \<noteq> 0" for bs
    using that by auto
  with read show ?case
    by (subst drain_loop.simps) (auto simp: Let_def intro: reads.intros split: poll_result.splits)
qed

lemma drain_reads: "reads st (snd (drain_stale_data st))"
proof -
  obtain ev st1 where read: "read_timed (from_millis QUICK_POLL_MS) st = (ev, st1)" by fastforce
  with drain_loop_reads [of st1] show ?thesis
    by (auto simp: drain_stale_data_def Let_def intro: reads.intros split: poll_result.splits)
qed

lemma read_at_least_reads: "reads st (snd (snd (read_at_least st buf deadline least)))"
proof (induction st buf deadline least rule: read_at_least.induct)
  case (1 st buf deadline least)
  obtain ev st1 where read: "read_timed (deadline - clock st) st = (ev, st1)" by fastforce
  with 1 have "reads st1 (snd (snd (read_at_least st1 (buf @ bs) deadline least)))"
    if "ev = Got bs" "bs \<noteq> []" "length buf < least" "deadline - clock st \<noteq> 0" for bs
    using that by auto
  with read show ?case
    by (subst read_at_least.simps) (auto simp: Let_def intro: reads.intros split: poll_result.splits)
qed

lemma ascii_recv_reads: "reads st (snd (snd (ascii_recv st buf deadline slave)))"
proof (induction st buf deadline slave rule: ascii_recv.induct)
  case (1 st buf deadline slave)
  obtain ev st1 where read: "read_timed (deadline - clock st) st = (ev, st1)" by fastforce
  with 1 have "reads st1 (snd (snd (ascii_recv st1 (buf @ bs) deadline slave)))"
    if "ev = Got bs" "bs \<noteq> []" "try_parse_ascii_response (buf @ bs) slave = None" "deadline - clock st \<noteq> 0" for bs
    using that by auto
  with read show ?case
    by (subst ascii_recv.simps) (auto simp: Let_def intro: reads.intros split: poll_result.splits option.splits)
qed

section \<open>Time that elapses\<close>

definition elapses :: "duration \<Rightarrow> stream \<Rightarrow> stream \<Rightarrow> bool" where
  "elapses d st st' \<longleftrightarrow> clock st \<le> clock st' \<and> clock st' \<le> clock st + d \<and> spacing_of st' = spacing_of st"

lemma elapses_trans: "elapses d a b \<Longrightarrow> elapses e b c \<Longrightarrow> elapses (d + e) a c"
  by (auto simp: elapses_def)

lemma elapses_mono: "elapses d a b \<Longrightarrow> d \<le> e \<Longrightarrow> elapses e a b"
  by (auto simp: elapses_def)

lemma elapses_refl: "elapses d st st"
  by (simp add: elapses_def)

lemma clock_reads: "reads st st' \<Longrightarrow> clock st \<le> clock st'"
  by (induction rule: reads.induct) (auto dest: read_timed_clock)

lemma drain_elapses: "elapses (from_millis 201) st (snd (drain_stale_data st))"
  using drain_reads [of st] drain_clock_aux [of st "fst (drain_stale_data st)" "snd (drain_stale_data st)"]
  by (simp add: elapses_def spacing_reads clock_reads)

lemma wait_bounded: "wait_if_needed now t \<le> min_spacing t"
proof -
  have "unat (min_spacing_us t - e) \<le> unat (min_spacing_us t)" if "e < min_spacing_us t" for e
    using that by (simp add: unat_sub)
  then show ?thesis by (auto simp: wait_if_needed_def min_spacing_def Let_def from_micros_def)
qed

lemma prepare_elapses: "elapses (spacing_of st) st (prepare_send st)"
  using wait_bounded by (auto simp: elapses_def prepare_send_def spacing_of_def split: list.splits option.splits)

lemma write_elapses: "elapses d st (snd (write_timed d frame st))"
  by (auto simp: elapses_def write_timed_def Let_def split: list.splits write_result.splits)

lemma send_elapses: "elapses d st (snd (snd (send_frame st wb slave d req enc)))"
proof -
  obtain r buf where "encode_request_into req (put_u8 [] slave) = (r, buf)" by fastforce
  then show ?thesis
    using write_elapses [of d st "enc buf []"]
    by (auto simp: send_frame_def Let_def elapses_refl split: sum.splits prod.splits)
qed

lemma read_at_least_elapses: "elapses (deadline - clock st) st (snd (snd (read_at_least st buf deadline least)))"
proof -
  obtain r buf' st' where run: "read_at_least st buf deadline least = (r, buf', st')"
    by (cases "read_at_least st buf deadline least") auto
  with read_at_least_reads [of st buf deadline least] read_at_least_clock [OF run] show ?thesis
    by (auto simp: elapses_def spacing_reads)
qed

lemma ascii_recv_clock: "clock (snd (snd (ascii_recv st buf deadline slave))) \<le> max (clock st) deadline"
proof (induction st buf deadline slave rule: ascii_recv.induct)
  case (1 st buf deadline slave)
  obtain ev st1 where read: "read_timed (deadline - clock st) st = (ev, st1)" by fastforce
  note clk = read_timed_clock(2) [OF read]
  from 1 read have "clock (snd (snd (ascii_recv st1 (buf @ bs) deadline slave))) \<le> max (clock st1) deadline"
    if "ev = Got bs" "bs \<noteq> []" "try_parse_ascii_response (buf @ bs) slave = None" "deadline - clock st \<noteq> 0" for bs
    using that by auto
  with read clk show ?case
    by (subst ascii_recv.simps) (fastforce simp: Let_def split: poll_result.splits option.splits)
qed

lemma ascii_recv_elapses: "elapses (deadline - clock st) st (snd (snd (ascii_recv st buf deadline slave)))"
  using ascii_recv_clock [of st buf deadline slave] ascii_recv_reads [of st buf deadline slave]
  by (auto simp: elapses_def spacing_reads clock_reads)


text \<open>Reads against a deadline, one after the other.\<close>

definition by_deadline :: "nat \<Rightarrow> stream \<Rightarrow> stream \<Rightarrow> bool" where
  "by_deadline deadline st st' \<longleftrightarrow> elapses (deadline - clock st) st st'"

lemma by_deadline_trans: "by_deadline t a b \<Longrightarrow> by_deadline t b c \<Longrightarrow> by_deadline t a c"
  by (auto simp: by_deadline_def elapses_def)

lemma by_deadline_refl: "by_deadline t st st"
  by (simp add: by_deadline_def elapses_refl)

lemma extra_read_by_deadline: "by_deadline deadline st (snd (tcp_extra_read deadline n buf st))"
proof -
  obtain ev st1 where read: "read_timed (min (deadline - clock st) (from_millis 200)) st = (ev, st1)" by fastforce
  with spacing_read [OF read] read_timed_clock [OF read] have "by_deadline deadline st st1"
    by (simp add: by_deadline_def elapses_def)
  with read show ?thesis
    by (auto simp: tcp_extra_read_def Let_def by_deadline_refl split: poll_result.splits)
qed

lemma tcp_receive_elapses: "elapses (deadline - clock st) st (snd (snd (tcp_receive config slave deadline st)))"
proof -
  obtain r1 rb1 st1 where one: "read_at_least st [] deadline MBAP_HEADER_SIZE = (r1, rb1, st1)"
    by (cases "read_at_least st [] deadline MBAP_HEADER_SIZE") auto
  let ?len = "unat (be16 (rb1 ! 4) (rb1 ! 5))"
  obtain r2 rb2 st2 where two: "read_at_least st1 rb1 deadline (MBAP_PREFIX_SIZE + ?len) = (r2, rb2, st2)"
    by (cases "read_at_least st1 rb1 deadline (MBAP_PREFIX_SIZE + ?len)") auto
  obtain rb3 st3 where three: "tcp_extra_read deadline (MBAP_HEADER_SIZE + ?len) rb2 st2 = (rb3, st3)" by fastforce
  have first: "by_deadline deadline st st1"
    using read_at_least_elapses [of deadline st "[]" MBAP_HEADER_SIZE] one by (simp add: by_deadline_def)
  have "by_deadline deadline st1 st2"
    using read_at_least_elapses [of deadline st1 rb1 "MBAP_PREFIX_SIZE + ?len"] two by (simp add: by_deadline_def)
  note second = by_deadline_trans [OF first this]
  have "by_deadline deadline st2 st3"
    using extra_read_by_deadline [of deadline st2 "MBAP_HEADER_SIZE + ?len" rb2] three by simp
  note third = by_deadline_trans [OF second this]
  have "snd (snd (tcp_receive config slave deadline st)) \<in> {st1, st2, st3}"
    using one two three by (auto simp: tcp_receive_def Let_def split: sum.splits)
  with first second third show ?thesis by (auto simp: by_deadline_def)
qed

section \<open>One exchange\<close>

definition exchange_limit :: "duration \<Rightarrow> duration \<Rightarrow> duration" where
  "exchange_limit spacing timeout = from_millis 201 + spacing + timeout + timeout"

text \<open>Draining, the wait for the bus, sending and receiving, any of which may end the exchange.\<close>

lemma exchange_elapses:
  assumes "elapses (from_millis 201) st st1" "elapses (spacing_of st1) st1 st2" "elapses d st2 st3" "elapses d st3 st4"
  shows "elapses (exchange_limit (spacing_of st) d) st st1" "elapses (exchange_limit (spacing_of st) d) st st3"
    "elapses (exchange_limit (spacing_of st) d) st st4"
proof -
  from assms have "spacing_of st1 = spacing_of st" by (simp add: elapses_def)
  with assms have two: "elapses (from_millis 201 + spacing_of st) st st2" by (intro elapses_trans [OF assms(1)]) simp
  note three = elapses_trans [OF two assms(3)]
  note four = elapses_trans [OF three assms(4)]
  from assms(1) three four show "elapses (exchange_limit (spacing_of st) d) st st1"
    "elapses (exchange_limit (spacing_of st) d) st st3" "elapses (exchange_limit (spacing_of st) d) st st4"
    by (auto simp: exchange_limit_def intro: elapses_mono)
qed

lemma rtu_exchange_elapses:
  "elapses (exchange_limit (spacing_of (in_stream inner)) d) (in_stream inner) (in_stream (snd (rtu_send_recv d slave req inner)))"
proof -
  obtain r1 st1 where drain: "drain_stale_data (in_stream inner) = (r1, st1)" by fastforce
  obtain r3 wb st3 where send: "send_frame (prepare_send st1) (in_write_buf inner) slave d req encode_rtu_frame = (r3, wb, st3)"
    by (cases "send_frame (prepare_send st1) (in_write_buf inner) slave d req encode_rtu_frame") auto
  let ?target = "case map_option (\<lambda>p. p + 1 + CRC_SIZE) (expected_rtu_pdu_len req) of Some n \<Rightarrow> n | None \<Rightarrow> MIN_RTU_FRAME"
  obtain r4 rb st4 where receive: "read_at_least st3 [] (clock st3 + d) ?target = (r4, rb, st4)"
    by (cases "read_at_least st3 [] (clock st3 + d) ?target") auto
  have "in_stream (snd (rtu_send_recv d slave req inner)) \<in> {st1, st3, st4}"
    using drain send receive by (auto simp: rtu_send_recv_def Let_def split: sum.splits)
  moreover note exchange_elapses [of "in_stream inner" st1 "prepare_send st1" d st3 st4]
  ultimately show ?thesis
    using drain_elapses [of "in_stream inner"] prepare_elapses [of st1]
      send_elapses [of d "prepare_send st1" "in_write_buf inner" slave req encode_rtu_frame]
      read_at_least_elapses [of "clock st3 + d" st3 "[]" ?target] drain send receive
    by auto
qed

lemma ascii_exchange_elapses:
  "elapses (exchange_limit (spacing_of (in_stream inner)) d) (in_stream inner) (in_stream (snd (ascii_send_recv d slave req inner)))"
proof -
  obtain r1 st1 where drain: "drain_stale_data (in_stream inner) = (r1, st1)" by fastforce
  obtain r3 wb st3 where send: "send_frame (prepare_send st1) (in_write_buf inner) slave d req encode_ascii_frame_into = (r3, wb, st3)"
    by (cases "send_frame (prepare_send st1) (in_write_buf inner) slave d req encode_ascii_frame_into") auto
  obtain r4 rb st4 where receive: "ascii_recv st3 [] (clock st3 + d) slave = (r4, rb, st4)"
    by (cases "ascii_recv st3 [] (clock st3 + d) slave") auto
  have "in_stream (snd (ascii_send_recv d slave req inner)) \<in> {in_stream inner, st1, st3, st4}"
    using drain send receive by (auto simp: ascii_send_recv_def Let_def split: sum.splits)
  moreover note exchange_elapses [of "in_stream inner" st1 "prepare_send st1" d st3 st4]
  ultimately show ?thesis
    using drain_elapses [of "in_stream inner"] prepare_elapses [of st1] elapses_refl [of _ "in_stream inner"]
      send_elapses [of d "prepare_send st1" "in_write_buf inner" slave req encode_ascii_frame_into]
      ascii_recv_elapses [of "clock st3 + d" st3 "[]" slave] drain send receive
    by auto
qed

text \<open>The TCP client does not wait for the bus.\<close>

lemma tcp_exchange_elapses:
  "elapses (exchange_limit 0 d) (in_stream inner) (in_stream (fst (snd (tcp_send_recv d config slave req (inner, counter)))))"
proof -
  let ?tid = "fst (next_tid (tid_mode config) counter)" and ?st = "in_stream inner"
  let ?enc = "\<lambda>data buf. encode_tcp_frame data buf config ?tid"
  obtain r1 st1 where drain: "drain_stale_data ?st = (r1, st1)" by fastforce
  obtain r3 wb st3 where send: "send_frame st1 (in_write_buf inner) slave d req ?enc = (r3, wb, st3)"
    by (cases "send_frame st1 (in_write_buf inner) slave d req ?enc") auto
  obtain r4 rb st4 where receive: "tcp_receive config slave (clock st3 + d) st3 = (r4, rb, st4)"
    by (cases "tcp_receive config slave (clock st3 + d) st3") auto
  have "in_stream (fst (snd (tcp_send_recv d config slave req (inner, counter)))) \<in> {st1, st3, st4}"
    using drain send receive by (auto simp: tcp_send_recv_def Let_def split: sum.splits prod.splits)
  moreover have one: "elapses (from_millis 201) ?st st1" using drain_elapses [of ?st] drain by simp
  moreover have three: "elapses (from_millis 201 + d) ?st st3"
    using elapses_trans [OF one, of d st3] send_elapses [of d st1 "in_write_buf inner" slave req ?enc] send by simp
  moreover have "elapses (from_millis 201 + d + d) ?st st4"
    using elapses_trans [OF three, of d st4] tcp_receive_elapses [of "clock st3 + d" st3 config slave] receive by simp
  ultimately show ?thesis by (auto simp: exchange_limit_def intro: elapses_mono)
qed


section \<open>A call that reconnects\<close>

definition retries_limited :: "ReconnectConfig option \<Rightarrow> bool" where
  "retries_limited reconnect =
     (case reconnect of None \<Rightarrow> True | Some cfg \<Rightarrow> 0 < max_retries cfg \<and> unat (max_retries cfg) < 4294967295)"

definition call_limit :: "ReconnectConfig option \<Rightarrow> duration \<Rightarrow> duration" where
  "call_limit reconnect exchange =
     (case reconnect of
        None \<Rightarrow> exchange
      | Some cfg \<Rightarrow> exchange + unat (max_retries cfg) * (interval cfg + exchange))"

text \<open>Beside that limit a call takes the time of the attempts to open a transport that it uses up.\<close>

definition opens_within :: "nat \<Rightarrow> duration \<Rightarrow> stream \<times> attempt list \<Rightarrow> stream \<times> attempt list \<Rightarrow> bool" where
  "opens_within n d s s' \<longleftrightarrow>
     (\<exists>k \<le> n. snd s' = drop k (snd s) \<and> elapses (d + opening_time k (snd s)) (fst s) (fst s'))"

lemma opens_within_0: "elapses d (fst s) (fst s') \<Longrightarrow> snd s' = snd s \<Longrightarrow> opens_within n d s s'"
  unfolding opens_within_def by (intro exI [of _ 0]) simp

lemma opens_within_trans:
  assumes "elapses d (fst s) st1" "elapses (opening_time 1 (snd s)) st1 (fst s2)" "snd s2 = drop 1 (snd s)" "opens_within n d' s2 s'"
  shows "opens_within (Suc n) (d + d') s s'"
proof -
  obtain k where k: "k \<le> n" "snd s' = drop k (snd s2)" "elapses (d' + opening_time k (snd s2)) (fst s2) (fst s')"
    using assms(4) by (auto simp: opens_within_def)
  from elapses_trans [OF elapses_trans [OF assms(1,2)] k(3)]
  have "elapses (d + d' + opening_time (Suc k) (snd s)) (fst s) (fst s')"
    by (simp only: opening_time_Suc [of k "snd s"] assms(3)) (simp add: ac_simps)
  with k(1,2) assms(3) show ?thesis unfolding opens_within_def by (intro exI [of _ "Suc k"]) simp
qed

lemma opens_within_bound: "opens_within n d s s' \<Longrightarrow> clock (fst s') \<le> clock (fst s) + d + opening_time n (snd s)"
proof -
  assume "opens_within n d s s'"
  then obtain k where k: "k \<le> n" "clock (fst s') \<le> clock (fst s) + (d + opening_time k (snd s))"
    by (auto simp: opens_within_def elapses_def)
  have "opening_time k plan \<le> opening_time n plan" if "k \<le> n" for plan
    using that
  proof (induction k arbitrary: n plan)
    case (Suc k)
    then obtain m where "n = Suc m" "k \<le> m" by (cases n) auto
    with Suc.IH show ?case by (simp only: opening_time_Suc) simp
  qed simp
  from this [OF k(1), of "snd s"] k(2) show ?thesis by simp
qed

lemma reconnect_loop_elapses:
  fixes st :: "'s \<Rightarrow> stream" and plan :: "'s \<Rightarrow> attempt list"
  defines "at \<equiv> \<lambda>s. (st s, plan s)"
  assumes send: "\<And>s. spacing_of (st s) = c \<Longrightarrow> elapses d (st s) (st (snd (send s))) \<and> plan (snd (send s)) = plan s"
    and rebuild: "\<And>s. elapses (opening_time 1 (plan s)) (st s) (st (snd (rebuild s))) \<and> plan (snd (rebuild s)) = drop 1 (plan s)"
    and sleep: "\<And>t s. elapses t (st s) (st (sleep t s)) \<and> plan (sleep t s) = plan s"
    and retries: "0 < max_retries cfg" "unat (max_retries cfg) < 4294967295"
    and "unat failures \<le> unat (max_retries cfg)" "spacing_of (st s) = c"
  shows "\<exists>r s'. reconnect_loop cfg send rebuild sleep err failures rf s = Some (r, s')
    \<and> opens_within (unat (max_retries cfg) - unat failures)
        (d + (unat (max_retries cfg) - unat failures) * (interval cfg + d)) (at s) (at s')"
  using assms(7,8)
proof (induction "unat (max_retries cfg) - unat failures" arbitrary: failures rf s rule: less_induct)
  case less
  obtain res s1 where send1: "send s = (res, s1)" by fastforce
  with send [OF less.prems(2)] have one: "elapses d (st s) (st s1)" "plan s1 = plan s" by simp_all
  have no_wrap: "unat (failures + 1) = unat failures + 1"
    using less.prems retries(2) by (simp add: unat_word_ariths)
  show ?case
  proof (cases "\<exists>e. res = Inl e \<and> is_retryable e \<and> failures + 1 \<le> max_retries cfg")
    case False
    then have "\<exists>r. reconnect_loop cfg send rebuild sleep err failures rf s = Some (r, s1)"
      using send1 retries less.prems(1) by (subst reconnect_loop.simps) (auto simp: Let_def not_le split: sum.splits)
    moreover have "opens_within n (d + d') (at s) (at s1)" for n d'
      using elapses_mono [OF one(1) le_add1] one(2) by (intro opens_within_0) (simp_all add: at_def)
    ultimately show ?thesis by blast
  next
    case True
    then obtain e where res: "res = Inl e" "is_retryable e" and le: "failures + 1 \<le> max_retries cfg" by blast
    from le no_wrap have le': "unat failures + 1 \<le> unat (max_retries cfg)" by (simp add: word_le_nat_alt)
    obtain ok s2 where reb: "rebuild (sleep (interval cfg) s1) = (ok, s2)" by fastforce
    have two: "elapses (d + interval cfg) (st s) (st (sleep (interval cfg) s1))" "plan (sleep (interval cfg) s1) = plan s"
      using elapses_trans [OF one(1)] sleep one(2) by auto
    then have three: "elapses (opening_time 1 (plan s)) (st (sleep (interval cfg) s1)) (st s2)" "plan s2 = drop 1 (plan s)"
      using rebuild [of "sleep (interval cfg) s1"] reb by auto
    then have spacing: "spacing_of (st s2) = c" using two(1) less.prems(2) by (simp add: elapses_def)
    let ?n = "unat (max_retries cfg) - unat (failures + 1)"
    let ?rest = "d + ?n * (interval cfg + d)"
    have IH: "\<exists>r s'. reconnect_loop cfg send rebuild sleep err (failures + 1) f s2 = Some (r, s') \<and> opens_within ?n ?rest (at s2) (at s')" for f
      using le' spacing by (intro less.hyps) (simp_all add: no_wrap)
    have stop: "opens_within ?n ?rest (at s2) (at s2)" by (intro opens_within_0 elapses_refl) simp
    obtain n where n: "unat (max_retries cfg) - unat failures = Suc n"
      using le' by (cases "unat (max_retries cfg) - unat failures") auto
    then have n': "?n = n" unfolding no_wrap by arith
    have "\<exists>r s'. reconnect_loop cfg send rebuild sleep err failures rf s = Some (r, s') \<and> opens_within ?n ?rest (at s2) (at s')"
      using send1 res le reb stop IH [of "if ok then 0 else rf + 1"]
      by (subst reconnect_loop.simps) (auto simp: Let_def not_less split: if_splits)
    then obtain r s' where out: "reconnect_loop cfg send rebuild sleep err failures rf s = Some (r, s')"
      "opens_within ?n ?rest (at s2) (at s')" by blast
    have "opens_within (Suc ?n) (d + interval cfg + ?rest) (at s) (at s')"
      by (rule opens_within_trans [OF _ _ _ out(2)]) (use two three in \<open>simp_all add: at_def\<close>)
    with out(1) show ?thesis unfolding n n' by (intro exI conjI) (auto simp: algebra_simps)
  qed
qed

definition retries_of :: "ReconnectConfig option \<Rightarrow> nat" where
  "retries_of reconnect = (case reconnect of None \<Rightarrow> 0 | Some cfg \<Rightarrow> unat (max_retries cfg))"

lemma run_elapses:
  fixes st :: "'s \<Rightarrow> stream" and plan :: "'s \<Rightarrow> attempt list"
  assumes "\<And>s. spacing_of (st s) = spacing_of (st s0) \<Longrightarrow> elapses d (st s) (st (snd (send s))) \<and> plan (snd (send s)) = plan s"
    and "\<And>s. reconnect \<noteq> None \<Longrightarrow>
      elapses (opening_time 1 (plan s)) (st s) (st (snd (rebuild s))) \<and> plan (snd (rebuild s)) = drop 1 (plan s)"
    and "\<And>t s. elapses t (st s) (st (sleep t s)) \<and> plan (sleep t s) = plan s" "retries_limited reconnect"
  shows "\<exists>r s'. run_with_reconnect reconnect send rebuild sleep err s0 = Some (r, s')
    \<and> opens_within (retries_of reconnect) (call_limit reconnect d) (st s0, plan s0) (st s', plan s')"
proof (cases reconnect)
  case None
  obtain r s' where "send s0 = (r, s')" by fastforce
  with assms(1) [of s0] None show ?thesis
    by (auto simp: run_with_reconnect_def call_limit_def intro!: opens_within_0)
next
  case (Some cfg)
  with assms(4) have "0 < max_retries cfg" "unat (max_retries cfg) < 4294967295" by (simp_all add: retries_limited_def)
  from reconnect_loop_elapses [where st = st and plan = plan and send = send and rebuild = rebuild and sleep = sleep
      and failures = 0 and rf = 0 and err = err and s = s0, OF assms(1) assms(2) assms(3) this] Some
  show ?thesis by (simp add: run_with_reconnect_def call_limit_def retries_of_def)
qed

text \<open>The clients.\<close>

lemma serial_rebuild_elapses:
  assumes "cl_reconnect cl \<noteq> None"
  shows "elapses (opening_time 1 (snd s)) (in_stream (fst s)) (in_stream (fst (snd (serial_rebuild cl s))))
    \<and> snd (snd (serial_rebuild cl s)) = drop 1 (snd s)"
  using assms by (cases s)
    (auto simp: serial_rebuild_def elapses_def sniff_new_def spacing_of_def split: list.splits option.splits)

lemma serial_call_elapses:
  assumes "\<And>inner. elapses (exchange_limit (spacing_of (in_stream inner)) d) (in_stream inner) (in_stream (snd (send_recv inner)))"
    and "retries_limited (cl_reconnect cl)"
  shows "\<exists>r inner' plan'. serial_call send_recv cl (inner, plan) = Some (r, inner', plan')
    \<and> opens_within (retries_of (cl_reconnect cl)) (call_limit (cl_reconnect cl) (exchange_limit (spacing_of (in_stream inner)) d))
        (in_stream inner, plan) (in_stream inner', plan')"
proof -
  have send: "elapses (exchange_limit (spacing_of (in_stream (fst (inner, plan)))) d) (in_stream (fst s))
      (in_stream (fst (snd (lift_send send_recv s)))) \<and> snd (snd (lift_send send_recv s)) = snd s"
    if "spacing_of (in_stream (fst s)) = spacing_of (in_stream (fst (inner, plan)))" for s :: "inner \<times> attempt list"
    using that assms(1) [of "fst s"] by (simp add: lift_send_def split_def Let_def)
  have sleep: "elapses t (in_stream (fst s)) (in_stream (fst (client_sleep t s))) \<and> snd (client_sleep t s) = snd s"
    for t and s :: "inner \<times> attempt list"
    by (simp add: client_sleep_def elapses_def split_def Let_def)
  from run_elapses [where st = "\<lambda>s. in_stream (fst s)" and plan = snd and ?s0.0 = "(inner, plan)" and err = Serial,
      OF send serial_rebuild_elapses sleep assms(2)]
  show ?thesis by (auto simp: serial_call_def)
qed

lemma rtu_call_elapses:
  assumes "retries_limited (cl_reconnect cl)"
  shows "\<exists>r inner' plan'. rtu_call cl slave req (inner, plan) = Some (r, inner', plan')
    \<and> opens_within (retries_of (cl_reconnect cl))
        (call_limit (cl_reconnect cl) (exchange_limit (spacing_of (in_stream inner)) (cl_timeout cl)))
        (in_stream inner, plan) (in_stream inner', plan')"
  unfolding rtu_call_def by (rule serial_call_elapses [OF rtu_exchange_elapses assms])

lemma ascii_call_elapses:
  assumes "retries_limited (cl_reconnect cl)"
  shows "\<exists>r inner' plan'. ascii_call cl slave req (inner, plan) = Some (r, inner', plan')
    \<and> opens_within (retries_of (cl_reconnect cl))
        (call_limit (cl_reconnect cl) (exchange_limit (spacing_of (in_stream inner)) (cl_timeout cl)))
        (in_stream inner, plan) (in_stream inner', plan')"
  unfolding ascii_call_def by (rule serial_call_elapses [OF ascii_exchange_elapses assms])

lemma tcp_call_elapses:
  assumes "retries_limited (tc_reconnect cl)"
  shows "\<exists>r inner' counter' plan'. tcp_call cl slave req ((inner, counter), plan) = Some (r, (inner', counter'), plan')
    \<and> opens_within (retries_of (tc_reconnect cl)) (call_limit (tc_reconnect cl) (exchange_limit 0 (tc_timeout cl)))
        (in_stream inner, plan) (in_stream inner', plan')"
proof -
  let ?st = "\<lambda>s :: (inner \<times> u16) \<times> attempt list. in_stream (fst (fst s))"
  let ?send = "\<lambda>(s, plan). let (r, s) = tcp_send_recv (tc_timeout cl) (tc_config cl) slave req s in (r, s, plan :: attempt list)"
  let ?sleep = "\<lambda>d ((inner, counter), plan).
      ((inner \<lparr> in_stream := (in_stream inner) \<lparr> clock := clock (in_stream inner) + d \<rparr> \<rparr>, counter), plan)"
  have send: "elapses (exchange_limit 0 (tc_timeout cl)) (?st s) (?st (snd (?send s))) \<and> snd (snd (?send s)) = snd s" for s
    using tcp_exchange_elapses [of "tc_timeout cl" "fst (fst s)" "tc_config cl" slave req "snd (fst s)"]
    by (simp add: split_def Let_def)
  have rebuild: "elapses (opening_time 1 (snd s)) (?st s) (?st (snd (tcp_rebuild cl s)))
      \<and> snd (snd (tcp_rebuild cl s)) = drop 1 (snd s)" for s
    by (cases s) (auto simp: tcp_rebuild_def elapses_def sniff_new_def spacing_of_def split: list.splits option.splits)
  have sleep: "elapses t (?st s) (?st (?sleep t s)) \<and> snd (?sleep t s) = snd s" for t s
    by (simp add: elapses_def split_def)
  from run_elapses [where st = ?st and plan = snd and ?s0.0 = "((inner, counter), plan)" and err = Connection,
      OF send rebuild sleep assms]
  show ?thesis by (auto simp: tcp_call_def)
qed

text \<open>A rebuilt TCP connection has channels of the default sizes, whatever the options said.\<close>

lemma tcp_rebuild_default_rooms:
  assumes "tcp_rebuild cl ((inner, counter), (took, Some conn) # plan) = (True, (inner', counter'), plan')"
  shows "data_room (hd (layers (in_stream inner'))) = DEFAULT_DATA_CHANNEL_CAPACITY"
    "tap_room (hd (layers (in_stream inner'))) = DEFAULT_TAP_CHANNEL_CAPACITY"
  using assms by (auto simp: tcp_rebuild_def sniff_new_def)


section \<open>Giving up, or not\<close>

text \<open>A failed attempt and a failed rebuild, before the third in a row.\<close>

lemma reconnect_loop_refused:
  assumes "send s = (Inl e, s1)" "is_retryable e" "rebuild (sleep (interval cfg) s1) = (False, s2)"
    and "\<not> (0 < max_retries cfg \<and> max_retries cfg < failures + 1)"
  shows "reconnect_loop cfg send rebuild sleep exceeded_err failures rf s =
     (if rf + 1 \<ge> 3 then Some (Inl (exceeded_err ''reconnect: transport rebuild failed 3 consecutive times''), s2)
      else reconnect_loop cfg send rebuild sleep exceeded_err (failures + 1) (rf + 1) s2)"
  using assms by (subst reconnect_loop.simps) auto

lemma reconnect_loop_gives_up:
  assumes limit: "max_retries cfg = 0 \<or> 3 \<le> max_retries cfg"
    and round: "\<And>k. k < 3 \<Longrightarrow> send (s k) = (Inl e, s' k) \<and> rebuild (sleep (interval cfg) (s' k)) = (False, s (Suc k))"
    and e: "is_retryable e"
  shows "reconnect_loop cfg send rebuild sleep err 0 0 (s 0) =
    Some (Inl (err ''reconnect: transport rebuild failed 3 consecutive times''), s 3)"
proof -
  have no_limit: "\<not> (0 < max_retries cfg \<and> max_retries cfg < f)" if "f \<le> 3" for f
    using limit that by auto
  have early: "\<not> (3 \<le> (1 :: u32))" "\<not> (3 \<le> (2 :: u32))" by (simp_all add: word_le_nat_alt)
  note refused = reconnect_loop_refused [where cfg = cfg and send = send and rebuild = rebuild and sleep = sleep and exceeded_err = err]
  have "reconnect_loop cfg send rebuild sleep err 0 0 (s 0) = reconnect_loop cfg send rebuild sleep err 1 1 (s (Suc 0))"
    using refused [OF _ e _ no_limit, of "s 0" "s' 0" "s (Suc 0)" 0 0] round [of 0] early by simp
  also have "\<dots> = reconnect_loop cfg send rebuild sleep err 2 2 (s (Suc (Suc 0)))"
    using refused [OF _ e _ no_limit, of "s (Suc 0)" "s' (Suc 0)" "s (Suc (Suc 0))" 1 1] round [of "Suc 0"] early by simp
  also have "\<dots> = Some (Inl (err ''reconnect: transport rebuild failed 3 consecutive times''), s 3)"
    using refused [OF _ e _ no_limit, of "s (Suc (Suc 0))" "s' (Suc (Suc 0))" "s 3" 2 2] round [of "Suc (Suc 0)"]
    by (simp add: numeral_3_eq_3)
  finally show ?thesis .
qed

text \<open>
  A server that is gone: every read of the old connection gives its end and no new one can be
  opened.  The client gives up after three attempts, also when its retries are said to be infinite
  (\<open>max_retries = 0\<close>).
\<close>

lemma tcp_gives_up:
  fixes inner :: inner and slave :: u8
  assumes cl: "tc_reconnect cl = Some cfg" and limit: "max_retries cfg = 0 \<or> 3 \<le> max_retries cfg"
    and dead: "arrivals (in_stream inner) = replicate 3 (0, Data []) @ rest" "tap_count (in_stream inner) = 0"
    and refused: "length openings = 3"
  shows "tcp_call cl slave req ((inner, counter), map (\<lambda>took. (took, None)) openings @ plan) =
    Some (Inl (Connection ''reconnect: transport rebuild failed 3 consecutive times''),
          (inner \<lparr> in_stream := (in_stream inner) \<lparr> arrivals := rest,
             clock := clock (in_stream inner) + 3 * interval cfg + sum_list openings \<rparr> \<rparr>, counter), plan)"
proof -
  let ?st = "in_stream inner"
  let ?at = "\<lambda>n k. ((inner \<lparr> in_stream := ?st \<lparr> arrivals := replicate n (0, Data []) @ rest,
      clock := clock ?st + k * interval cfg + sum_list (take k openings) \<rparr> \<rparr>, counter), map (\<lambda>took. (took, None)) (drop k openings) @ plan)"
  have drain: "drain_stale_data st = (Inl (Connection ''connection closed''), st \<lparr> arrivals := as \<rparr>)"
    if "arrivals st = (0, Data []) # as" "tap_count st = 0" for st as
    using that by (simp add: drain_stale_data_def read_timed_def read_event_def tap_count_def)
  have three: "3 - k = Suc (2 - k)" if "k < 3" for k :: nat using that by arith
  have start: "?at 3 0 = ((inner, counter), map (\<lambda>took. (took, None)) openings @ plan)" using dead(1) by simp
  have drained: "drain_stale_data (in_stream (fst (fst (?at (3 - k) k)))) =
      (Inl (Connection ''connection closed''), in_stream (fst (fst (?at (2 - k) k))))" if "k < 3" for k
    using that dead(2) by (subst drain [of _ "replicate (2 - k) (0, Data []) @ rest"]) (simp_all add: three tap_count_def)
  let ?send = "\<lambda>(s, plan). let (r, s) = tcp_send_recv (tc_timeout cl) (tc_config cl) slave req s in (r, s, plan)"
  let ?sleep = "\<lambda>d ((inner, counter), plan).
      ((inner \<lparr> in_stream := (in_stream inner) \<lparr> clock := clock (in_stream inner) + d \<rparr> \<rparr>, counter), plan)"
  have "reconnect_loop cfg ?send (tcp_rebuild cl) ?sleep Connection 0 0 (?at (3 - 0) 0) =
      Some (Inl (Connection ''reconnect: transport rebuild failed 3 consecutive times''), ?at (3 - 3) 3)"
  proof (rule reconnect_loop_gives_up [OF limit, where s = "\<lambda>k. ?at (3 - k) k" and s' = "\<lambda>k. ?at (2 - k) k"
        and e = "Connection ''connection closed''"])
    fix k :: nat
    assume k: "k < 3"
    have "?send (?at (3 - k) k) = (Inl (Connection ''connection closed''), ?at (2 - k) k)"
      using drained [OF k] by (simp add: tcp_send_recv_def)
    moreover have "drop k openings = openings ! k # drop (Suc k) openings" "take (Suc k) openings = take k openings @ [openings ! k]"
      using k refused by (simp_all add: Cons_nth_drop_Suc take_Suc_conv_app_nth)
    then have "tcp_rebuild cl (?sleep (interval cfg) (?at (2 - k) k)) = (False, ?at (3 - Suc k) (Suc k))"
      using k by (simp add: tcp_rebuild_def three ac_simps)
    ultimately show "?send (?at (3 - k) k) = (Inl (Connection ''connection closed''), ?at (2 - k) k)
        \<and> tcp_rebuild cl (?sleep (interval cfg) (?at (2 - k) k)) = (False, ?at (3 - Suc k) (Suc k))" ..
  qed simp
  with start refused show ?thesis by (simp add: tcp_call_def run_with_reconnect_def cl)
qed

text \<open>With no limit and a server that accepts connections and then fails, the call never returns.\<close>

lemma retries_forever:
  assumes "max_retries cfg = 0" and "\<And>s. \<exists>e s'. send s = (Inl e, s') \<and> is_retryable e" "\<And>s. fst (rebuild s)"
  shows "reconnect_loop cfg send rebuild sleep err failures rf s = None"
proof -
  let ?P = "\<lambda>(cfg :: ReconnectConfig) send rebuild (sleep :: nat \<Rightarrow> 's \<Rightarrow> 's) (err :: string \<Rightarrow> ModbusError) (failures :: u32) (rf :: u32) (s :: 's)
      (y :: (ModbusError + Response) \<times> 's).
    \<not> (max_retries cfg = 0 \<and> (\<forall>s. \<exists>e s'. send s = (Inl e, s') \<and> is_retryable e) \<and> (\<forall>s. fst (rebuild s)))"
  have "?P cfg send rebuild sleep err failures rf s y"
    if "reconnect_loop cfg send rebuild sleep err failures rf s = Some y" for y
  proof (rule reconnect_loop.raw_induct [where P = ?P, OF _ that], rule notI)
    fix loop cfg send rebuild sleep err failures rf s y
    assume IH: "\<And>cfg send rebuild sleep err failures rf s y. loop cfg send rebuild sleep err failures rf s = Some y \<Longrightarrow>
        ?P cfg send rebuild sleep err failures rf s y"
      and body: "(case send s of (result, s) \<Rightarrow> (case result of Inr rsp \<Rightarrow> Some (Inr rsp, s) | Inl e \<Rightarrow>
        (if \<not> is_retryable e then Some (Inl e, s)
        else if max_retries cfg > 0 \<and> failures + 1 > max_retries cfg
        then Some (Inl (err (''reconnect max_retries('' @ show_nat (unat (max_retries cfg)) @ '') exceeded: '' @ detail e)), s)
        else (case rebuild (sleep (interval cfg) s) of (rebuilt, s) \<Rightarrow>
          (if rebuilt then loop cfg send rebuild sleep err (failures + 1) 0 s
          else if rf + 1 \<ge> 3 then Some (Inl (err ''reconnect: transport rebuild failed 3 consecutive times''), s)
          else loop cfg send rebuild sleep err (failures + 1) (rf + 1) s))))) = Some y"
      and never: "max_retries cfg = 0 \<and> (\<forall>s. \<exists>e s'. send s = (Inl e, s') \<and> is_retryable e) \<and> (\<forall>s. fst (rebuild s))"
    obtain e s1 where "send s = (Inl e, s1)" "is_retryable e" using never by blast
    moreover obtain s2 where "rebuild (sleep (interval cfg) s1) = (True, s2)" using never by (metis prod.collapse)
    ultimately have "loop cfg send rebuild sleep err (failures + 1) 0 s2 = Some y" using body never by simp
    from IH [OF this] never show False by blast
  qed
  with assms show ?thesis by (cases "reconnect_loop cfg send rebuild sleep err failures rf s") blast+
qed

end
