(* ===== verification/Modbus_Setup.thy ===== *)
theory Modbus_Setup
  imports Modbus_Monitor Modbus_Deadlines
begin

text \<open>
  How the programs of \<open>examples/\<close> build their clients, on the connection or stream \<open>conn\<close> that is
  opened for them, and the reads of \<open>examples/bus_timing.rs\<close>; the limits this sets for their calls.
\<close>

section \<open>Clients with a tap\<close>

definition tapped_options :: "'tap \<Rightarrow> 'tap ClientOptions" where
  "tapped_options tap = opts_with_tap (opts_with_timeout options_default (from_secs 3)) tap"

definition bus_monitor_client :: "stream \<Rightarrow> tcp_client \<times> inner \<times> u16" where
  "bus_monitor_client conn = tcp_with_options conn (tapped_options bus_unbounded)"

definition all_function_codes_client :: "stream \<Rightarrow> tcp_client \<times> inner \<times> u16" where
  "all_function_codes_client conn = tcp_with_options conn (tapped_options bus_unbounded)"

definition custom_tap_client :: "stream \<Rightarrow> tcp_client \<times> inner \<times> u16" where
  "custom_tap_client conn = tcp_with_options conn (tapped_options byte_counter_new)"

definition ring_client :: "stream \<Rightarrow> tcp_client \<times> inner \<times> u16" where
  "ring_client conn = tcp_with_options conn (tapped_options (bus_bounded 100))"

definition file_client :: "stream \<Rightarrow> tcp_client \<times> inner \<times> u16" where
  "file_client conn = tcp_with_options conn (tapped_options (channel_spawn file_new))"

definition tcp_example_client :: "stream \<Rightarrow> tcp_client \<times> inner \<times> u16" where
  "tcp_example_client conn = tcp_with_options conn (tapped_options bus_unbounded)"

definition auto_tid_client :: "stream \<Rightarrow> tcp_client \<times> inner \<times> u16" where
  "auto_tid_client conn =
     (let (cl, state) = tcp_with_options conn (tapped_options bus_unbounded) in (tcp_with_config cl auto_tid_config, state))"

definition gateway_client :: "stream \<Rightarrow> tcp_client \<times> inner \<times> u16" where
  "gateway_client conn =
     (let (cl, state) = tcp_with_options conn (tapped_options bus_unbounded) in (tcp_with_config cl config_gateway, state))"

definition rtu_over_tcp_client :: "stream \<Rightarrow> client \<times> inner" where
  "rtu_over_tcp_client conn = rtu_with_options conn (tapped_options bus_unbounded)"

definition ascii_over_tcp_client :: "stream \<Rightarrow> client \<times> inner" where
  "ascii_over_tcp_client conn = ascii_with_options conn (tapped_options bus_unbounded)"

definition ascii_over_duplex_client :: "stream \<Rightarrow> client \<times> inner" where
  "ascii_over_duplex_client conn = ascii_with_options conn (tapped_options bus_unbounded)"

section \<open>Clients without a tap\<close>

definition custom_service_client :: "stream \<Rightarrow> tcp_client \<times> inner \<times> u16" where
  "custom_service_client conn = tcp_connect_with_timeout conn (from_secs 3)"

definition hook_demo_client :: "stream \<Rightarrow> tcp_client \<times> inner \<times> u16" where
  "hook_demo_client conn = tcp_connect_with_timeout conn (from_secs 3)"

definition rtu_over_duplex_client :: "stream \<Rightarrow> client \<times> inner" where
  "rtu_over_duplex_client conn = rtu_with_timeout conn (from_secs 3)"

text \<open>The three of \<open>examples/bus_timing.rs\<close>, with their reads.\<close>

definition untimed_client :: "stream \<Rightarrow> tcp_client \<times> inner \<times> u16" where
  "untimed_client conn = tcp_connect conn"

definition timed_options :: "BusTiming \<Rightarrow> 'tap ClientOptions" where
  "timed_options timing = opts_with_bus_timing (opts_with_timeout options_default (from_secs 3)) timing"

definition spaced_client :: "stream \<Rightarrow> tcp_client \<times> inner \<times> u16" where
  "spaced_client conn = (let timing = rtu_35t 9600 in tcp_with_options conn (timed_options timing :: unit ClientOptions))"

definition slow_client :: "stream \<Rightarrow> tcp_client \<times> inner \<times> u16" where
  "slow_client conn =
     (let timing = timing_custom (from_millis 50) in tcp_with_options conn (timed_options timing :: unit ClientOptions))"

definition bus_timing_reads :: "'s transport \<Rightarrow> 's transport \<Rightarrow> 's transport \<Rightarrow> ('s, unit) program" where
  "bus_timing_reads plain spaced slow =
     and_then (repeat_read plain 10) (\<lambda>_. and_then (repeat_read spaced 10) (\<lambda>_. repeat_read slow 5))"

section \<open>Clients that reconnect\<close>

definition poll_client :: "stream \<Rightarrow> tcp_client \<times> inner \<times> u16" where
  "poll_client conn = (let (cl, state) = tcp_connect conn in (tcp_with_reconnect cl 0 (from_millis 100), state))"

definition rtu_reconnect_client :: "stream \<Rightarrow> client \<times> inner" where
  "rtu_reconnect_client conn =
     (let (cl, inner) = rtu_with_timeout conn (from_secs 3) in (rtu_with_reconnect cl 3 (from_millis 100), inner))"

definition ascii_reconnect_client :: "stream \<Rightarrow> client \<times> inner" where
  "ascii_reconnect_client conn =
     (let (cl, inner) = ascii_with_timeout conn (from_secs 3) in (ascii_with_reconnect cl 3 (from_millis 100), inner))"


section \<open>What the clients are\<close>

lemmas setup_defs = tapped_options_def timed_options_def options_default_def opts_with_tap_def opts_with_timeout_def
  opts_with_bus_timing_def tcp_with_options_def tcp_connect_def tcp_connect_with_timeout_def tcp_connect_with_config_def
  tcp_with_config_def tcp_with_reconnect_def reconnect_new_def

text \<open>
  The clients of the read programs wait three seconds for an answer, do not reconnect, and carry
  the spacing for 9600 baud that is the default of the options.
\<close>

lemma tapped_clients:
  fixes conn :: stream
  assumes "out \<in> {bus_monitor_client conn, all_function_codes_client conn, custom_tap_client conn, ring_client conn,
      file_client conn, tcp_example_client conn, auto_tid_client conn, gateway_client conn}"
  shows "tc_timeout (fst out) = from_secs 3" "tc_reconnect (fst out) = None" "tc_tap (fst out)"
    "tc_bus_timing (fst out) = Some (rtu_35t 9600)" "tap_count (in_stream (fst (snd out))) = Suc (tap_count conn)"
    "snd (snd out) = 1"
  using assms
  by (auto simp: setup_defs bus_monitor_client_def all_function_codes_client_def custom_tap_client_def ring_client_def
      file_client_def tcp_example_client_def auto_tid_client_def gateway_client_def Let_def inner_new_def sniff_new_def tap_count_def)

lemma client_configs:
  "tc_config (fst (bus_monitor_client conn)) = config_default" "tc_config (fst (tcp_example_client conn)) = config_default"
  "tc_config (fst (auto_tid_client conn)) = auto_tid_config" "tc_config (fst (gateway_client conn)) = config_gateway"
  by (simp_all add: setup_defs bus_monitor_client_def tcp_example_client_def auto_tid_client_def gateway_client_def Let_def)

text \<open>Each of their calls returns within 6.201 seconds, on any line.\<close>

lemma tapped_call_in_time:
  fixes conn :: stream and counter :: u16
  assumes "out \<in> {bus_monitor_client conn, all_function_codes_client conn, custom_tap_client conn, ring_client conn,
      file_client conn, tcp_example_client conn, auto_tid_client conn, gateway_client conn}"
  shows "\<exists>r inner' counter' plan'. tcp_call (fst out) slave req ((inner, counter), plan) = Some (r, (inner', counter'), plan')
    \<and> clock (in_stream inner') \<le> clock (in_stream inner) + from_millis 6201"
proof -
  have "retries_limited (tc_reconnect (fst out))" by (simp add: retries_limited_def tapped_clients(2) [OF assms])
  from tcp_call_elapses [OF this, of slave req inner counter plan] show ?thesis
    by (auto simp: retries_of_def call_limit_def exchange_limit_def tapped_clients(1,2) [OF assms] from_millis_def from_secs_def
        dest!: opens_within_bound)
qed

lemma poll_client_setup:
  "tc_timeout (fst (poll_client conn)) = from_secs 5" "tc_reconnect (fst (poll_client conn)) = Some (reconnect_new 0 (from_millis 100))"
  by (simp_all add: setup_defs poll_client_def Let_def)

text \<open>
  When its server is gone, a call of the polling client gives up after 300 ms and the time that its
  three attempts to connect took.
\<close>

lemma poll_client_gives_up:
  fixes inner :: inner
  assumes "arrivals (in_stream inner) = replicate 3 (0, Data []) @ rest" "tap_count (in_stream inner) = 0"
    and "length openings = 3"
  shows "\<exists>inner'. tcp_call (fst (poll_client conn)) slave req ((inner, counter), map (\<lambda>took. (took, None)) openings @ plan) =
      Some (Inl (Connection ''reconnect: transport rebuild failed 3 consecutive times''), (inner', counter), plan)
    \<and> clock (in_stream inner') = clock (in_stream inner) + from_millis 300 + sum_list openings"
  using tcp_gives_up [OF poll_client_setup(2) _ assms, where slave = slave and req = req and counter = counter and plan = plan]
  by (simp add: reconnect_new_def from_millis_def)

text \<open>The reads of \<open>examples/bus_timing.rs\<close> succeed over any three links to its server.\<close>

lemma bus_timing_reads_everywhere:
  assumes "link_of store_service timeout pieces plain" "link_of store_service timeout' pieces' spaced"
    and "link_of store_service timeout'' pieces'' slow"
  shows "fst (bus_timing_reads plain spaced slow (with_holding_registers [(0, 42)])) = Inr ()"
proof -
  have "simulates store_memory (bus_timing_reads plain spaced slow) (bus_timing_reads memory_transport memory_transport memory_transport)"
    unfolding bus_timing_reads_def
    by (intro sim_and_then repeat_read_sim [OF assms(1)] repeat_read_sim [OF assms(2)] repeat_read_sim [OF assms(3)])
  from store_run [OF this with_holding_registers_memory(2)]
  have "fst (bus_timing_reads plain spaced slow (with_holding_registers [(0, 42)])) =
      fst (bus_timing_reads memory_transport memory_transport memory_transport (abs_store (with_holding_registers [(0, 42)])))" by blast
  then show ?thesis by (simp add: bus_timing_reads_def and_then_def repeat_read_memory)
qed

end
