(* ===== verification/Modbus_Debug.thy ===== *)
theory Modbus_Debug
  imports Modbus_Tcp Modbus_Timestamp
begin

text \<open>
  The \<open>Debug\<close> output of the three clients (\<open>src/transport/rtu.rs\<close>, \<open>ascii.rs\<close>, \<open>tcp.rs\<close>), and of a
  duration as the standard library writes it: in the largest unit that gives a whole part, with as
  many decimals as it takes; the decimals determine the rest.
\<close>

section \<open>Durations\<close>

text \<open>The decimals of \<open>rem\<close> in units of which \<open>10 * divisor\<close> make a whole, up to the last that is not 0.\<close>

fun decimals :: "nat \<Rightarrow> nat \<Rightarrow> string" where
  "decimals rem divisor =
     (if rem = 0 \<or> divisor = 0 then [] else digit_char (rem div divisor) # decimals (rem mod divisor) (divisor div 10))"

declare decimals.simps [simp del]

definition fmt_decimal :: "nat \<Rightarrow> nat \<Rightarrow> nat \<Rightarrow> string \<Rightarrow> string" where
  "fmt_decimal whole rem divisor postfix =
     show_nat whole @ (if rem = 0 then [] else ''.'' @ decimals rem divisor) @ postfix"

text \<open>The sign of a micrometre, in UTF-8.\<close>

definition micro :: string where "micro = [CHR 0xC2, CHR 0xB5]"

definition debug_duration :: "duration \<Rightarrow> string" where
  "debug_duration d =
     (let secs = d div 10 ^ 9; nanos = d mod 10 ^ 9
      in if secs > 0 then fmt_decimal secs nanos (10 ^ 8) ''s''
         else if nanos \<ge> 10 ^ 6 then fmt_decimal (nanos div 10 ^ 6) (nanos mod 10 ^ 6) (10 ^ 5) ''ms''
         else if nanos \<ge> 1000 then fmt_decimal (nanos div 1000) (nanos mod 1000) 100 (micro @ ''s'')
         else fmt_decimal nanos 0 1 ''ns'')"

text \<open>Reading decimals back.\<close>

fun read_decimals :: "string \<Rightarrow> nat \<Rightarrow> nat" where
  "read_decimals [] divisor = 0"
| "read_decimals (c # cs) divisor = digit_value c * divisor + read_decimals cs (divisor div 10)"

lemma read_decimals_of:
  "rem < 10 * 10 ^ k \<Longrightarrow> read_decimals (decimals rem (10 ^ k)) (10 ^ k) = rem"
proof (induction k arbitrary: rem)
  case 0
  then show ?case by (subst decimals.simps) (simp add: digit_value_char decimals.simps [of 0])
next
  case (Suc k)
  let ?d = "10 ^ Suc k :: nat"
  have "?d = 10 * 10 ^ k" by simp
  then have d: "?d div 10 = 10 ^ k" "?d \<noteq> 0" "rem mod ?d < 10 * 10 ^ k" by simp_all
  have digit: "rem div ?d < 10" using Suc.prems by (intro less_mult_imp_div_less) simp
  show ?case
  proof (cases "rem = 0")
    case False
    then have "decimals rem ?d = digit_char (rem div ?d) # decimals (rem mod ?d) (10 ^ k)"
      using d by (subst decimals.simps) (simp del: power_Suc)
    then have "read_decimals (decimals rem ?d) ?d = rem div ?d * ?d + rem mod ?d"
      using d Suc.IH [OF d(3)] digit by (simp del: power_Suc add: digit_value_char)
    also have "\<dots> = rem" by (rule div_mult_mod_eq)
    finally show ?thesis .
  qed (simp add: decimals.simps [of 0])
qed

section \<open>The clients\<close>

text \<open>\<open>f.debug_struct(name)\<close> with its fields, on one line.\<close>

fun debug_fields :: "(string \<times> string) list \<Rightarrow> string" where
  "debug_fields [] = ''''"
| "debug_fields [(name, value)] = name @ '': '' @ value"
| "debug_fields ((name, value) # rest) = name @ '': '' @ value @ '', '' @ debug_fields rest"

definition debug_struct :: "string \<Rightarrow> (string \<times> string) list \<Rightarrow> string" where
  "debug_struct name fs = (if fs = [] then name else name @ '' { '' @ debug_fields fs @ '' }'')"

definition debug_reconnect :: "ReconnectConfig option \<Rightarrow> (string \<times> string) list" where
  "debug_reconnect cfg =
     (case cfg of
        Some cfg \<Rightarrow> [(''reconnect_max_retries'', show_nat (unat (max_retries cfg))),
                     (''reconnect_interval'', debug_duration (interval cfg))]
      | None \<Rightarrow> [])"

definition debug_rtu_client :: "client \<Rightarrow> string" where
  "debug_rtu_client cl =
     debug_struct ''RtuClient'' ((''timeout'', debug_duration (cl_timeout cl)) # debug_reconnect (cl_reconnect cl))"

definition debug_ascii_client :: "client \<Rightarrow> string" where
  "debug_ascii_client cl =
     debug_struct ''AsciiClient'' ((''timeout'', debug_duration (cl_timeout cl)) # debug_reconnect (cl_reconnect cl))"

text \<open>The socket address is printed by the standard library.\<close>

definition debug_tcp_client :: "string \<Rightarrow> tcp_client \<Rightarrow> string" where
  "debug_tcp_client addr cl =
     debug_struct ''TcpClient''
       ([(''addr'', addr), (''timeout'', debug_duration (tc_timeout cl))] @ debug_reconnect (tc_reconnect cl))"

text \<open>An RTU client with a timeout of three seconds that reconnects three times every 100 ms.\<close>

lemma debug_rtu_client_example:
  "debug_rtu_client \<lparr> cl_timeout = from_secs 3, cl_reconnect = Some (reconnect_new 3 (from_millis 100)),
       cl_bus_timing = None, cl_tap = False \<rparr> =
     ''RtuClient { timeout: 3s, reconnect_max_retries: 3, reconnect_interval: 100ms }''"
  by (simp add: debug_rtu_client_def debug_struct_def debug_reconnect_def reconnect_new_def debug_duration_def
      fmt_decimal_def from_secs_def from_millis_def show_nat.simps digit_char_def char_of_def bit_0)

lemma debug_duration_examples:
  "debug_duration (from_micros 4010) = ''4.01ms''"
  "debug_duration (from_millis 1500) = ''1.5s''"
  "debug_duration 0 = ''0ns''"
  by (simp_all add: debug_duration_def fmt_decimal_def from_micros_def from_millis_def decimals.simps show_nat.simps
      digit_char_def char_of_def bit_0)

end
