(* ===== verification/Modbus_Listener.thy ===== *)
theory Modbus_Listener
  imports Modbus_Tcp "HOL-Library.Sublist"
begin

text \<open>
  \<open>TcpServer::serve_forever\<close> and \<open>handle_tcp_connection\<close> of \<open>src/transport/tcp.rs\<close> with any
  number of connections over one shared store.  A connection is a task; between two of its turns
  any other task may run.  A turn is what happens under one lock of the store, or one decoded
  frame, or one reply written.  Function 23 holds the lock twice, once to read and once to write;
  every other request holds it once.  The lemmas show that whatever the interleaving the store is
  what the requests leave behind when they are executed one after the other, and that the
  sequential handler is one of the interleavings.  Sockets and the spawning of a task are what
  \<open>accept\<close> and \<open>receive\<close> stand for; the response buffer, cleared before each use, is left out.
\<close>

section \<open>A call of the store, lock by lock\<close>

datatype store_call_state =
    Called Request
  | HalfDone "u16 list" u16 "u16 list"  \<comment> \<open>registers read, write address, values\<close>
  | Returned "Exception + Response"

definition store_section :: "store_call_state \<Rightarrow> SlaveStore \<Rightarrow> store_call_state \<times> SlaveStore" where
  "store_section cs s =
     (case cs of
        Called req \<Rightarrow>
          (case req of
             Request.ReadWriteMultipleRegisters read_addr read_qty write_addr values \<Rightarrow>
               (HalfDone (read_holding_range s read_addr read_qty) write_addr values, s)
           | _ \<Rightarrow> (let (r, s) = store_call s req in (Returned r, s)))
      | HalfDone regs write_addr values \<Rightarrow>
          (Returned (Inr (Response.ReadWriteMultipleRegisters regs)),
           s \<lparr> holding_registers := put_regs (holding_registers s) (unat write_addr) values \<rparr>)
      | Returned r \<Rightarrow> (Returned r, s))"

section \<open>A connection\<close>

datatype phase =
    Reading
  | Parsing
  | Calling u16 u8 nat Request store_call_state  \<comment> \<open>transaction, unit, bytes of the frame, request\<close>

record connection =
  cn_buf :: bytes
  cn_phase :: phase
  cn_out :: "bytes list"
  cn_writes :: "write_result list"
  cn_status :: serve_status

definition connection_new :: "write_result list \<Rightarrow> connection" where
  "connection_new plan =
     \<lparr> cn_buf = [], cn_phase = Reading, cn_out = [], cn_writes = plan, cn_status = Serving \<rparr>"

text \<open>The read at the head of the loop.\<close>

definition connection_receive :: "poll_result \<Rightarrow> connection \<Rightarrow> connection" where
  "connection_receive ev c =
     (if cn_status c \<noteq> Serving \<or> cn_phase c \<noteq> Reading then c
      else case ev of
        Got bs \<Rightarrow> (if bs = [] then c \<lparr> cn_status := Closed \<rparr>
                   else c \<lparr> cn_buf := cn_buf c @ bs, cn_phase := Parsing \<rparr>)
      | Failed e \<Rightarrow> c \<lparr> cn_status := Closed \<rparr>
      | Elapsed \<Rightarrow> c)"

definition connection_skip :: "nat \<Rightarrow> connection \<Rightarrow> connection" where
  "connection_skip consumed c = c \<lparr> cn_buf := drop consumed (cn_buf c), cn_phase := Parsing \<rparr>"

text \<open>\<open>sniff.write_all(&frame_buf)\<close> and what follows it.\<close>

definition connection_reply :: "bytes \<Rightarrow> nat \<Rightarrow> connection \<Rightarrow> connection" where
  "connection_reply frame consumed c =
     (let plan = (case cn_writes c of [] \<Rightarrow> Written | w # _ \<Rightarrow> w);
          c = c \<lparr> cn_writes := tl (cn_writes c) \<rparr>
      in case plan of
           Written \<Rightarrow> connection_skip consumed (c \<lparr> cn_out := cn_out c @ [frame] \<rparr>)
         | WriteFail e \<Rightarrow> c \<lparr> cn_phase := Reading, cn_status := Closed \<rparr>
         | WriteStall \<Rightarrow> c \<lparr> cn_phase := Reading, cn_status := Blocked \<rparr>)"

definition connection_turn :: "TcpConfig \<Rightarrow> connection \<Rightarrow> SlaveStore \<Rightarrow> connection \<times> SlaveStore" where
  "connection_turn config c s =
     (if cn_status c \<noteq> Serving then (c, s)
      else case cn_phase c of
        Reading \<Rightarrow> (c, s)
      | Parsing \<Rightarrow>
          (case try_parse_tcp_frame (cn_buf c) of
             None \<Rightarrow>
               (if is_tcp_header_corrupt (cn_buf c) \<or> length (cn_buf c) > MAX_TCP_BUF_BYTES
                then c \<lparr> cn_buf := [], cn_phase := Reading \<rparr> else c \<lparr> cn_phase := Reading \<rparr>, s)
           | Some (tid, slave_id, pdu, consumed) \<Rightarrow>
               (if slave_id = 0 \<or> pdu = [] then (connection_skip consumed c, s)
                else case request_try_from pdu of
                  Panic \<Rightarrow> (c \<lparr> cn_status := Panicked \<rparr>, s)
                | Err e \<Rightarrow> (connection_skip consumed c, s)
                | Ok req \<Rightarrow> (c \<lparr> cn_phase := Calling tid slave_id consumed req (Called req) \<rparr>, s)))
      | Calling tid slave_id consumed req cs \<Rightarrow>
          (case cs of
             Returned r \<Rightarrow>
               (case encode_response_into (reply_of req r) (put_u8 [] slave_id) of
                  (Inl _, rsp_buf) \<Rightarrow> (connection_skip consumed c, s)
                | (Inr _, rsp_buf) \<Rightarrow> (connection_reply (tcp_frame config tid rsp_buf) consumed c, s))
           | _ \<Rightarrow>
               (let (cs, s) = store_section cs s
                in (c \<lparr> cn_phase := Calling tid slave_id consumed req cs \<rparr>, s))))"

section \<open>The listener\<close>

record listener =
  ls_store :: SlaveStore
  ls_conns :: "connection list"

text \<open>A request's effect on the store: connection, transaction, unit, request, result.\<close>

type_synonym commit = "nat \<times> u16 \<times> u8 \<times> Request \<times> (Exception + Response)"

definition commit_of :: "nat \<Rightarrow> connection \<Rightarrow> connection \<Rightarrow> commit list" where
  "commit_of i c c' =
     (case (cn_phase c, cn_phase c') of
        (Calling _ _ _ _ cs, Calling tid slave_id _ req (Returned r)) \<Rightarrow>
          (case cs of Returned _ \<Rightarrow> [] | _ \<Rightarrow> [(i, tid, slave_id, req, r)])
      | _ \<Rightarrow> [])"

text \<open>
  \<open>listens config s0 l log\<close>: from the store \<open>s0\<close> and no connection the listener \<open>l\<close> is reached,
  and \<open>log\<close> are the requests in the order in which each made its (last) change to the store.
\<close>

inductive listens :: "TcpConfig \<Rightarrow> SlaveStore \<Rightarrow> listener \<Rightarrow> commit list \<Rightarrow> bool"
  for config :: TcpConfig and s0 :: SlaveStore
where
  start: "listens config s0 \<lparr> ls_store = s0, ls_conns = [] \<rparr> []"
| accept: "listens config s0 (l \<lparr> ls_conns := ls_conns l @ [connection_new plan] \<rparr>) log"
    if "listens config s0 l log"
| receive: "listens config s0 (l \<lparr> ls_conns := (ls_conns l)[i := connection_receive ev (ls_conns l ! i)] \<rparr>) log"
    if "listens config s0 l log" "i < length (ls_conns l)"
| turn: "listens config s0 (l \<lparr> ls_store := s, ls_conns := (ls_conns l)[i := c] \<rparr>) (log @ commit_of i (ls_conns l ! i) c)"
    if "listens config s0 l log" "i < length (ls_conns l)"
      "connection_turn config (ls_conns l ! i) (ls_store l) = (c, s)"

section \<open>Sections of a call\<close>

definition is_fc23 :: "Request \<Rightarrow> bool" where
  "is_fc23 req \<longleftrightarrow> (\<exists>ra q wa vs. req = Request.ReadWriteMultipleRegisters ra q wa vs)"

lemma store_section_simps [simp]:
  "\<not> is_fc23 req \<Longrightarrow> store_section (Called req) s = (Returned (fst (store_call s req)), snd (store_call s req))"
  "store_section (Called (Request.ReadWriteMultipleRegisters ra q wa vs)) s = (HalfDone (read_holding_range s ra q) wa vs, s)"
  "store_section (HalfDone regs wa vs) s =
     (Returned (Inr (Response.ReadWriteMultipleRegisters regs)),
      s \<lparr> holding_registers := put_regs (holding_registers s) (unat wa) vs \<rparr>)"
  "store_section (Returned r) s = (Returned r, s)"
  by (simp_all add: store_section_def is_fc23_def Let_def split: Request.splits prod.splits)


text \<open>A call that runs through without a pause is the sequential call.\<close>

lemma store_sections_call:
  "(case store_section (Called req) s of (cs, s) \<Rightarrow> store_section cs s)
     = (Returned (fst (store_call s req)), snd (store_call s req))"
  by (cases "is_fc23 req") (auto simp: is_fc23_def)

section \<open>The requests in order\<close>

text \<open>The store after the logged requests, executed one after the other.\<close>

definition replay :: "SlaveStore \<Rightarrow> commit list \<Rightarrow> SlaveStore" where
  "replay s0 log = fold (\<lambda>(i, tid, slave_id, req, r) s. snd (store_call s req)) log s0"

lemma replay_simps [simp]:
  "replay s0 [] = s0"
  "replay s0 (log @ [(i, tid, sl, req, r)]) = snd (store_call (replay s0 log) req)"
  by (simp_all add: replay_def)

text \<open>The frames that answer the requests of connection \<open>i\<close>.\<close>

definition reply_frame :: "TcpConfig \<Rightarrow> u16 \<Rightarrow> u8 \<Rightarrow> Request \<Rightarrow> Exception + Response \<Rightarrow> bytes" where
  "reply_frame config tid slave_id req r = tcp_frame config tid (slave_id # response_pdu (reply_of req r))"

definition replies :: "TcpConfig \<Rightarrow> nat \<Rightarrow> commit list \<Rightarrow> bytes list" where
  "replies config i log =
     map (\<lambda>(j, tid, slave_id, req, r). reply_frame config tid slave_id req r) (filter (\<lambda>e. fst e = i) log)"

lemma replies_append [simp]: "replies config i (log @ log') = replies config i log @ replies config i log'"
  by (simp add: replies_def)

lemma replies_own: "replies config i [(j, tid, sl, req, r)] = (if i = j then [reply_frame config tid sl req r] else [])"
  by (simp add: replies_def)

text \<open>
  A logged result is what the store of some moment gives: the moment of the entry itself, or,
  for function 23, an earlier one that no entry of the same connection separates from it.
\<close>

definition result_at :: "SlaveStore \<Rightarrow> commit list \<Rightarrow> nat \<Rightarrow> Request \<Rightarrow> Exception + Response \<Rightarrow> bool" where
  "result_at s0 log i req r \<longleftrightarrow>
     (if is_fc23 req
      then \<exists>j \<le> length log. i \<notin> fst ` set (drop j log) \<and> r = fst (store_call (replay s0 (take j log)) req)
      else r = fst (store_call (replay s0 log) req))"

definition log_ok :: "SlaveStore \<Rightarrow> commit list \<Rightarrow> bool" where
  "log_ok s0 log \<longleftrightarrow>
     (\<forall>k < length log. case log ! k of (i, tid, slave_id, req, r) \<Rightarrow>
        slave_id \<noteq> 0 \<and> request_legal req \<and> result_at s0 (take k log) i req r)"

lemma log_ok_Nil [simp]: "log_ok s0 []"
  by (simp add: log_ok_def)

lemma log_ok_snoc:
  "log_ok s0 log \<Longrightarrow> sl \<noteq> 0 \<Longrightarrow> request_legal req \<Longrightarrow> result_at s0 log i req r \<Longrightarrow>
     log_ok s0 (log @ [(i, tid, sl, req, r)])"
  by (auto simp: log_ok_def nth_append less_Suc_eq)

section \<open>What a connection keeps\<close>

definition call_ok :: "SlaveStore \<Rightarrow> commit list \<Rightarrow> nat \<Rightarrow> Request \<Rightarrow> store_call_state \<Rightarrow> bool" where
  "call_ok s0 log i req cs =
     (case cs of
        Called q \<Rightarrow> q = req
      | HalfDone regs wa vs \<Rightarrow>
          \<exists>ra q j. req = Request.ReadWriteMultipleRegisters ra q wa vs \<and> j \<le> length log
            \<and> i \<notin> fst ` set (drop j log) \<and> regs = read_holding_range (replay s0 (take j log)) ra q
      | Returned r \<Rightarrow> \<exists>s. r = fst (store_call s req))"

definition conn_ok :: "TcpConfig \<Rightarrow> SlaveStore \<Rightarrow> commit list \<Rightarrow> nat \<Rightarrow> connection \<Rightarrow> bool" where
  "conn_ok config s0 log i c =
     (if cn_status c \<noteq> Serving
      then \<exists>lost. replies config i log = cn_out c @ lost \<and> length lost \<le> 1
      else case cn_phase c of
        Calling tid slave_id n req cs \<Rightarrow>
          slave_id \<noteq> 0 \<and> request_legal req \<and> call_ok s0 log i req cs
          \<and> replies config i log =
              cn_out c @ (case cs of Returned r \<Rightarrow> [reply_frame config tid slave_id req r] | _ \<Rightarrow> [])
      | _ \<Rightarrow> replies config i log = cn_out c)"

text \<open>Another connection's entry changes nothing of it.\<close>

lemma call_ok_other:
  assumes "call_ok s0 log i req cs" "i \<noteq> j"
  shows "call_ok s0 (log @ [(j, rest)]) i req cs"
proof (cases cs)
  case (HalfDone regs wa vs)
  with assms(1) obtain ra q k where
    "req = Request.ReadWriteMultipleRegisters ra q wa vs" "k \<le> length log"
    "i \<notin> fst ` set (drop k log)" "regs = read_holding_range (replay s0 (take k log)) ra q"
    by (auto simp: call_ok_def)
  with assms(2) show ?thesis
    unfolding HalfDone call_ok_def by (auto intro!: exI [of _ k])
qed (use assms(1) in \<open>simp_all add: call_ok_def\<close>)

lemma conn_ok_other:
  assumes "conn_ok config s0 log i c" "i \<noteq> j"
  shows "conn_ok config s0 (log @ [(j, rest)]) i c"
proof -
  have "replies config i [(j, rest)] = []" using assms(2) by (simp add: replies_def)
  with assms call_ok_other [OF _ assms(2)] show ?thesis
    by (auto simp: conn_ok_def split: phase.splits)
qed

section \<open>One turn\<close>

lemma commit_of_simps [simp]:
  "commit_of i c c = []"
  "cn_phase c = Reading \<Longrightarrow> commit_of i c c' = []" "cn_phase c = Parsing \<Longrightarrow> commit_of i c c' = []"
  "cn_phase c' = Parsing \<Longrightarrow> commit_of i c c' = []" "cn_phase c' = Reading \<Longrightarrow> commit_of i c c' = []"
  by (auto simp: commit_of_def split: phase.splits store_call_state.splits)

lemma reply_fits_of_call: "request_legal req \<Longrightarrow> response_fits (reply_of req (fst (store_call s req)))"
  using store_call_response_fits [of req s] by (auto simp: reply_of_def split: sum.splits)

lemma encode_reply:
  assumes "request_legal req" "r = fst (store_call s req)"
  shows "encode_response_into (reply_of req r) (put_u8 [] sl) = (Inr (), sl # response_pdu (reply_of req r))"
  using encode_response_into_fits [OF reply_fits_of_call [OF assms(1), of s], of "[sl]"] assms(2)
  by (simp add: put_u8_def)

lemma connection_reply_cases:
  "connection_reply frame n c = connection_skip n (c \<lparr> cn_writes := tl (cn_writes c), cn_out := cn_out c @ [frame] \<rparr>)
   \<or> (\<exists>e \<in> {Closed, Blocked}. connection_reply frame n c = c \<lparr> cn_writes := tl (cn_writes c), cn_phase := Reading, cn_status := e \<rparr>)"
  by (simp add: connection_reply_def Let_def split: write_result.split)

lemma skip_simps [simp]:
  "cn_phase (connection_skip n c) = Parsing" "cn_status (connection_skip n c) = cn_status c"
  "cn_out (connection_skip n c) = cn_out c"
  by (simp_all add: connection_skip_def)

text \<open>A turn of parsing touches neither the store nor the output.\<close>

lemma parsing_turn:
  assumes "connection_turn config c s = (c', s')" "cn_phase c = Parsing" "cn_status c = Serving"
  shows "s' = s \<and> cn_out c' = cn_out c \<and> cn_status c' = Serving
    \<and> (cn_phase c' = Reading \<or> cn_phase c' = Parsing
        \<or> (\<exists>tid sl n req. cn_phase c' = Calling tid sl n req (Called req) \<and> sl \<noteq> 0 \<and> request_legal req))"
  using assms request_try_from_legal
  by (auto simp: connection_turn_def request_try_from_not_Panic
      split: option.splits prod.splits if_splits outcome.splits)

lemma parsing_turn_ok:
  assumes "connection_turn config c s = (c', s')" "cn_phase c = Parsing" "cn_status c = Serving"
    and "conn_ok config s0 log i c"
  shows "conn_ok config s0 log i c' \<and> s' = s"
  using parsing_turn [OF assms(1-3)] assms(2-4) by (auto simp: conn_ok_def call_ok_def)

lemma reply_turn_ok:
  assumes "connection_turn config c s = (c', s')" "cn_phase c = Calling tid sl n req (Returned r)"
    and "cn_status c = Serving" "conn_ok config s0 log i c"
  shows "conn_ok config s0 log i c' \<and> s' = s \<and> commit_of i c c' = []"
proof -
  from assms(2-4) obtain st where legal: "request_legal req" and r: "r = fst (store_call st req)"
    and out: "replies config i log = cn_out c @ [reply_frame config tid sl req r]"
    by (auto simp: conn_ok_def call_ok_def)
  from assms(1-3) encode_reply [OF legal r, of sl]
  have c': "c' = connection_reply (reply_frame config tid sl req r) n c" and "s' = s"
    by (simp_all add: connection_turn_def reply_frame_def)
  with connection_reply_cases [of "reply_frame config tid sl req r" n c] assms(3) out
  show ?thesis by (auto simp: conn_ok_def)
qed

lemma result_at_now: "\<not> is_fc23 req \<Longrightarrow> result_at s0 log i req (fst (store_call (replay s0 log) req))"
  by (simp add: result_at_def)

text \<open>A turn under the store's lock: a request without a pause, or the halves of function 23.\<close>

lemma section_turn:
  assumes "connection_turn config c s = (c', s')" "cn_phase c = Calling tid sl n req cs"
    and "cn_status c = Serving" "\<nexists>r. cs = Returned r"
  shows "c' = c \<lparr> cn_phase := Calling tid sl n req (fst (store_section cs s)) \<rparr> \<and> s' = snd (store_section cs s)"
  using assms by (auto simp: connection_turn_def Let_def split: store_call_state.splits prod.splits)

lemma section_turn_ok:
  assumes turn: "connection_turn config c (replay s0 log) = (c', s')" and phase: "cn_phase c = Calling tid sl n req cs"
    and serving: "cn_status c = Serving" and cs: "\<nexists>r. cs = Returned r"
    and ok: "conn_ok config s0 log i c" and log: "log_ok s0 log"
  shows "conn_ok config s0 (log @ commit_of i c c') i c' \<and> s' = replay s0 (log @ commit_of i c c')
    \<and> log_ok s0 (log @ commit_of i c c')"
proof -
  from ok phase serving have sl: "sl \<noteq> 0" and legal: "request_legal req" and call: "call_ok s0 log i req cs"
    by (simp_all add: conn_ok_def)
  have out: "replies config i log = cn_out c"
    using ok phase serving cs by (auto simp: conn_ok_def split: store_call_state.splits)
  have c': "c' = c \<lparr> cn_phase := Calling tid sl n req (fst (store_section cs (replay s0 log))) \<rparr>"
    and s': "s' = snd (store_section cs (replay s0 log))"
    using section_turn [OF turn phase serving cs] by simp_all
  have commit: ?thesis
    if sec: "store_section cs (replay s0 log) = (Returned r, snd (store_call (replay s0 log) req))"
      and r: "result_at s0 log i req r" "r = fst (store_call st req)" for r st
  proof -
    have "commit_of i c c' = [(i, tid, sl, req, r)]"
      using c' phase cs sec by (auto simp: commit_of_def split: store_call_state.splits)
    with c' s' sec r sl legal out log serving show ?thesis
      by (auto simp: conn_ok_def call_ok_def replies_own intro: log_ok_snoc)
  qed
  show ?thesis
  proof (cases cs)
    case (Called q)
    with call have q: "cs = Called req" by (simp add: call_ok_def)
    show ?thesis
    proof (cases "is_fc23 req")
      case True
      then obtain ra q wa vs where req: "req = Request.ReadWriteMultipleRegisters ra q wa vs"
        by (auto simp: is_fc23_def)
      with q have "store_section cs (replay s0 log) = (HalfDone (read_holding_range (replay s0 log) ra q) wa vs, replay s0 log)"
        by simp
      with c' s' have c': "c' = c \<lparr> cn_phase := Calling tid sl n req (HalfDone (read_holding_range (replay s0 log) ra q) wa vs) \<rparr>"
        and s': "s' = replay s0 log" by simp_all
      have "commit_of i c c' = []" using phase c' by (simp add: commit_of_def)
      with c' s' req sl legal out log serving show ?thesis
        by (auto simp: conn_ok_def call_ok_def intro!: exI [of _ "length log"])
    next
      case False
      with q show ?thesis by (intro commit [OF _ result_at_now]) auto
    qed
  next
    case (HalfDone regs wa vs)
    with call obtain ra q j where req: "req = Request.ReadWriteMultipleRegisters ra q wa vs"
      and j: "j \<le> length log" "i \<notin> fst ` set (drop j log)" "regs = read_holding_range (replay s0 (take j log)) ra q"
      by (auto simp: call_ok_def)
    define r where "r = fst (store_call (replay s0 (take j log)) req)"
    have "store_section cs (replay s0 log) = (Returned r, snd (store_call (replay s0 log) req))"
      using HalfDone req j by (simp add: r_def)
    moreover have "result_at s0 log i req r"
      using req j by (auto simp: result_at_def is_fc23_def r_def)
    ultimately show ?thesis by (rule commit) (simp add: r_def)
  next
    case (Returned r)
    with cs show ?thesis by blast
  qed
qed

text \<open>Every turn.\<close>

lemma turn_ok:
  assumes "connection_turn config c (replay s0 log) = (c', s')" "conn_ok config s0 log i c" "log_ok s0 log"
  shows "conn_ok config s0 (log @ commit_of i c c') i c' \<and> s' = replay s0 (log @ commit_of i c c')
    \<and> log_ok s0 (log @ commit_of i c c')"
proof (cases "cn_status c = Serving")
  case True
  show ?thesis
  proof (cases "cn_phase c")
    case Reading
    with assms True show ?thesis by (auto simp: connection_turn_def)
  next
    case Parsing
    with parsing_turn_ok [OF assms(1) _ True assms(2)] assms(3) show ?thesis by simp
  next
    case (Calling tid sl n req cs)
    then show ?thesis
      using reply_turn_ok [OF assms(1) _ True assms(2)] section_turn_ok [OF assms(1) Calling True _ assms(2,3)] assms(3)
      by (cases "\<exists>r. cs = Returned r") auto
  qed
next
  case False
  with assms show ?thesis by (auto simp: connection_turn_def)
qed

section \<open>Every run\<close>

definition listener_ok :: "TcpConfig \<Rightarrow> SlaveStore \<Rightarrow> listener \<Rightarrow> commit list \<Rightarrow> bool" where
  "listener_ok config s0 l log \<longleftrightarrow>
     ls_store l = replay s0 log \<and> log_ok s0 log
     \<and> (\<forall>i < length (ls_conns l). conn_ok config s0 log i (ls_conns l ! i))
     \<and> (\<forall>e \<in> set log. fst e < length (ls_conns l))"

lemma receive_ok: "conn_ok config s0 log i c \<Longrightarrow> conn_ok config s0 log i (connection_receive ev c)"
  by (auto simp: conn_ok_def connection_receive_def split: poll_result.splits)

lemma commit_of_cases: "commit_of i c c' = [] \<or> (\<exists>rest. commit_of i c c' = [(i, rest)])"
  by (auto simp: commit_of_def split: phase.splits store_call_state.splits)

lemma commit_of_index: "e \<in> set (commit_of i c c') \<Longrightarrow> fst e = i"
  using commit_of_cases [of i c c'] by auto

lemma commit_of_other:
  assumes "conn_ok config s0 log j c0" "i \<noteq> j"
  shows "conn_ok config s0 (log @ commit_of i c c') j c0"
  using commit_of_cases [of i c c'] assms conn_ok_other [OF assms(1)] by auto

lemma listens_ok: "listens config s0 l log \<Longrightarrow> listener_ok config s0 l log"
proof (induction rule: listens.induct)
  case start
  show ?case by (simp add: listener_ok_def)
next
  case (accept l log plan)
  have "replies config (length (ls_conns l)) log = []"
    using accept.IH by (auto simp: listener_ok_def replies_def filter_empty_conv)
  then have "conn_ok config s0 log (length (ls_conns l)) (connection_new plan)"
    by (simp add: conn_ok_def connection_new_def)
  with accept.IH show ?case by (auto simp: listener_ok_def nth_append less_Suc_eq)
next
  case (receive l log i ev)
  then show ?case by (auto simp: listener_ok_def nth_list_update receive_ok)
next
  case (turn l log i c s)
  let ?log = "log @ commit_of i (ls_conns l ! i) c"
  from turn have step: "connection_turn config (ls_conns l ! i) (replay s0 log) = (c, s)"
    and own: "conn_ok config s0 log i (ls_conns l ! i)" and "log_ok s0 log"
    by (simp_all add: listener_ok_def)
  note ok = turn_ok [OF step own this(3)]
  have "conn_ok config s0 ?log j ((ls_conns l)[i := c] ! j)" if "j < length (ls_conns l)" for j
    using that ok turn.IH commit_of_other [of config s0 log j "ls_conns l ! j" i]
    by (cases "i = j") (simp_all add: listener_ok_def)
  with ok turn.IH turn.hyps(2) show ?case
    by (auto simp: listener_ok_def dest!: commit_of_index)
qed

lemma listens_conn_ok: "listens config s0 l log \<Longrightarrow> i < length (ls_conns l) \<Longrightarrow> conn_ok config s0 log i (ls_conns l ! i)"
  using listens_ok [of config s0 l log] by (simp add: listener_ok_def)

lemma conn_ok_out:
  assumes "conn_ok config s0 log i c"
  shows "(cn_status c = Serving \<and> cn_phase c = Reading \<longrightarrow> cn_out c = replies config i log)
    \<and> (\<exists>lost. replies config i log = cn_out c @ lost \<and> length lost \<le> 1)"
  using assms by (auto simp: conn_ok_def split: if_splits phase.splits store_call_state.splits)

lemma reply_no_panic: "cn_status c = Serving \<Longrightarrow> cn_status (connection_reply frame n c) \<noteq> Panicked"
  using connection_reply_cases [of frame n c] by auto

lemma turn_no_panic:
  assumes "connection_turn config c s = (c', s')" "cn_status c \<noteq> Panicked"
  shows "cn_status c' \<noteq> Panicked"
  using assms
  by (auto simp: connection_turn_def Let_def request_try_from_not_Panic reply_no_panic
      split: if_splits phase.splits option.splits prod.splits outcome.splits store_call_state.splits sum.splits)

lemma listens_no_panic:
  "listens config s0 l log \<Longrightarrow> i < length (ls_conns l) \<Longrightarrow> cn_status (ls_conns l ! i) \<noteq> Panicked"
proof (induction arbitrary: i rule: listens.induct)
  case (accept l log plan)
  then show ?case by (auto simp: nth_append connection_new_def less_Suc_eq)
next
  case (receive l log j ev)
  then show ?case
    by (auto simp: nth_list_update connection_receive_def split: poll_result.splits)
next
  case (turn l log j c s)
  then show ?case using turn_no_panic [OF turn.hyps(3)] by (auto simp: nth_list_update)
qed simp

text \<open>The store stays within the address space whatever the connections do.\<close>

lemma replay_bounded:
  assumes "store_bounded s0" "\<forall>(i, tid, sl, req, r) \<in> set log. request_legal req"
  shows "store_bounded (replay s0 log)"
  using assms(2)
proof (induction log rule: rev_induct)
  case (snoc e log)
  then show ?case by (cases e) (auto intro: store_call_bounded_aux)
qed (use assms(1) in simp)

lemma log_ok_legal: "log_ok s0 log \<Longrightarrow> \<forall>(i, tid, sl, req, r) \<in> set log. request_legal req"
  by (fastforce simp: log_ok_def in_set_conv_nth)

lemma listens_bounded: "listens config s0 l log \<Longrightarrow> store_bounded s0 \<Longrightarrow> store_bounded (ls_store l)"
  using listens_ok [of config s0 l log] replay_bounded [OF _ log_ok_legal, of s0 s0 log]
  by (simp add: listener_ok_def)

section \<open>The sequential handler as a run\<close>

definition turns :: "TcpConfig \<Rightarrow> nat \<Rightarrow> connection \<times> SlaveStore \<Rightarrow> connection \<times> SlaveStore" where
  "turns config n = (\<lambda>(c, s). connection_turn config c s) ^^ n"

lemma turns_0 [simp]: "turns config 0 cs = cs"
  by (simp add: turns_def)

lemma turns_Suc: "turns config (Suc n) (c, s) = turns config n (connection_turn config c s)"
  by (simp add: turns_def funpow_swap1)

lemma turns_add: "turns config (m + n) cs = turns config n (turns config m cs)"
  unfolding turns_def add.commute [of m] funpow_add by simp

text \<open>Turns of one connection in a listener.\<close>

lemma listens_turns:
  assumes "listens config s0 l log" "i < length (ls_conns l)" "turns config n (ls_conns l ! i, ls_store l) = (c, s)"
  shows "\<exists>log'. listens config s0 (l \<lparr> ls_store := s, ls_conns := (ls_conns l)[i := c] \<rparr>) (log @ log')"
  using assms
proof (induction n arbitrary: l log)
  case 0
  then show ?case by (auto intro: exI [of _ "[]"])
next
  case (Suc n)
  obtain c1 s1 where step: "connection_turn config (ls_conns l ! i) (ls_store l) = (c1, s1)" by fastforce
  let ?l1 = "l \<lparr> ls_store := s1, ls_conns := (ls_conns l)[i := c1] \<rparr>"
  note run = listens.turn [OF Suc.prems(1,2) step]
  have "turns config n (ls_conns ?l1 ! i, ls_store ?l1) = (c, s)"
    using Suc.prems(2,3) step by (simp add: turns_Suc)
  from Suc.IH [OF run _ this] Suc.prems(2) obtain log' where
    "listens config s0 (?l1 \<lparr> ls_store := s, ls_conns := (ls_conns ?l1)[i := c] \<rparr>)
       ((log @ commit_of i (ls_conns l ! i) c1) @ log')" by auto
  then show ?case by (auto simp: append.assoc)
qed

text \<open>The connection of a sequential server that is about to be in phase \<open>ph\<close>.\<close>

definition matches :: "phase \<Rightarrow> SlaveStore server \<Rightarrow> connection \<Rightarrow> bool" where
  "matches ph sv c \<longleftrightarrow>
     cn_out c = sv_out sv \<and> cn_writes c = sv_writes sv \<and> cn_status c = sv_status sv
     \<and> (sv_status sv = Serving \<longrightarrow> cn_buf c = sv_buf sv \<and> cn_phase c = ph)"

lemma call_turns:
  assumes "cn_status c = Serving" "cn_phase c = Calling tid sl n req (Called req)"
  shows "\<exists>k. turns config k (c, s) =
     (c \<lparr> cn_phase := Calling tid sl n req (Returned (fst (store_call s req))) \<rparr>, snd (store_call s req))"
proof (cases "is_fc23 req")
  case True
  with assms have "turns config 2 (c, s) =
     (c \<lparr> cn_phase := Calling tid sl n req (Returned (fst (store_call s req))) \<rparr>, snd (store_call s req))"
    by (auto simp: is_fc23_def numeral_2_eq_2 turns_Suc connection_turn_def)
  then show ?thesis by blast
next
  case False
  with assms have "turns config 1 (c, s) =
     (c \<lparr> cn_phase := Calling tid sl n req (Returned (fst (store_call s req))) \<rparr>, snd (store_call s req))"
    by (simp add: turns_Suc connection_turn_def)
  then show ?thesis by blast
qed

lemma turns_compose:
  assumes "turns config m cs = cs1" "turns config n cs1 = cs2"
  shows "turns config (m + n) cs = cs2"
  using assms by (simp add: turns_add)

text \<open>One frame, whether it is answered or ignored.\<close>

lemma frame_turns:
  fixes config :: TcpConfig
  assumes parse: "try_parse_tcp_frame (sv_buf sv) = Some (tid, sl, pdu, n)"
    and serving: "sv_status sv = Serving" and c: "matches Parsing sv c"
  defines "sv' \<equiv> answer_frame store_service (tcp_frame config tid) sl pdu (sv \<lparr> sv_buf := drop n (sv_buf sv) \<rparr>)"
  shows "\<exists>k c'. turns config k (c, sv_service sv) = (c', sv_service sv') \<and> matches Parsing sv' c'"
proof (cases "sl = 0 \<or> pdu = [] \<or> (\<forall>req. request_try_from pdu \<noteq> Ok req)")
  case True
  then have "sv' = sv \<lparr> sv_buf := drop n (sv_buf sv) \<rparr>" by (simp add: sv'_def answer_frame_ignored)
  moreover have "turns config 1 (c, sv_service sv) = (connection_skip n c, sv_service sv)"
    using True c serving parse request_try_from_not_Panic [of pdu]
    by (auto simp: turns_Suc connection_turn_def matches_def split: outcome.splits)
  moreover have "matches Parsing (sv \<lparr> sv_buf := drop n (sv_buf sv) \<rparr>) (connection_skip n c)"
    using c serving by (simp add: matches_def connection_skip_def)
  ultimately show ?thesis by auto
next
  case False
  then obtain req where req: "request_try_from pdu = Ok req" and sl: "sl \<noteq> 0" "pdu \<noteq> []" by blast
  define r s where "r = fst (store_call (sv_service sv) req)" and "s = snd (store_call (sv_service sv) req)"
  define frame where "frame = tcp_frame config tid (sl # response_pdu (reply_of req r))"
  have legal: "request_legal req" using req by (rule request_try_from_legal)
  have sv': "sv' = server_write frame (sv \<lparr> sv_buf := drop n (sv_buf sv), sv_rsp := [], sv_service := s \<rparr>)"
    using process_decoded [OF sl(1) req, of store_service "sv_service sv" "sv_rsp sv"]
      reply_fits_of_call [OF legal, of "sv_service sv"]
    by (simp add: sv'_def answer_frame_def store_service_def frame_def r_def s_def)
  let ?c1 = "c \<lparr> cn_phase := Calling tid sl n req (Called req) \<rparr>"
  let ?c2 = "c \<lparr> cn_phase := Calling tid sl n req (Returned r) \<rparr>"
  from c serving have c_serving: "cn_status c = Serving" by (simp add: matches_def)
  have "turns config 1 (c, sv_service sv) = (?c1, sv_service sv)"
    using c serving parse req sl by (simp add: turns_Suc connection_turn_def matches_def)
  moreover obtain k where "turns config k (?c1, sv_service sv) = (?c2, s)"
    using call_turns [of ?c1 tid sl n req config "sv_service sv"] c_serving by (auto simp: r_def s_def)
  ultimately have "turns config (1 + k) (c, sv_service sv) = (?c2, s)" by (rule turns_compose)
  moreover have "turns config 1 (?c2, s) = (connection_reply frame n ?c2, s)"
    using c_serving encode_reply [OF legal r_def, of sl] by (simp add: turns_Suc connection_turn_def frame_def)
  ultimately have "turns config (1 + k + 1) (c, sv_service sv) = (connection_reply frame n ?c2, s)"
    by (rule turns_compose)
  moreover have "matches Parsing sv' (connection_reply frame n ?c2)"
    using c serving
    by (simp add: sv' matches_def server_write_def connection_reply_def connection_skip_def Let_def
        split: write_result.split)
  moreover have "sv_service sv' = s" by (simp add: sv')
  ultimately show ?thesis by blast
qed

lemma serve_frames_turns:
  assumes "serve_frames try_parse_tcp_frame (tcp_frame config) store_service sv = Some sv'"
    and "sv_status sv = Serving" "matches Parsing sv c"
  shows "\<exists>k c'. turns config k (c, sv_service sv) = (c', sv_service sv') \<and> matches Parsing sv' c'
    \<and> (sv_status sv' = Serving \<longrightarrow> try_parse_tcp_frame (sv_buf sv') = None)"
  using assms
proof (induction "length (sv_buf sv)" arbitrary: sv c rule: less_induct)
  case less
  show ?case
  proof (cases "try_parse_tcp_frame (sv_buf sv)")
    case None
    with less.prems show ?thesis by (auto simp: serve_frames.simps intro!: exI [of _ 0])
  next
    case (Some p)
    then obtain tid sl pdu n where p: "try_parse_tcp_frame (sv_buf sv) = Some (tid, sl, pdu, n)" by (cases p) auto
    let ?sv = "answer_frame store_service (tcp_frame config tid) sl pdu (sv \<lparr> sv_buf := drop n (sv_buf sv) \<rparr>)"
    obtain k c1 where k: "turns config k (c, sv_service sv) = (c1, sv_service ?sv)" and c1: "matches Parsing ?sv c1"
      using frame_turns [OF p less.prems(2,3)] by blast
    show ?thesis
    proof (cases "sv_status ?sv = Serving")
      case True
      with less.prems(1) p have "serve_frames try_parse_tcp_frame (tcp_frame config) store_service ?sv = Some sv'"
        by (subst (asm) serve_frames.simps) (simp add: Let_def)
      moreover from tcp.consumes [OF p] have "length (sv_buf ?sv) < length (sv_buf sv)" by auto
      ultimately obtain k' c' where "turns config k' (c1, sv_service ?sv) = (c', sv_service sv')"
        and "matches Parsing sv' c' \<and> (sv_status sv' = Serving \<longrightarrow> try_parse_tcp_frame (sv_buf sv') = None)"
        using less.hyps [of ?sv c1] True c1 by blast
      with turns_compose [OF k] show ?thesis by blast
    next
      case False
      with less.prems(1) p have "sv' = ?sv" by (subst (asm) serve_frames.simps) (simp add: Let_def)
      with False k c1 show ?thesis by blast
    qed
  qed
qed

lemma event_turns:
  assumes "tcp_serve_event config store_service sv ev = Some sv'" "sv_status sv = Serving" "matches Reading sv c"
  shows "\<exists>k c'. turns config k (connection_receive ev c, sv_service sv) = (c', sv_service sv') \<and> matches Reading sv' c'"
proof (cases "\<exists>bs. ev = Got bs \<and> bs \<noteq> []")
  case True
  then obtain bs where bs: "ev = Got bs" "bs \<noteq> []" by blast
  let ?sv = "sv \<lparr> sv_buf := sv_buf sv @ bs \<rparr>"
  obtain sv1 where frames: "serve_frames try_parse_tcp_frame (tcp_frame config) store_service ?sv = Some sv1"
    using tcp.serve_frames_returns by blast
  with assms(1) bs have sv': "sv' =
      (if sv_status sv1 = Serving \<and> (is_tcp_header_corrupt (sv_buf sv1) \<or> length (sv_buf sv1) > MAX_TCP_BUF_BYTES)
       then sv1 \<lparr> sv_buf := [] \<rparr> else sv1)"
    by (auto simp: tcp_serve_event_def split: if_splits)
  have "matches Parsing ?sv (connection_receive ev c)"
    using assms(2,3) bs by (simp add: matches_def connection_receive_def)
  from serve_frames_turns [OF frames _ this] assms(2) obtain k c1 where
    k: "turns config k (connection_receive ev c, sv_service sv) = (c1, sv_service sv1)" and
    c1: "matches Parsing sv1 c1" "sv_status sv1 = Serving \<longrightarrow> try_parse_tcp_frame (sv_buf sv1) = None" by auto
  show ?thesis
  proof (cases "sv_status sv1 = Serving")
    case True
    have "turns config 1 (c1, sv_service sv1) =
        (if is_tcp_header_corrupt (cn_buf c1) \<or> length (cn_buf c1) > MAX_TCP_BUF_BYTES
         then c1 \<lparr> cn_buf := [], cn_phase := Reading \<rparr> else c1 \<lparr> cn_phase := Reading \<rparr>, sv_service sv1)"
      using True c1 by (simp add: turns_Suc connection_turn_def matches_def)
    note turns_compose [OF k this]
    moreover have "sv_service sv' = sv_service sv1" by (simp add: sv')
    ultimately show ?thesis using True c1 by (fastforce simp: sv' matches_def)
  next
    case False
    with k c1 show ?thesis by (auto simp: sv' matches_def)
  qed
next
  case False
  then have "connection_receive ev c = (case ev of Elapsed \<Rightarrow> c | _ \<Rightarrow> c \<lparr> cn_status := Closed \<rparr>)"
    and "sv' = (case ev of Elapsed \<Rightarrow> sv | _ \<Rightarrow> sv \<lparr> sv_status := Closed \<rparr>)"
    using assms by (auto simp: connection_receive_def tcp_serve_event_def matches_def split: poll_result.splits)
  with assms(3) show ?thesis
    by (intro exI [of _ 0]) (auto simp: matches_def split: poll_result.splits)
qed

text \<open>
  From any state of the listener, one connection can be served alone, as the sequential handler
  serves it, while the others wait.
\<close>

lemma serve_run:
  assumes "listens config s0 l log" "i < length (ls_conns l)" "matches Reading sv (ls_conns l ! i)"
    and "sv_service sv = ls_store l" "tcp_serve config store_service evs sv = Some sv'"
  shows "\<exists>c log'. matches Reading sv' c
    \<and> listens config s0 (l \<lparr> ls_store := sv_service sv', ls_conns := (ls_conns l)[i := c] \<rparr>) (log @ log')"
  using assms
proof (induction evs arbitrary: l log sv)
  case Nil
  then show ?case by (intro exI [of _ "ls_conns l ! i"] exI [of _ "[]"]) simp
next
  case (Cons ev evs)
  show ?case
  proof (cases "sv_status sv = Serving")
    case True
    with Cons.prems(5) obtain sv1 where ev: "tcp_serve_event config store_service sv ev = Some sv1"
      and rest: "tcp_serve config store_service evs sv1 = Some sv'" by (auto split: option.splits)
    let ?l = "l \<lparr> ls_conns := (ls_conns l)[i := connection_receive ev (ls_conns l ! i)] \<rparr>"
    obtain k c1 where k: "turns config k (connection_receive ev (ls_conns l ! i), sv_service sv) = (c1, sv_service sv1)"
      and c1: "matches Reading sv1 c1"
      using event_turns [OF ev True Cons.prems(3)] by blast
    obtain log1 where run: "listens config s0 (?l \<lparr> ls_store := sv_service sv1, ls_conns := (ls_conns ?l)[i := c1] \<rparr>) (log @ log1)"
      using listens_turns [OF listens.receive [OF Cons.prems(1,2), of ev], where n = k and c = c1 and s = "sv_service sv1"]
        k Cons.prems(2,4) by fastforce
    from Cons.IH [OF run _ _ _ rest] c1 Cons.prems(2) show ?thesis by (auto simp: append.assoc)
  next
    case False
    with Cons.prems show ?thesis by (intro exI [of _ "ls_conns l ! i"] exI [of _ "[]"]) simp
  qed
qed

lemma tcp_serve_returns: "\<exists>sv'. tcp_serve config svc evs sv = Some sv'"
proof (induction evs arbitrary: sv)
  case (Cons ev evs)
  have "\<exists>sv1. tcp_serve_event config svc sv ev = Some sv1"
  proof (cases ev)
    case (Got bs)
    obtain sv2 where "serve_frames try_parse_tcp_frame (tcp_frame config) svc (sv \<lparr> sv_buf := sv_buf sv @ bs \<rparr>) = Some sv2"
      using tcp.serve_frames_returns by blast
    with Got show ?thesis by (simp add: tcp_serve_event_def)
  qed (simp_all add: tcp_serve_event_def)
  with Cons show ?case by auto
qed simp

text \<open>A listener that has served one whole request on its only connection.\<close>

lemma listens_request:
  assumes "store_bounded s0" "u \<noteq> 0" "\<not> shadowed u pdu" "request_try_from pdu = Ok req" "length pdu \<le> 253"
  defines "res \<equiv> store_call s0 req"
  obtains c log where "listens config s0 \<lparr> ls_store = snd res, ls_conns = [c] \<rparr> log"
    "cn_phase c = Reading" "cn_status c = Serving"
    "cn_out c = [encode_tcp_frame (u # response_pdu (reply_of req (fst res))) [] config tid]"
proof -
  let ?sv = "server_new s0" and ?l = "\<lparr> ls_store = s0, ls_conns = [connection_new []] \<rparr>"
  have l: "listens config s0 ?l []" using listens.accept [OF listens.start, of config s0 "[]"] by simp
  have match: "matches Reading ?sv (ls_conns ?l ! 0)"
    by (simp add: matches_def server_new_def connection_new_def)
  have "healthy ?sv" "sv_buf ?sv = []" "store_bounded (sv_service ?sv)"
    using assms(1) by (simp_all add: healthy_def server_new_def)
  note run = store.tcp_serve_one [OF this assms(2,4,5), of config_standard req config tid]
  have "request_try_from (framed_seen config_standard u pdu) = Ok req"
    using assms(3,4) by (simp add: tcp_seen_def framed_seen_def)
  moreover have "store_service ctx s r = store_call s r" for ctx s r by (simp add: store_service_def)
  ultimately have run: "tcp_serve config store_service [Got (encode_tcp_frame (u # pdu) [] config_standard tid)] ?sv =
      Some (?sv \<lparr> sv_rsp := [], sv_service := snd res,
        sv_out := sv_out ?sv @ [encode_tcp_frame (u # response_pdu (reply_of req (fst res))) [] config tid] \<rparr>)"
    using run by (simp add: res_def server_new_def)
  from serve_run [OF l _ match _ run] obtain c log where
    c: "matches Reading (?sv \<lparr> sv_rsp := [], sv_service := snd res, sv_out := sv_out ?sv @
       [encode_tcp_frame (u # response_pdu (reply_of req (fst res))) [] config tid] \<rparr>) c"
    and log: "listens config s0 \<lparr> ls_store = snd res, ls_conns = [c] \<rparr> log"
    by (auto simp: server_new_def res_def)
  from c show ?thesis by (intro that [OF log]) (simp_all add: matches_def server_new_def)
qed

end
