(* ===== verification/Modbus_Serial_Line.thy ===== *)
theory Modbus_Serial_Line
  imports Modbus_Rtu Modbus_Ascii
begin

text \<open>
  \<open>RtuServer::serve_forever\<close> and \<open>AsciiServer::serve_forever\<close> of \<open>src/transport/rtu.rs\<close> and
  \<open>ascii.rs\<close> in time: the server on a line whose bytes arrive at given times.  With an empty
  buffer it waits for the next bytes however long, else for the read time-out; a read takes at most
  256 bytes; before a reply it waits as its bus timing tells it.  What every read gave and what was
  spoken is logged with the time.  A run ends when the server does, or when it waits for bytes that
  never come.  The locale \<open>serial_line\<close> holds what the two servers' loops have in common: the run
  returns; its log is the one that the line, the time-out and the untimed server determine; no
  frame is left unanswered when it reads again; and the spacing is kept.
\<close>

section \<open>The loop in time\<close>

datatype activity = Heard poll_result | Spoke bytes

record 's line_server =
  ln_server :: "'s server"
  ln_stream :: stream
  ln_log :: "(nat \<times> activity) list"

definition line_log :: "activity \<Rightarrow> 's line_server \<Rightarrow> 's line_server" where
  "line_log act ln = ln \<lparr> ln_log := ln_log ln @ [(clock (ln_stream ln), act)] \<rparr>"

text \<open>How long a read waits; \<open>None\<close> when that is for ever.\<close>

definition line_wait :: "duration \<Rightarrow> 's line_server \<Rightarrow> duration option" where
  "line_wait timeout ln =
     (if sv_buf (ln_server ln) = []
      then (case arrivals (ln_stream ln) of [] \<Rightarrow> None | (t, a) # _ \<Rightarrow> Some (t - clock (ln_stream ln)))
      else Some timeout)"

text \<open>A read has room for so many bytes; what is longer stays on the line for the next one.\<close>

definition line_room :: "stream \<Rightarrow> stream" where
  "line_room st =
     (case arrivals st of
        (t, Data bs) # rest \<Rightarrow>
          (if MAX_ADU_SIZE < length bs
           then st \<lparr> arrivals := (t, Data (take MAX_ADU_SIZE bs)) # (t, Data (drop MAX_ADU_SIZE bs)) # rest \<rparr>
           else st)
      | _ \<Rightarrow> st)"

definition line_read :: "duration \<Rightarrow> 's line_server \<Rightarrow> (poll_result \<times> 's line_server) option" where
  "line_read timeout ln =
     (case line_wait timeout ln of
        None \<Rightarrow> None
      | Some w \<Rightarrow>
          (case read_timed w (line_room (ln_stream ln)) of
             (ev, st) \<Rightarrow> Some (ev, line_log (Heard ev) (ln \<lparr> ln_stream := st \<rparr>))))"

text \<open>\<open>stream.prepare_send()\<close> and a write that succeeds.\<close>

definition line_reply :: "bytes \<Rightarrow> 's line_server \<Rightarrow> 's line_server" where
  "line_reply frame ln =
     (let st = prepare_send (ln_stream ln)
      in line_log (Spoke frame)
           (ln \<lparr> ln_stream := record_tap (TapTx frame) (touch_bus (st \<lparr> sent := sent st @ [frame] \<rparr>)) \<rparr>))"

text \<open>
  A turn, then its replies one after the other in time.  The source writes each reply before it
  serves the next frame of the buffer; the service has no clock, so that order is not observed.
  Before a write that fails or stalls the source waits as well, but nothing follows it.
\<close>

definition line_event ::
  "('s server \<Rightarrow> poll_result \<Rightarrow> 's server option) \<Rightarrow> poll_result \<Rightarrow> 's line_server \<Rightarrow> 's line_server option" where
  "line_event event ev ln =
     (case event (ln_server ln) ev of
        None \<Rightarrow> None
      | Some sv \<Rightarrow>
          Some ((fold line_reply (drop (length (sv_out (ln_server ln))) (sv_out sv)) ln) \<lparr> ln_server := sv \<rparr>))"

partial_function (option) line_serve ::
  "('s server \<Rightarrow> poll_result \<Rightarrow> 's server option) \<Rightarrow> duration \<Rightarrow> 's line_server \<Rightarrow> 's line_server option" where
  "line_serve event timeout ln =
     (if sv_status (ln_server ln) \<noteq> Serving then Some ln
      else case line_read timeout ln of
        None \<Rightarrow> Some ln
      | Some (ev, ln) \<Rightarrow>
          (case line_event event ev ln of None \<Rightarrow> None | Some ln \<Rightarrow> line_serve event timeout ln))"

definition server_stream :: "server_config \<Rightarrow> stream \<Rightarrow> stream" where
  "server_stream sc st = sniff_new False (srv_bus_timing sc \<noteq> None) (st \<lparr> bus := srv_bus_timing sc \<rparr>)"

definition line_start :: "server_config \<Rightarrow> stream \<Rightarrow> 's \<Rightarrow> 's line_server" where
  "line_start sc st s =
     \<lparr> ln_server = server_new s \<lparr> sv_writes := write_plan st \<rparr>, ln_stream = server_stream sc st, ln_log = [] \<rparr>"

definition rtu_serve_forever :: "server_config \<Rightarrow> 's service \<Rightarrow> stream \<Rightarrow> 's \<Rightarrow> 's line_server option" where
  "rtu_serve_forever sc svc st s = line_serve (rtu_serve_event svc) (rtu_read_timeout sc) (line_start sc st s)"

definition ascii_serve_forever :: "server_config \<Rightarrow> 's service \<Rightarrow> stream \<Rightarrow> 's \<Rightarrow> 's line_server option" where
  "ascii_serve_forever sc svc st s = line_serve (ascii_serve_event svc) (ascii_read_timeout sc) (line_start sc st s)"

section \<open>Logs\<close>

text \<open>What a log says the reads gave, and the frames it says were spoken.\<close>

definition heard :: "(nat \<times> activity) list \<Rightarrow> poll_result list" where
  "heard log = concat (map (\<lambda>(t, act). case act of Heard ev \<Rightarrow> [ev] | Spoke f \<Rightarrow> []) log)"

definition spoken :: "(nat \<times> activity) list \<Rightarrow> bytes list" where
  "spoken log = concat (map (\<lambda>(t, act). case act of Spoke f \<Rightarrow> [f] | Heard ev \<Rightarrow> []) log)"

text \<open>What the reads of a line will give, and when: its arrivals, in parts of at most 256 bytes.\<close>

fun read_units :: "(nat \<times> arrival) list \<Rightarrow> (nat \<times> arrival) list" where
  "read_units [] = []"
| "read_units ((t, Data bs) # rest) =
     map (\<lambda>part. (t, Data part)) (if bs = [] then [[]] else chunks MAX_ADU_SIZE bs) @ read_units rest"
| "read_units ((t, ReadFail e) # rest) = (t, ReadFail e) # read_units rest"

definition line_units :: "stream \<Rightarrow> (nat \<times> poll_result) list" where
  "line_units st = map (\<lambda>(t, a). (t, read_event st a)) (read_units (arrivals st))"

text \<open>
  The log of a server that starts at a time with these reads ahead of it, and the time and the reads
  ahead when it ends.  A read gives the next of them, as soon as it is there; a time-out is read
  exactly when its time is up and nothing has come by then; speaking takes the time it takes.
\<close>

fun log_step :: "duration \<Rightarrow> nat \<times> (nat \<times> poll_result) list \<Rightarrow> nat \<times> activity \<Rightarrow> (nat \<times> (nat \<times> poll_result) list) option" where
  "log_step timeout (now, ahead) (t, Spoke f) = (if now \<le> t then Some (t, ahead) else None)"
| "log_step timeout (now, ahead) (t, Heard ev) =
     (if ev = Elapsed
      then if t = now + timeout \<and> (\<forall>u \<in> set (take 1 ahead). t < fst u) then Some (t, ahead) else None
      else case ahead of
             [] \<Rightarrow> None
           | (t', ev') # ahead' \<Rightarrow> if ev = ev' \<and> t = max now t' then Some (t, ahead') else None)"

fun log_run :: "duration \<Rightarrow> nat \<times> (nat \<times> poll_result) list \<Rightarrow> (nat \<times> activity) list \<Rightarrow> (nat \<times> (nat \<times> poll_result) list) option" where
  "log_run timeout s [] = Some s"
| "log_run timeout s (entry # log) =
     (case log_step timeout s entry of None \<Rightarrow> None | Some s \<Rightarrow> log_run timeout s log)"

text \<open>
  Whenever it reads, a server is serving and has spoken the replies to all it has heard, and there is
  no complete frame in its buffer; it reads with a time-out only when there are bytes in it.
\<close>

definition answers ::
  "(poll_result list \<Rightarrow> 's server \<Rightarrow> 's server option) \<Rightarrow> (bytes \<Rightarrow> bool) \<Rightarrow> 's server \<Rightarrow> (nat \<times> activity) list \<Rightarrow> bool" where
  "answers serve settled start log \<longleftrightarrow>
     (\<forall>before t ev after. log = before @ (t, Heard ev) # after \<longrightarrow>
        (\<exists>sv. serve (heard before) start = Some sv \<and> sv_status sv = Serving \<and> sv_out sv = sv_out start @ spoken before
          \<and> settled (sv_buf sv) \<and> (ev = Elapsed \<longrightarrow> sv_buf sv \<noteq> [])))"

text \<open>Every frame is spoken at least \<open>gap\<close> microseconds after all bytes heard or spoken before it.\<close>

fun audible :: "activity \<Rightarrow> bool" where
  "audible (Heard (Got bs)) = (bs \<noteq> [])"
| "audible (Heard ev) = False"
| "audible (Spoke f) = True"

definition spaced :: "nat \<Rightarrow> (nat \<times> activity) list \<Rightarrow> bool" where
  "spaced gap log \<longleftrightarrow>
     (\<forall>before t f after. log = before @ (t, Spoke f) # after \<longrightarrow>
        (\<forall>(t', act) \<in> set before. audible act \<longrightarrow> as_micros t' + gap \<le> as_micros t))"

lemma log_simps [simp]:
  "heard [] = []" "heard (log @ [(t, Heard ev)]) = heard log @ [ev]" "heard (log @ [(t, Spoke f)]) = heard log"
  "spoken [] = []" "spoken (log @ [(t, Spoke f)]) = spoken log @ [f]" "spoken (log @ [(t, Heard ev)]) = spoken log"
  by (simp_all add: heard_def spoken_def)

lemma log_run_snoc:
  "log_run timeout s (log @ [entry]) =
     (case log_run timeout s log of None \<Rightarrow> None | Some s \<Rightarrow> log_step timeout s entry)"
  by (induction log arbitrary: s) (auto split: option.split)

lemma snoc_eq_append_Cons: "xs @ [x] = ys @ y # zs \<longleftrightarrow> zs = [] \<and> xs = ys \<and> x = y \<or> (\<exists>zs'. zs = zs' @ [x] \<and> xs = ys @ y # zs')"
  by (cases zs rule: rev_cases) auto

lemma all_entries_snoc:
  "(\<forall>before entry after. log @ [e] = before @ entry # after \<longrightarrow> P before entry) \<longleftrightarrow>
     (\<forall>before entry after. log = before @ entry # after \<longrightarrow> P before entry) \<and> P log e"
  unfolding snoc_eq_append_Cons by blast

lemma answers_entries:
  "answers serve settled start log \<longleftrightarrow>
     (\<forall>before entry after. log = before @ entry # after \<longrightarrow>
       (\<forall>ev. snd entry = Heard ev \<longrightarrow>
        (\<exists>sv. serve (heard before) start = Some sv \<and> sv_status sv = Serving \<and> sv_out sv = sv_out start @ spoken before
          \<and> settled (sv_buf sv) \<and> (ev = Elapsed \<longrightarrow> sv_buf sv \<noteq> []))))"
  unfolding answers_def by fastforce

lemma spaced_entries:
  "spaced gap log \<longleftrightarrow>
     (\<forall>before entry after. log = before @ entry # after \<longrightarrow>
       ((\<exists>f. snd entry = Spoke f) \<longrightarrow> (\<forall>(t', act) \<in> set before. audible act \<longrightarrow> as_micros t' + gap \<le> as_micros (fst entry))))"
  unfolding spaced_def by fastforce

lemma answers_Nil [simp]: "answers serve settled start []"
  by (simp add: answers_def)

lemma answers_spoke [simp]: "answers serve settled start (log @ [(t, Spoke f)]) \<longleftrightarrow> answers serve settled start log"
  unfolding answers_entries all_entries_snoc by simp

lemma answers_heard:
  "answers serve settled start (log @ [(t, Heard ev)]) \<longleftrightarrow> answers serve settled start log
     \<and> (\<exists>sv. serve (heard log) start = Some sv \<and> sv_status sv = Serving \<and> sv_out sv = sv_out start @ spoken log
          \<and> settled (sv_buf sv) \<and> (ev = Elapsed \<longrightarrow> sv_buf sv \<noteq> []))"
  unfolding answers_entries all_entries_snoc by simp

lemma spaced_Nil [simp]: "spaced gap []"
  by (simp add: spaced_def)

lemma spaced_heard [simp]: "spaced gap (log @ [(t, Heard ev)]) \<longleftrightarrow> spaced gap log"
  unfolding spaced_entries all_entries_snoc by simp

lemma spaced_spoke:
  "spaced gap (log @ [(t, Spoke f)]) \<longleftrightarrow>
     spaced gap log \<and> (\<forall>(t', act) \<in> set log. audible act \<longrightarrow> as_micros t' + gap \<le> as_micros t)"
  unfolding spaced_entries all_entries_snoc by simp

section \<open>What a read and a reply do\<close>

lemma prepare_send_simps [simp]:
  "arrivals (prepare_send st) = arrivals st" "sent (prepare_send st) = sent st"
  "layers (prepare_send st) = layers st" "bus (prepare_send st) = bus st"
  by (auto simp: prepare_send_def split: list.splits option.splits)

lemma prepare_send_clock: "clock st \<le> clock (prepare_send st)"
  using same_line_prepare [of st] by (simp add: same_line_def)

lemma wire_simps [simp]:
  "sent (record_tap ev st) = sent st" "layers (record_tap ev st) = layers st" "bus (record_tap ev st) = bus st"
  "sent (touch_bus st) = sent st" "layers (touch_bus st) = layers st"
  by (simp_all add: record_tap_def touch_bus_def)

lemma line_log_simps [simp]:
  "ln_server (line_log act ln) = ln_server ln" "ln_stream (line_log act ln) = ln_stream ln"
  "ln_log (line_log act ln) = ln_log ln @ [(clock (ln_stream ln), act)]"
  by (simp_all add: line_log_def)

lemma line_reply_simps [simp]:
  "ln_server (line_reply f ln) = ln_server ln"
  "arrivals (ln_stream (line_reply f ln)) = arrivals (ln_stream ln)"
  "layers (ln_stream (line_reply f ln)) = layers (ln_stream ln)"
  "sent (ln_stream (line_reply f ln)) = sent (ln_stream ln) @ [f]"
  "clock (ln_stream (line_reply f ln)) = clock (prepare_send (ln_stream ln))"
  "ln_log (line_reply f ln) = ln_log ln @ [(clock (prepare_send (ln_stream ln)), Spoke f)]"
  by (simp_all add: line_reply_def Let_def)

lemma line_units_cong: "arrivals st' = arrivals st \<Longrightarrow> layers st' = layers st \<Longrightarrow> line_units st' = line_units st"
  by (simp add: line_units_def read_event_def tap_count_def fun_eq_iff cong: arrival.case_cong)

text \<open>Speaking goes on the log, and changes neither the server nor what is ahead.\<close>

lemma line_replies:
  "ln_server (fold line_reply fs ln) = ln_server ln"
  "arrivals (ln_stream (fold line_reply fs ln)) = arrivals (ln_stream ln)"
  "layers (ln_stream (fold line_reply fs ln)) = layers (ln_stream ln)"
  "sent (ln_stream (fold line_reply fs ln)) = sent (ln_stream ln) @ fs"
  "spoken (ln_log (fold line_reply fs ln)) = spoken (ln_log ln) @ fs"
  "heard (ln_log (fold line_reply fs ln)) = heard (ln_log ln)"
  "answers serve settled start (ln_log (fold line_reply fs ln)) \<longleftrightarrow> answers serve settled start (ln_log ln)"
  by (induction fs arbitrary: ln) simp_all

lemma line_replies_units: "line_units (ln_stream (fold line_reply fs ln)) = line_units (ln_stream ln)"
  by (intro line_units_cong line_replies)

lemma line_replies_run:
  "log_run timeout s (ln_log ln) = Some (clock (ln_stream ln), ahead) \<Longrightarrow>
     log_run timeout s (ln_log (fold line_reply fs ln)) = Some (clock (ln_stream (fold line_reply fs ln)), ahead)"
  by (induction fs arbitrary: ln) (simp_all add: log_run_snoc prepare_send_clock)

text \<open>A read takes the first of the reads ahead, or its time-out elapses with bytes in the buffer.\<close>

lemma line_room_simps [simp]:
  "clock (line_room st) = clock st" "layers (line_room st) = layers st" "sent (line_room st) = sent st"
  "bus (line_room st) = bus st"
  by (simp_all add: line_room_def split: list.split prod.split arrival.split)

lemma line_room_units: "read_units (arrivals (line_room st)) = read_units (arrivals st)"
proof (cases "\<exists>t bs rest. arrivals st = (t, Data bs) # rest \<and> MAX_ADU_SIZE < length bs")
  case True
  then obtain t bs rest where arr: "arrivals st = (t, Data bs) # rest" and len: "MAX_ADU_SIZE < length bs" by blast
  from len have ne: "bs \<noteq> []" "0 < MAX_ADU_SIZE" "take MAX_ADU_SIZE bs \<noteq> []" "drop MAX_ADU_SIZE bs \<noteq> []"
    by (auto simp: MAX_ADU_SIZE_def)
  have "chunks MAX_ADU_SIZE bs = take MAX_ADU_SIZE bs # chunks MAX_ADU_SIZE (drop MAX_ADU_SIZE bs)"
    using ne by (intro chunks_step)
  moreover have "chunks MAX_ADU_SIZE (take MAX_ADU_SIZE bs) = [take MAX_ADU_SIZE bs]"
    using ne(2,3) by (simp add: chunks_step)
  ultimately show ?thesis using arr len ne by (simp add: line_room_def)
qed (auto simp: line_room_def split: list.split prod.split arrival.split)

lemma line_room_head:
  assumes "arrivals (line_room st) = (t, a) # rest"
  shows "read_units (arrivals st) = (t, a) # read_units rest"
proof -
  have "read_units ((t, a) # rest) = (t, a) # read_units rest"
  proof (cases a)
    case (Data bs)
    have "length bs \<le> MAX_ADU_SIZE"
      using assms Data by (auto simp: line_room_def split: list.splits prod.splits arrival.splits if_splits)
    moreover have "0 < MAX_ADU_SIZE" by (simp add: MAX_ADU_SIZE_def)
    ultimately have "bs \<noteq> [] \<Longrightarrow> chunks MAX_ADU_SIZE bs = [bs]" by (simp add: chunks_step)
    with Data show ?thesis by simp
  qed simp
  then show ?thesis using line_room_units [of st] assms by simp
qed

lemma read_timed_rest: "sent (snd (read_timed w st)) = sent st" "layers (snd (read_timed w st)) = layers st"
  by (auto simp: read_timed_def Let_def split: list.splits arrival.splits)

lemma line_read_cases:
  assumes "line_read timeout ln = Some (ev, ln')"
  obtains w st where "line_wait timeout ln = Some w" "read_timed w (line_room (ln_stream ln)) = (ev, st)"
    "ln' = line_log (Heard ev) (ln \<lparr> ln_stream := st \<rparr>)"
  using assms by (auto simp: line_read_def split: option.splits prod.splits)

lemma line_read_logs:
  assumes "line_read timeout ln = Some (ev, ln')"
  shows "ln_server ln' = ln_server ln" "sent (ln_stream ln') = sent (ln_stream ln)" "layers (ln_stream ln') = layers (ln_stream ln)"
    "ln_log ln' = ln_log ln @ [(clock (ln_stream ln'), Heard ev)]"
proof -
  obtain w st where read: "read_timed w (line_room (ln_stream ln)) = (ev, st)" "ln' = line_log (Heard ev) (ln \<lparr> ln_stream := st \<rparr>)"
    using assms by (rule line_read_cases)
  with read_timed_rest [of w "line_room (ln_stream ln)"] show "ln_server ln' = ln_server ln"
    "sent (ln_stream ln') = sent (ln_stream ln)" "layers (ln_stream ln') = layers (ln_stream ln)"
    "ln_log ln' = ln_log ln @ [(clock (ln_stream ln'), Heard ev)]"
    by simp_all
qed

lemma line_read_step:
  assumes "line_read timeout ln = Some (ev, ln')"
  shows "log_step timeout (clock (ln_stream ln), line_units (ln_stream ln)) (clock (ln_stream ln'), Heard ev) =
      Some (clock (ln_stream ln'), line_units (ln_stream ln'))"
    and "ev = Elapsed \<Longrightarrow> sv_buf (ln_server ln) \<noteq> [] \<and> line_units (ln_stream ln') = line_units (ln_stream ln)"
    and "ev \<noteq> Elapsed \<Longrightarrow> length (line_units (ln_stream ln')) < length (line_units (ln_stream ln))"
proof -
  let ?st = "ln_stream ln" and ?room = "line_room (ln_stream ln)"
  obtain w st where wait: "line_wait timeout ln = Some w" and read: "read_timed w ?room = (ev, st)"
    and ln': "ln' = line_log (Heard ev) (ln \<lparr> ln_stream := st \<rparr>)"
    using assms by (rule line_read_cases)
  have layers: "layers st = layers ?st" using read_timed_rest(2) [of w ?room] read by simp
  have event: "read_event s a = read_event ?st a" if "layers s = layers ?st" for s a
    using that by (simp add: read_event_def tap_count_def split: arrival.split)
  have units: "line_units ?room = line_units ?st" by (simp add: line_units_def line_room_units event [of ?room])
  have "log_step timeout (clock ?st, line_units ?st) (clock st, Heard ev) = Some (clock st, line_units st)
      \<and> (ev = Elapsed \<longrightarrow> sv_buf (ln_server ln) \<noteq> [] \<and> line_units st = line_units ?st)
      \<and> (ev \<noteq> Elapsed \<longrightarrow> length (line_units st) < length (line_units ?st))"
    using read_timed_cases [of w ?room]
  proof cases
    case elapsed
    from elapsed(1) read have ev: "ev = Elapsed" and st: "st = ?room \<lparr> clock := clock ?st + w \<rparr>" by simp_all
    have same: "line_units st = line_units ?st" unfolding units [symmetric] by (rule line_units_cong) (simp_all add: st)
    have first: "\<forall>u \<in> set (take 1 (line_units ?st)). clock ?st + w < fst u"
    proof (cases "arrivals ?room")
      case Nil
      then show ?thesis using units by (simp add: line_units_def)
    next
      case (Cons ta rest)
      obtain t a where ta: "ta = (t, a)" by (cases ta)
      with Cons elapsed(2) line_room_head [of ?st t a rest] show ?thesis by (simp add: line_units_def)
    qed
    have buf: "sv_buf (ln_server ln) \<noteq> []"
    proof
      assume "sv_buf (ln_server ln) = []"
      with wait obtain t a rest where arr: "arrivals ?st = (t, a) # rest" and w: "w = t - clock ?st"
        by (auto simp: line_wait_def split: list.splits)
      from arr have "\<exists>a' rest'. arrivals ?room = (t, a') # rest'" by (cases a) (auto simp: line_room_def)
      with elapsed(2) w show False by auto
    qed
    with wait have w: "w = timeout" by (simp add: line_wait_def)
    have clock: "clock st = clock ?st + timeout" by (simp add: st w)
    show ?thesis unfolding ev same log_step.simps clock using first buf w by simp
  next
    case (arrival t a st')
    have "read_event ?room a = read_event ?st a" by (rule event) simp
    with arrival(4) read have ev: "ev = read_event ?st a" and st: "st = st'" by simp_all
    have not: "ev \<noteq> Elapsed" by (simp add: ev read_event_def split: arrival.split)
    have "line_units ?st = (t, ev) # line_units st"
      using line_room_head [OF arrival(1)] by (simp add: line_units_def ev st event [OF layers [unfolded st]])
    with not arrival(3) st show ?thesis by simp
  qed
  then show "log_step timeout (clock ?st, line_units ?st) (clock (ln_stream ln'), Heard ev) = Some (clock (ln_stream ln'), line_units (ln_stream ln'))"
    and "ev = Elapsed \<Longrightarrow> sv_buf (ln_server ln) \<noteq> [] \<and> line_units (ln_stream ln') = line_units ?st"
    and "ev \<noteq> Elapsed \<Longrightarrow> length (line_units (ln_stream ln')) < length (line_units ?st)"
    by (simp_all add: ln')
qed

section \<open>Spacing\<close>

lemma wait_enough:
  assumes "unat (last_event_us t) = max a 1" "a \<le> unat now"
  shows "a + unat (min_spacing_us t) \<le> unat now + as_micros (wait_if_needed now t)"
proof -
  have "last_event_us t \<noteq> 0" using assms(1) by (auto simp: max_def split: if_splits)
  with assms show ?thesis by (simp add: wait_if_needed_eq max_def split: if_splits)
qed

text \<open>The timing's record of the last activity is not before anything heard or spoken.\<close>

definition timing_ok :: "u64 \<Rightarrow> 's line_server \<Rightarrow> bool" where
  "timing_ok gap ln \<longleftrightarrow>
     (\<exists>l ls t. layers (ln_stream ln) = l # ls \<and> has_timing l \<and> bus (ln_stream ln) = Some t \<and> min_spacing_us t = gap
       \<and> ((\<forall>(u, act) \<in> set (ln_log ln). \<not> audible act)
          \<or> (\<exists>last. unat (last_event_us t) = max last 1 \<and> last \<le> as_micros (clock (ln_stream ln))
               \<and> (\<forall>(u, act) \<in> set (ln_log ln). audible act \<longrightarrow> as_micros u \<le> last))))
     \<and> spaced (unat gap) (ln_log ln)"

lemma now_micros_unat: "as_micros (clock st) < 2 ^ 64 \<Longrightarrow> unat (now_micros st) = as_micros (clock st)"
  by (simp add: now_micros_def unat_of_nat)

lemma touch_last: "unat (last_event_us (touch now t)) = max (unat now) 1" "min_spacing_us (touch now t) = min_spacing_us t"
  by (simp_all add: touch_def max_def word_le_nat_alt)

lemma as_micros_mono: "a \<le> b \<Longrightarrow> as_micros a \<le> as_micros b"
  by (simp add: as_micros_def div_le_mono)

lemma line_reply_clock: "clock (ln_stream ln) \<le> clock (ln_stream (line_reply f ln))"
  using prepare_send_clock [of "ln_stream ln"] by simp

lemma line_replies_clock: "clock (ln_stream ln) \<le> clock (ln_stream (fold line_reply fs ln))"
  by (induction fs arbitrary: ln) (auto simp del: line_reply_simps intro: order_trans line_reply_clock)

text \<open>Nothing in a log is later than the clock.\<close>

definition log_past :: "'s line_server \<Rightarrow> bool" where
  "log_past ln \<longleftrightarrow> (\<forall>(u, act) \<in> set (ln_log ln). u \<le> clock (ln_stream ln))"

text \<open>An audible entry made now, with the timing touched now.\<close>

lemma timing_touched:
  assumes "layers (ln_stream ln) = l # ls" "has_timing l" "bus (ln_stream ln) = Some (touch (of_nat now) t)" "min_spacing_us t = gap"
    and "now = as_micros (clock (ln_stream ln))" "now < 2 ^ 64" "log_past ln" "spaced (unat gap) (ln_log ln)"
  shows "timing_ok gap ln"
proof -
  have "unat (of_nat now :: u64) = now" using assms(6) by (simp add: unat_of_nat)
  moreover have "\<forall>(u, act) \<in> set (ln_log ln). audible act \<longrightarrow> as_micros u \<le> now"
    using assms(5,7) as_micros_mono by (fastforce simp: log_past_def)
  ultimately show ?thesis using assms(1-5,8) unfolding timing_ok_def
    by (intro conjI exI [of _ l] exI [of _ ls] exI [of _ "touch (of_nat now) t"] disjI2 exI [of _ now]) (simp_all add: touch_last)
qed

lemma line_reply_spaced:
  assumes "timing_ok gap ln" "log_past ln" "as_micros (clock (ln_stream (line_reply f ln))) < 2 ^ 64"
  shows "timing_ok gap (line_reply f ln)"
proof -
  let ?st = "ln_stream ln" and ?log = "ln_log ln"
  from assms(1) obtain l ls t where l: "layers ?st = l # ls" "has_timing l" and t: "bus ?st = Some t" "min_spacing_us t = gap"
    and last: "(\<forall>(u, act) \<in> set ?log. \<not> audible act) \<or> (\<exists>last. unat (last_event_us t) = max last 1 \<and> last \<le> as_micros (clock ?st)
               \<and> (\<forall>(u, act) \<in> set ?log. audible act \<longrightarrow> as_micros u \<le> last))"
    and spaced: "spaced (unat gap) ?log"
    unfolding timing_ok_def by blast
  let ?now = "as_micros (clock (prepare_send ?st))"
  have now: "?now < 2 ^ 64" using assms(3) by simp
  have before: "as_micros (clock ?st) < 2 ^ 64"
    using now as_micros_mono [OF prepare_send_clock [of ?st]] by simp
  have wait: "?now = as_micros (clock ?st) + as_micros (wait_if_needed (now_micros ?st) t)"
    using l t by (simp add: prepare_send_def as_micros_def wait_if_needed_def from_micros_def Let_def)
  have "as_micros u + unat gap \<le> ?now" if u: "(u, act) \<in> set ?log" "audible act" for u act
  proof -
    from last u obtain a where a: "unat (last_event_us t) = max a 1" "a \<le> as_micros (clock ?st)" "as_micros u \<le> a" by fast
    from wait_enough [OF a(1), of "now_micros ?st"] a(2,3) t(2) wait before show ?thesis by (simp add: now_micros_unat)
  qed
  then have "spaced (unat gap) (ln_log (line_reply f ln))" using spaced by (auto simp: spaced_spoke)
  moreover have "log_past (line_reply f ln)"
    using assms(2) prepare_send_clock [of ?st] by (fastforce simp: log_past_def)
  moreover have "bus (ln_stream (line_reply f ln)) = Some (touch (of_nat ?now) t)"
    using l t by (simp add: line_reply_def Let_def touch_bus_def now_micros_def)
  ultimately show ?thesis using l t(2) now by (intro timing_touched) simp_all
qed

lemma line_reply_past: "log_past ln \<Longrightarrow> log_past (line_reply f ln)"
  using prepare_send_clock [of "ln_stream ln"] by (fastforce simp: log_past_def)

lemma line_replies_spaced:
  assumes "timing_ok gap ln" "log_past ln" "as_micros (clock (ln_stream (fold line_reply fs ln))) < 2 ^ 64"
  shows "timing_ok gap (fold line_reply fs ln)"
  using assms
proof (induction fs arbitrary: ln)
  case (Cons f fs)
  have "as_micros (clock (ln_stream (line_reply f ln))) < 2 ^ 64"
    using Cons.prems(3) as_micros_mono [OF line_replies_clock [of "line_reply f ln" fs]] by simp
  with Cons.prems have "timing_ok gap (line_reply f ln)" by (intro line_reply_spaced)
  with Cons show ?case by (simp add: line_reply_past del: line_reply_simps)
qed simp

lemma line_replies_past: "log_past ln \<Longrightarrow> log_past (fold line_reply fs ln)"
  by (induction fs arbitrary: ln) (simp_all add: line_reply_past)

text \<open>What \<open>read_timed\<close> does to the timing.\<close>

lemma read_timed_bus:
  "bus (snd (read_timed w st)) =
     (if audible (Heard (fst (read_timed w st))) then bus (touch_bus (snd (read_timed w st) \<lparr> bus := bus st \<rparr>)) else bus st)"
  by (auto simp: read_timed_def read_event_def Let_def touch_bus_def record_tap_def now_micros_def
      split: list.splits arrival.splits)

lemma line_read_past:
  assumes "line_read timeout ln = Some (ev, ln')" "log_past ln"
  shows "log_past ln'" "clock (ln_stream ln) \<le> clock (ln_stream ln')"
proof -
  obtain w st where read: "read_timed w (line_room (ln_stream ln)) = (ev, st)" "ln' = line_log (Heard ev) (ln \<lparr> ln_stream := st \<rparr>)"
    using assms(1) by (rule line_read_cases)
  from read_timed_clock(1) [OF read(1)] read(2) show "clock (ln_stream ln) \<le> clock (ln_stream ln')" by simp
  with assms(2) read(2) show "log_past ln'" by (fastforce simp: log_past_def)
qed

lemma line_read_spaced:
  assumes "line_read timeout ln = Some (ev, ln')" "timing_ok gap ln" "log_past ln" "as_micros (clock (ln_stream ln')) < 2 ^ 64"
  shows "timing_ok gap ln'"
proof -
  let ?st = "ln_stream ln"
  obtain w st where read: "read_timed w (line_room ?st) = (ev, st)" and ln': "ln' = line_log (Heard ev) (ln \<lparr> ln_stream := st \<rparr>)"
    using assms(1) by (rule line_read_cases)
  from assms(2) obtain l ls t where l: "layers ?st = l # ls" "has_timing l" and t: "bus ?st = Some t" "min_spacing_us t = gap"
    and last: "(\<forall>(u, act) \<in> set (ln_log ln). \<not> audible act) \<or> (\<exists>last. unat (last_event_us t) = max last 1 \<and> last \<le> as_micros (clock ?st)
               \<and> (\<forall>(u, act) \<in> set (ln_log ln). audible act \<longrightarrow> as_micros u \<le> last))"
    and spaced: "spaced (unat gap) (ln_log ln)"
    unfolding timing_ok_def by blast
  have layers: "layers st = l # ls" using read_timed_rest(2) [of w "line_room ?st"] read l by simp
  note bus = read_timed_bus [of w "line_room ?st", unfolded read fst_conv snd_conv line_room_simps]
  show ?thesis
  proof (cases "audible (Heard ev)")
    case True
    with bus t l layers have "bus st = Some (touch (of_nat (as_micros (clock st))) t)"
      by (simp add: touch_bus_def now_micros_def)
    with l layers t(2) assms(3,4) spaced line_read_past(1) [OF assms(1,3)] show ?thesis
      by (intro timing_touched) (simp_all add: ln')
  next
    case False
    have clock: "as_micros (clock ?st) \<le> as_micros (clock st)"
      using line_read_past(2) [OF assms(1,3)] by (intro as_micros_mono) (simp add: ln')
    have "bus st = Some t" using False bus t by simp
    moreover have "(\<forall>(u, act) \<in> set (ln_log ln'). \<not> audible act) \<or> (\<exists>last. unat (last_event_us t) = max last 1 \<and> last \<le> as_micros (clock st)
               \<and> (\<forall>(u, act) \<in> set (ln_log ln'). audible act \<longrightarrow> as_micros u \<le> last))"
      using last
    proof (elim disjE exE conjE)
      fix a
      assume "unat (last_event_us t) = max a 1" "a \<le> as_micros (clock ?st)" "\<forall>(u, act) \<in> set (ln_log ln). audible act \<longrightarrow> as_micros u \<le> a"
      with False clock show ?thesis by (intro disjI2 exI [of _ a]) (auto simp: ln')
    qed (use False in \<open>auto simp: ln'\<close>)
    ultimately show ?thesis using layers l(2) t(2) spaced unfolding timing_ok_def by (simp add: ln')
  qed
qed

section \<open>What holds of a run\<close>

text \<open>
  What holds whenever the loop reads: the server is what the untimed one is after the reads so far,
  the log is the one the line and the time-out determine, and so on; with the spacings kept, as long
  as the clock of the timing does not wrap.
\<close>

definition line_inv ::
  "(poll_result list \<Rightarrow> 's server \<Rightarrow> 's server option) \<Rightarrow> (bytes \<Rightarrow> bool) \<Rightarrow> duration \<Rightarrow> 's server \<Rightarrow> stream
     \<Rightarrow> u64 set \<Rightarrow> 's line_server \<Rightarrow> bool" where
  "line_inv serve settled timeout start st gaps ln \<longleftrightarrow>
     serve (heard (ln_log ln)) start = Some (ln_server ln)
     \<and> sv_status (ln_server ln) \<noteq> Panicked \<and> (sv_status (ln_server ln) = Serving \<longrightarrow> settled (sv_buf (ln_server ln)))
     \<and> sv_out (ln_server ln) = sv_out start @ spoken (ln_log ln) \<and> sent (ln_stream ln) = sent st @ spoken (ln_log ln)
     \<and> log_run timeout (clock st, line_units st) (ln_log ln) = Some (clock (ln_stream ln), line_units (ln_stream ln))
     \<and> answers serve settled start (ln_log ln) \<and> log_past ln
     \<and> (\<forall>gap \<in> gaps. as_micros (clock (ln_stream ln)) < 2 ^ 64 \<longrightarrow> timing_ok gap ln)"

text \<open>The same before a turn, with the read logged and the server not yet at it.\<close>

lemma line_inv_read:
  assumes "line_inv serve settled timeout start st gaps ln" "line_read timeout ln = Some (ev, ln1)"
    and "sv_status (ln_server ln) = Serving"
  shows "serve (heard (ln_log ln)) start = Some (ln_server ln)" "heard (ln_log ln1) = heard (ln_log ln) @ [ev]"
    and "ln_server ln1 = ln_server ln" "settled (sv_buf (ln_server ln))"
    and "sv_out (ln_server ln) = sv_out start @ spoken (ln_log ln1)" "sent (ln_stream ln1) = sent st @ spoken (ln_log ln1)"
    and "log_run timeout (clock st, line_units st) (ln_log ln1) = Some (clock (ln_stream ln1), line_units (ln_stream ln1))"
    and "answers serve settled start (ln_log ln1)" "log_past ln1"
    and "gap \<in> gaps \<Longrightarrow> as_micros (clock (ln_stream ln1)) < 2 ^ 64 \<Longrightarrow> timing_ok gap ln1"
proof -
  note inv = assms(1) [unfolded line_inv_def] and log = line_read_logs [OF assms(2)] and step = line_read_step [OF assms(2)]
  from inv have past: "log_past ln" by simp
  note past' = line_read_past [OF assms(2) past]
  show "serve (heard (ln_log ln)) start = Some (ln_server ln)" "heard (ln_log ln1) = heard (ln_log ln) @ [ev]"
    "ln_server ln1 = ln_server ln" "settled (sv_buf (ln_server ln))"
    "sv_out (ln_server ln) = sv_out start @ spoken (ln_log ln1)" "sent (ln_stream ln1) = sent st @ spoken (ln_log ln1)"
    "log_past ln1"
    using inv log assms(3) past'(1) by simp_all
  show "log_run timeout (clock st, line_units st) (ln_log ln1) = Some (clock (ln_stream ln1), line_units (ln_stream ln1))"
    using inv step(1) log(4) by (simp add: log_run_snoc)
  show "answers serve settled start (ln_log ln1)"
    using inv step(2) log(4) assms(3) by (simp add: answers_heard)
  assume "gap \<in> gaps" and lt: "as_micros (clock (ln_stream ln1)) < 2 ^ 64"
  moreover have "as_micros (clock (ln_stream ln)) < 2 ^ 64" using lt as_micros_mono [OF past'(2)] by simp
  ultimately have "timing_ok gap ln" using inv by blast
  from line_read_spaced [OF assms(2) this past lt] show "timing_ok gap ln1" .
qed

text \<open>A read that would wait for ever: nothing in the buffer and nothing ahead.\<close>

lemma line_read_None: "line_read timeout ln = None \<Longrightarrow> sv_buf (ln_server ln) = [] \<and> line_units (ln_stream ln) = []"
  by (auto simp: line_read_def line_wait_def line_units_def split: option.splits prod.splits if_splits list.splits)

section \<open>What the loops of the serial servers have in common\<close>

locale serial_line =
  fixes event :: "'s server \<Rightarrow> poll_result \<Rightarrow> 's server option"
    and serve :: "poll_result list \<Rightarrow> 's server \<Rightarrow> 's server option"
    and settled :: "bytes \<Rightarrow> bool"
  assumes event_returns: "\<exists>sv'. event sv ev = Some sv'"
    and event_out: "event sv ev = Some sv' \<Longrightarrow> \<exists>fs. sv_out sv' = sv_out sv @ fs"
    and event_elapsed: "settled (sv_buf sv) \<Longrightarrow> event sv Elapsed = Some sv' \<Longrightarrow> sv_buf sv' = []"
    and event_settled: "settled (sv_buf sv) \<Longrightarrow> sv_status sv = Serving \<Longrightarrow> event sv ev = Some sv' \<Longrightarrow>
           sv_status sv' \<noteq> Panicked \<and> (sv_status sv' = Serving \<longrightarrow> settled (sv_buf sv'))"
    and serve_Nil: "serve [] sv = Some sv"
    and serve_Cons: "serve (ev # evs) sv =
           (if sv_status sv \<noteq> Serving then Some sv
            else case event sv ev of None \<Rightarrow> None | Some sv \<Rightarrow> serve evs sv)"
begin

lemma serve_snoc:
  assumes "serve evs start = Some sv" "sv_status sv = Serving" "event sv ev = Some sv'"
  shows "serve (evs @ [ev]) start = Some sv'"
  using assms
proof (induction evs arbitrary: start)
  case Nil
  then show ?case by (simp add: serve_Cons serve_Nil)
next
  case (Cons e evs)
  then show ?case by (auto simp: serve_Cons split: if_splits option.splits)
qed

lemma line_event_ex:
  obtains sv fs ln' where "event (ln_server ln) ev = Some sv" "sv_out sv = sv_out (ln_server ln) @ fs"
    "line_event event ev ln = Some ln'" "ln' = (fold line_reply fs ln) \<lparr> ln_server := sv \<rparr>"
proof -
  obtain sv where sv: "event (ln_server ln) ev = Some sv" using event_returns by blast
  then obtain fs where "sv_out sv = sv_out (ln_server ln) @ fs" using event_out by blast
  with sv show ?thesis by (intro that [OF sv]) (simp_all add: line_event_def)
qed

text \<open>One round of the loop.\<close>

lemma line_serve_step:
  assumes "sv_status (ln_server ln) = Serving" "line_read timeout ln = Some (ev, ln1)" "line_event event ev ln1 = Some ln2"
  shows "line_serve event timeout ln = line_serve event timeout ln2"
  using assms by (subst line_serve.simps) simp

lemma line_serve_end:
  assumes "sv_status (ln_server ln) \<noteq> Serving \<or> line_read timeout ln = None"
  shows "line_serve event timeout ln = Some ln"
  using assms by (subst line_serve.simps) auto

text \<open>A turn keeps what holds of a run.\<close>

lemma line_inv_round:
  assumes inv: "line_inv serve settled timeout start st gaps ln" and serving: "sv_status (ln_server ln) = Serving"
    and read: "line_read timeout ln = Some (ev, ln1)" and event: "line_event event ev ln1 = Some ln2"
  shows "line_inv serve settled timeout start st gaps ln2"
proof -
  note r = line_inv_read [OF inv read serving]
  obtain sv fs where sv: "event (ln_server ln1) ev = Some sv" "sv_out sv = sv_out (ln_server ln1) @ fs"
    and ln2: "ln2 = (fold line_reply fs ln1) \<lparr> ln_server := sv \<rparr>"
    using line_event_ex [of ln1 ev] event by (metis option.inject)
  have "serve (heard (ln_log ln1)) start = Some sv"
    unfolding r(2) using r(1,3) serving sv(1) by (intro serve_snoc) simp_all
  moreover have "sv_status sv \<noteq> Panicked \<and> (sv_status sv = Serving \<longrightarrow> settled (sv_buf sv))"
    using event_settled [OF r(4) serving] sv(1) r(3) by simp
  moreover have "timing_ok gap ln2" if "gap \<in> gaps" "as_micros (clock (ln_stream ln2)) < 2 ^ 64" for gap
  proof -
    have lt: "as_micros (clock (ln_stream (fold line_reply fs ln1))) < 2 ^ 64" using that(2) by (simp add: ln2)
    then have "as_micros (clock (ln_stream ln1)) < 2 ^ 64"
      using as_micros_mono [OF line_replies_clock [of ln1 fs]] by simp
    from line_replies_spaced [OF r(10) [OF that(1) this] r(9) lt] show ?thesis by (simp add: ln2 timing_ok_def)
  qed
  moreover have "log_past ln2" using line_replies_past [OF r(9), of fs] by (simp add: ln2 log_past_def)
  ultimately show ?thesis
    using r(3,5,6,8) sv(2) line_replies_run [OF r(7), of fs]
    unfolding line_inv_def by (simp add: ln2 line_replies line_replies_units)
qed

text \<open>
  The loop returns, and what holds of a run holds at its end: each turn takes a read from those
  ahead, or empties the buffer.
\<close>

lemma line_runs:
  assumes "line_inv serve settled timeout start st gaps ln"
  shows "\<exists>ln'. line_serve event timeout ln = Some ln' \<and> line_inv serve settled timeout start st gaps ln'
    \<and> (sv_status (ln_server ln') = Serving \<longrightarrow> sv_buf (ln_server ln') = [] \<and> line_units (ln_stream ln') = [])"
  using assms
proof (induction "2 * length (line_units (ln_stream ln)) + (if sv_buf (ln_server ln) = [] then 0 else 1)"
    arbitrary: ln rule: less_induct)
  case less
  show ?case
  proof (cases "sv_status (ln_server ln) = Serving \<and> line_read timeout ln \<noteq> None")
    case True
    then obtain ev ln1 where serving: "sv_status (ln_server ln) = Serving" and read: "line_read timeout ln = Some (ev, ln1)" by auto
    obtain sv fs ln2 where ev: "event (ln_server ln1) ev = Some sv" and ln2: "line_event event ev ln1 = Some ln2"
      "ln2 = (fold line_reply fs ln1) \<lparr> ln_server := sv \<rparr>" by (rule line_event_ex)
    have units: "line_units (ln_stream ln2) = line_units (ln_stream ln1)" by (simp add: ln2(2) line_replies_units)
    have "2 * length (line_units (ln_stream ln2)) + (if sv_buf (ln_server ln2) = [] then 0 else 1)
        < 2 * length (line_units (ln_stream ln)) + (if sv_buf (ln_server ln) = [] then 0 else (1 :: nat))"
    proof (cases "ev = Elapsed")
      case True
      then have "sv_buf (ln_server ln2) = []"
        using event_elapsed [of "ln_server ln1" sv] ev line_inv_read(3,4) [OF less.prems read serving] ln2(2) by simp
      with line_read_step(2) [OF read True] units show ?thesis by simp
    next
      case False
      from line_read_step(3) [OF read this] units show ?thesis by simp
    qed
    from less.hyps [OF this line_inv_round [OF less.prems serving read ln2(1)]] show ?thesis
      by (simp only: line_serve_step [OF serving read ln2(1)])
  next
    case False
    then have over: "sv_status (ln_server ln) \<noteq> Serving \<or> line_read timeout ln = None" by blast
    from line_serve_end [OF this] over less.prems line_read_None [of timeout ln] show ?thesis by auto
  qed
qed

end

section \<open>The two servers\<close>

interpretation rtu_line: serial_line "rtu_serve_event svc" "rtu_serve svc" "\<lambda>b. rtu_parse b = None" for svc :: "'s service"
proof
  fix sv sv' :: "'s server" and ev
  show "\<exists>sv'. rtu_serve_event svc sv ev = Some sv'" by (rule rtu_serve_event_returns)
  show "\<exists>fs. sv_out sv' = sv_out sv @ fs" if "rtu_serve_event svc sv ev = Some sv'"
    using that rtu.serve_frames_out
    by (cases ev) (fastforce simp: rtu_serve_event_def split: if_splits)+
  show "sv_buf sv' = []" if "rtu_parse (sv_buf sv) = None" "rtu_serve_event svc sv Elapsed = Some sv'"
    using that by (auto simp: rtu_serve_event_def rtu_parse_def split: if_splits)
  show "sv_status sv' \<noteq> Panicked \<and> (sv_status sv' = Serving \<longrightarrow> rtu_parse (sv_buf sv') = None)"
    if "rtu_parse (sv_buf sv) = None" "sv_status sv = Serving" "rtu_serve_event svc sv ev = Some sv'"
    using that rtu.serve_frames_done rtu.serve_frames_no_panic
    by (cases ev) (fastforce simp: rtu_serve_event_def rtu.no_frame_in_empty split: if_splits)+
qed simp_all

interpretation ascii_line: serial_line "ascii_serve_event svc" "ascii_serve svc" "\<lambda>b. ascii_parse b = None" for svc :: "'s service"
proof
  fix sv sv' :: "'s server" and ev
  show "\<exists>sv'. ascii_serve_event svc sv ev = Some sv'"
    using ascii.serve_frames_returns by (cases ev) (auto simp: ascii_serve_event_def)
  show "\<exists>fs. sv_out sv' = sv_out sv @ fs" if "ascii_serve_event svc sv ev = Some sv'"
    using that ascii.serve_frames_out
    by (cases ev) (fastforce simp: ascii_serve_event_def split: if_splits)+
  show "sv_buf sv' = []" if "ascii_serve_event svc sv Elapsed = Some sv'"
    using that by (auto simp: ascii_serve_event_def split: if_splits)
  show "sv_status sv' \<noteq> Panicked \<and> (sv_status sv' = Serving \<longrightarrow> ascii_parse (sv_buf sv') = None)"
    if "ascii_parse (sv_buf sv) = None" "sv_status sv = Serving" "ascii_serve_event svc sv ev = Some sv'"
    using that ascii.serve_frames_done ascii.serve_frames_no_panic
    by (cases ev) (fastforce simp: ascii_serve_event_def ascii.no_frame_in_empty split: if_splits)+
qed simp_all

lemma line_start_simps [simp]:
  "sv_status (ln_server (line_start sc st s)) = Serving" "sv_buf (ln_server (line_start sc st s)) = []"
  "sv_out (ln_server (line_start sc st s)) = []" "ln_log (line_start sc st s) = []"
  "sent (ln_stream (line_start sc st s)) = sent st" "clock (ln_stream (line_start sc st s)) = clock st"
  by (simp_all add: line_start_def server_new_def server_stream_def sniff_new_def)

lemma line_start_units [simp]: "line_units (ln_stream (line_start sc st s)) = line_units st"
proof -
  have "tap_count (server_stream sc st) = tap_count st" "arrivals (server_stream sc st) = arrivals st"
    by (simp_all add: server_stream_def sniff_new_def tap_count_def)
  then have "line_units (server_stream sc st) = line_units st"
    by (simp add: line_units_def read_event_def cong: arrival.case_cong)
  then show ?thesis by (simp add: line_start_def)
qed

lemma line_start_inv:
  assumes "serve [] (ln_server (line_start sc st s)) = Some (ln_server (line_start sc st s))" "settled []"
  shows "line_inv serve settled timeout (ln_server (line_start sc st s)) st
    {min_spacing_us timing | timing. srv_bus_timing sc = Some timing} (line_start sc st s)"
proof -
  have "timing_ok (min_spacing_us timing) (line_start sc st s)" if "srv_bus_timing sc = Some timing" for timing
    using that by (simp add: timing_ok_def line_start_def server_stream_def sniff_new_def)
  with assms show ?thesis by (auto simp: line_inv_def log_past_def)
qed

text \<open>A run from the start.\<close>

context serial_line
begin

lemma line_forever:
  fixes s :: 's and st :: stream
  assumes "settled []"
  defines "start \<equiv> server_new s \<lparr> sv_writes := write_plan st \<rparr>"
  shows "\<exists>ln. line_serve event timeout (line_start sc st s) = Some ln
    \<and> serve (heard (ln_log ln)) start = Some (ln_server ln)
    \<and> log_run timeout (clock st, line_units st) (ln_log ln) = Some (clock (ln_stream ln), line_units (ln_stream ln))
    \<and> answers serve settled start (ln_log ln)
    \<and> sent (ln_stream ln) = sent st @ spoken (ln_log ln) \<and> spoken (ln_log ln) = sv_out (ln_server ln)
    \<and> sv_status (ln_server ln) \<noteq> Panicked
    \<and> (sv_status (ln_server ln) = Serving \<longrightarrow> sv_buf (ln_server ln) = [] \<and> line_units (ln_stream ln) = [])
    \<and> (\<forall>timing. srv_bus_timing sc = Some timing \<and> as_micros (clock (ln_stream ln)) < 2 ^ 64 \<longrightarrow>
         spaced (unat (min_spacing_us timing)) (ln_log ln))"
proof -
  let ?gaps = "{min_spacing_us timing | timing. srv_bus_timing sc = Some timing}"
  have start: "ln_server (line_start sc st s) = start" "sv_out start = []"
    by (simp_all add: start_def line_start_def server_new_def)
  have "line_inv serve settled timeout (ln_server (line_start sc st s)) st ?gaps (line_start sc st s)"
    by (intro line_start_inv serve_Nil assms(1))
  from line_runs [OF this] obtain ln where run: "line_serve event timeout (line_start sc st s) = Some ln"
    and inv: "line_inv serve settled timeout start st ?gaps ln"
    and over: "sv_status (ln_server ln) = Serving \<longrightarrow> sv_buf (ln_server ln) = [] \<and> line_units (ln_stream ln) = []"
    unfolding start by blast
  have "spaced (unat (min_spacing_us timing)) (ln_log ln)"
    if "srv_bus_timing sc = Some timing" "as_micros (clock (ln_stream ln)) < 2 ^ 64" for timing
    using inv that by (auto simp: line_inv_def timing_ok_def)
  with inv run over start(2) show ?thesis by (intro exI [of _ ln]) (simp add: line_inv_def)
qed

end

text \<open>
  One request on the RTU server: the reply is spoken exactly one spacing after the request was heard.
\<close>

lemma rtu_request_in_time:
  assumes sc: "srv_bus_timing sc = Some timing"
    and st: "arrivals st = [(t, Data (encode_rtu_frame (slave # pdu) []))]" "write_plan st = []" "layers st = []" "clock st \<le> t"
    and req: "slave \<noteq> 0" "request_try_from pdu = Ok req" and short: "length pdu \<le> 253" and s: "store_bounded s" and t: "as_micros t < 2 ^ 64"
  defines "reply \<equiv> encode_rtu_frame (slave # response_pdu (reply_of req (fst (store_call s req)))) []"
  obtains ln where "rtu_serve_forever sc store_service st s = Some ln"
    "ln_log ln = [(t, Heard (Got (encode_rtu_frame (slave # pdu) []))), (t + min_spacing timing, Spoke reply)]"
    "clock (ln_stream ln) = t + min_spacing timing"
proof -
  let ?f = "encode_rtu_frame (slave # pdu) []"
  let ?sv = "server_new s \<lparr> sv_writes := [] \<rparr>"
  let ?ln = "line_start sc st s"
  obtain b bs where f: "?f = b # bs" by (cases ?f) (auto simp: encode_rtu_frame_eq)
  define sv where "sv = ?sv \<lparr> sv_rsp := [], sv_service := snd (store_call s req), sv_out := [reply] \<rparr>"
  have "rtu_serve store_service [Got ?f] ?sv = Some sv"
    using rtu_serve_request_aux [of ?sv slave pdu req] req s by (simp add: sv_def reply_def server_new_def)
  moreover have "sv_status ?sv = Serving" by (simp add: server_new_def)
  ultimately have ev: "rtu_serve_event store_service ?sv (Got ?f) = Some sv"
    by (simp split: option.splits if_splits)
  let ?heard = "record_tap (TapRx ?f) (touch_bus (server_stream sc st \<lparr> clock := t, arrivals := [] \<rparr>))"
  define ln1 where "ln1 = line_log (Heard (Got ?f)) (?ln \<lparr> ln_stream := ?heard \<rparr>)"
  have stream: "ln_stream ?ln = server_stream sc st" "ln_server ?ln = ?sv"
    "clock (server_stream sc st) = clock st" "arrivals (server_stream sc st) = arrivals st"
    by (simp_all add: line_start_def server_stream_def sniff_new_def st)
  have "length pdu \<le> 253" by (rule short)
  then have "line_room (server_stream sc st) = server_stream sc st"
    using stream(4) st(1) by (simp add: line_room_def encode_rtu_frame_eq MAX_ADU_SIZE_def)
  then have read: "line_read (rtu_read_timeout sc) ?ln = Some (Got ?f, ln1)"
    using st stream f
    by (simp add: line_read_def line_wait_def read_timed_def read_event_def tap_count_def ln1_def
        server_stream_def sniff_new_def server_new_def)
  define ln2 where "ln2 = line_reply reply ln1 \<lparr> ln_server := sv \<rparr>"
  have server1: "ln_server ln1 = ?sv" by (simp add: ln1_def stream)
  have event: "line_event (rtu_serve_event store_service) (Got ?f) ln1 = Some ln2"
    using ev by (simp add: line_event_def server1 ln2_def sv_def server_new_def)
  have "line_read (rtu_read_timeout sc) ln2 = None"
    by (simp add: line_read_def line_wait_def ln2_def sv_def server_new_def ln1_def)
  then have "line_serve (rtu_serve_event store_service) (rtu_read_timeout sc) ln2 = Some ln2"
    by (intro rtu_line.line_serve_end) simp
  with rtu_line.line_serve_step [OF _ read event]
  have run: "rtu_serve_forever sc store_service st s = Some ln2" by (simp add: rtu_serve_forever_def)
  let ?last = "touch (of_nat (as_micros t)) timing"
  have now: "unat (of_nat (as_micros t) :: u64) = as_micros t" using t by (simp add: unat_of_nat)
  have layers: "layers ?heard = [\<lparr> has_tap = False, has_timing = True, data_room = DEFAULT_DATA_CHANNEL_CAPACITY,
      tap_room = DEFAULT_TAP_CHANNEL_CAPACITY \<rparr>]"
    and bus: "bus ?heard = Some ?last"
    using sc st(3) by (simp_all add: server_stream_def sniff_new_def touch_bus_def now_micros_def)
  have "wait_if_needed (of_nat (as_micros t)) ?last = min_spacing timing"
    using wait_if_needed_eq [OF touch_nonzero, of "of_nat (as_micros t)" "of_nat (as_micros t)" timing] now
    by (simp add: touch_last min_spacing_def)
  then have clock: "clock (prepare_send ?heard) = t + min_spacing timing"
    using layers bus unfolding prepare_send_def by (simp add: now_micros_def)
  have "ln_log ln2 = [(t, Heard (Got ?f)), (t + min_spacing timing, Spoke reply)]"
    using clock stream by (simp add: ln2_def ln1_def line_start_def)
  moreover have "clock (ln_stream ln2) = t + min_spacing timing"
    using clock by (simp add: ln2_def ln1_def line_reply_def Let_def)
  ultimately show ?thesis by (intro that [OF run]) simp_all
qed

end
