(* ===== verification/Spec2Isabelle.thy ===== *)
theory Spec2Isabelle
  imports Modbus_Setup Modbus_Debug Modbus_Listener Modbus_Serial_Line
begin

text \<open>
  A verification development for oms-modbus, an asynchronous Modbus library in Rust: client and
  server over RTU (serial, binary), ASCII (serial, hex) and TCP, with traffic capture.

  \<^bold>\<open>The program and the theories.\<close>  A request is encoded to a PDU (\<open>src/frame.rs\<close>), framed by a
  transport (\<open>src/codec.rs\<close>, \<open>src/transport/rtu.rs\<close>, \<open>ascii.rs\<close>, \<open>tcp.rs\<close>), written to a byte
  stream; the server cuts frames off its input, decodes the PDU, calls a service (\<open>src/server.rs\<close>,
  \<open>src/slave_store.rs\<close>) and frames the response; the client reads, unframes and decodes it
  (\<open>src/transport/send_recv.rs\<close>) and its methods check it (\<open>src/client.rs\<close>).  A proxy stream
  (\<open>src/transport/sniff_io.rs\<close>) copies the traffic to recorders (\<open>src/capture.rs\<close>,
  \<open>src/intercept.rs\<close>, \<open>src/monitor/\<close>).

  \<^item> \<open>Modbus_Prelude\<close>: machine words, the outcome of an operation that can fail or panic, the byte
    buffer and cursor operations, bit packing, number formatting, the lemma collections.
  \<^item> \<open>Modbus_Error\<close>: the error type, its display, which errors are retried.
  \<^item> \<open>Modbus_Frame\<close>: requests, responses, exceptions, the PDU encoders and decoders, every guard of
    the source a branch.  \<open>Modbus_Pdu\<close>: their canonical wire forms with the exception codes of the
    specification; each encoder succeeds exactly on what fits, each decoder accepts exactly the wire
    forms.
  \<^item> \<open>Modbus_Codec\<close>: CRC table and update, LRC, RTU and ASCII frame encoding; polynomial division
    over GF(2), whose remainder the CRC is, and what the check sums detect.
  \<^item> \<open>Modbus_Store\<close>: the slave's growing vectors of coils and registers and the service over them; the
    abstract store (four address-indexed memories) and the refinement; the locales \<open>bank\<close> and
    \<open>bounded_bank\<close>, interpreted on the bit and the register vectors.
  \<^item> \<open>Modbus_Service\<close>: services, hooks, the processing of one request; the locale \<open>service\<close> is the
    contract a server relies on, \<open>hooked_service\<close> gives it for a wrapped service; interpreted on the
    store and on the default hook.
  \<^item> \<open>Modbus_Timing\<close>: bus timing, reconnect and client options.
  \<^item> \<open>Modbus_Send_Recv\<close>: the stream, draining, sending, reading with a deadline, the reconnect loop.
  \<^item> \<open>Modbus_Transport\<close>: what the transports share: client construction and rebuilding, the server's
    loop; the locale \<open>framing\<close> (a parser consumes between one byte and all of the buffer) gives its
    termination, \<open>framed_service\<close> its invariant.
  \<^item> \<open>Modbus_Rtu\<close>, \<open>Modbus_Ascii\<close>, \<open>Modbus_Tcp\<close>: one transport each, parser, client and server; each
    interprets \<open>framing\<close> and \<open>framed_service\<close>.
  \<^item> \<open>Modbus_Listener\<close>: the TCP server with any number of connections over one store: the turns of a
    connection, the step relation \<open>listens\<close> of their interleavings, the order in which requests take
    effect; the sequential handler of \<open>Modbus_Tcp\<close> is one interleaving.
  \<^item> \<open>Modbus_Serial_Line\<close>: \<open>serve_forever\<close> of the two serial servers in time, with reads of at most
    256 bytes, read time-outs and the wait for the bus timing, and a log of all of it; the locale
    \<open>serial_line\<close> (a turn returns, a time-out empties the buffer) gives that the loop returns, that the
    line, the time-out and the untimed server determine its log, and that it keeps its spacing.
  \<^item> \<open>Modbus_Receive\<close>: replies that reach a client in any pieces: what each exchange returns and when.
    \<open>Modbus_Reconnect\<close>: closed connections and the reconnecting TCP client.  \<open>Modbus_Deadlines\<close>: the
    time limit of an exchange and of a call with retries, when a client gives up, and when it never does.
  \<^item> \<open>Modbus_Client\<close>: the client methods; the locale \<open>service_link\<close> is the contract of a transport with
    a server at its other end, \<open>store_link\<close> the one over the store, interpreted on the three
    transports; a server's service is anything that keeps the contract \<open>service\<close>, over RTU also the
    normal length of every reply (\<open>sized_service\<close>).
  \<^item> \<open>Modbus_Examples\<close>: the services, hooks and the tap of \<open>examples/\<close>, interpretations of \<open>service\<close> and
    \<open>hooked_service\<close>.  \<open>Modbus_Session\<close>, \<open>Modbus_Programs\<close>: main functions of the examples as client
    programs; a program over a link simulates the program on the service, or on plain memories, and a
    TCP client that lives through a program puts just its requests on the wire.  \<open>Modbus_Setup\<close>: how
    the examples build their clients, and the limits that sets for their calls.
  \<^item> \<open>Modbus_Capture\<close>: the recorders; the locales \<open>recorder\<close> and \<open>counting_recorder\<close> (which counts
    what it drops) are their contracts, interpreted on three and two of them.
  \<^item> \<open>Modbus_Sniff\<close>: the proxy's bounded channel, its reader and tap tasks, \<open>poll_read\<close> and
    \<open>poll_write\<close>.  \<open>Modbus_Proxy\<close>: the step relation \<open>sniffs\<close> of their interleavings; what the
    caller gets, and what a capture behind the tap has recorded.  \<open>Modbus_Monitor\<close>: the examples with
    a tap, from the program's requests over the wire and the proxy to the report on the capture.
  \<^item> \<open>Modbus_Calendar\<close>, \<open>Modbus_Timestamp\<close>: civil dates, time stamps, packet lines, the file recorder.
    \<open>Modbus_Debug\<close>: the \<open>Debug\<close> output of the clients.

  \<^bold>\<open>Modelling.\<close>  Machine integers are words where the source's arithmetic can wrap and natural
  numbers for lengths (\<open>usize\<close>).  An unchecked read past the end is the outcome \<open>Panic\<close>; an error is
  \<open>Err\<close> or the left of a sum.  Buffers passed by \<open>&mut\<close> are returned.  The byte streams of other
  crates are described by what their reads and writes will do and when (\<open>arrivals\<close>,
  \<open>write_plan\<close>); time is the reading of a clock in nanoseconds that advances while the code waits.
  A server is driven by the list of what its reads return; the serial servers also by timed
  arrivals.  Loops that need not end are partial functions into options (the reconnect loop, the
  frame loop, the timed serial loop); no fuel is used, and \<open>None\<close>, not returning, is proved
  impossible for the frame loop of every framing, for the timed loop on any finite list of
  arrivals, and for the reconnect loop under a retry limit below \<open>2^32 - 1\<close> (at that limit the
  \<open>u32\<close> counter wraps first).

  \<^bold>\<open>Properties.\<close>  Below, in the order of the layers: exactness and round trips of the PDU codecs,
  error detection, the store, request processing, the three framings on server and client, the
  concurrent connections, the composition of client, line, server and store, timing and retrying,
  capture.  Some state what the code does where that is not what it means to do or
  what its documentation says (C16, C18, C19, C20, C21, C26, C27, C31, C34, C36, C37, C38).

  \<^bold>\<open>Not modelled.\<close>  Sockets, serial ports, file and log output, task spawning and the clocks
  themselves (I/O of other crates): accepting a connection and what a read returns are steps with
  any outcome; an attempt to open a transport is a time and a result, and one that never ends, which
  would keep its call for ever, is not among them.  A write goes out whole, fails or stalls.  A
  client's read takes an arrival whole, where the source takes 256 bytes at a time: a longer one stands
  for several at the same time.
  \<open>Debug\<close> output beside that of the clients and what error texts need; accessors that only read a
  field; the fixed text that the examples print around their values; tests, benches and the build.
\<close>

section \<open>Protocol data units\<close>

text \<open>
  C1. Encode and decode of a request are inverse: a request the specification allows and the
  encoder accepts is encoded, and the decoder gives it back whatever bytes follow it.
\<close>

theorem request_roundtrip:
  assumes "request_legal req" and "request_fits req"
  shows "\<exists>pdu. bytes_try_from_request req = Inr pdu \<and> request_try_from (pdu @ junk) = Ok req"
  using encode_request_into_fits [OF assms(2), of "[]"] request_pdu_decodes [OF assms(1), of junk]
  by (auto simp: bytes_try_from_request_def)

theorem request_roundtrip_witness:
  "\<exists>pdu. bytes_try_from_request (Request.WriteMultipleRegisters 0xFFFE [7, 9]) = Inr pdu
     \<and> request_try_from (pdu @ [1]) = Ok (Request.WriteMultipleRegisters 0xFFFE [7, 9])"
  by (rule request_roundtrip) (simp_all add: range_ok_def)

text \<open>
  C2. The request decoder is exact: it accepts precisely the byte strings that start with a wire
  form of a legal request (quantity limits, no address range past 65535, byte counts that match,
  coil values 0x0000 or 0xFF00), and gives that request.
\<close>

theorem request_decoder_exact:
  "request_try_from bs = Ok req \<longleftrightarrow>
     request_legal req \<and> (\<exists>pdu rest. request_wire req pdu \<and> bs = pdu @ rest)"
  by (rule request_try_from_Ok_iff)

text \<open>
  C3. Both encoders are exact: each succeeds precisely on what fits a PDU of 253 bytes, and then
  appends the canonical wire form to the buffer.  On every error the response encoder leaves the
  buffer as it was.
\<close>

theorem encoders_exact:
  "(encode_request_into req buf = (Inr (), buf') \<longleftrightarrow> request_fits req \<and> buf' = buf @ request_pdu req)
   \<and> (isl (fst (encode_response_into rsp buf)) \<longleftrightarrow> \<not> response_fits rsp)
   \<and> snd (encode_response_into rsp buf) = (if response_fits rsp then buf @ response_pdu rsp else buf)"
proof (intro conjI)
  show "encode_request_into req buf = (Inr (), buf') \<longleftrightarrow> request_fits req \<and> buf' = buf @ request_pdu req"
    using encode_request_into_fits [of req buf] encode_request_into_oversized [of req buf]
    by (cases "request_fits req") auto
  show "isl (fst (encode_response_into rsp buf)) \<longleftrightarrow> \<not> response_fits rsp"
    and "snd (encode_response_into rsp buf) = (if response_fits rsp then buf @ response_pdu rsp else buf)"
    by (rule encode_response_into_cases [of rsp buf]; auto)+
qed

text \<open>
  C4. No input makes a decoder panic: the unchecked reads of the byte cursor are all guarded.
\<close>

theorem decoders_never_panic:
  "request_try_from bs \<noteq> Panic \<and> response_try_from bs \<noteq> Panic"
  by (simp add: request_try_from_not_Panic response_try_from_not_Panic)

text \<open>
  C5. A response that fits a PDU survives encoding and decoding, whatever bytes follow it, up to
  what the wire form does not tell: bit lists come back padded with \<open>False\<close> to whole bytes, the
  function code of an exception without its top bit, a custom exception whose code has a name as the
  exception of that name.  A response with none of these comes back as it was.
\<close>

theorem response_roundtrip:
  assumes "response_fits rsp"
  shows "response_try_from (bytes_from_response rsp @ junk) = Ok (response_view rsp)
    \<and> (response_plain rsp \<longrightarrow> response_try_from (bytes_from_response rsp @ junk) = Ok rsp)"
  using encode_response_into_fits [OF assms, of "[]"] response_view_roundtrip [OF assms, of junk]
  by (simp add: bytes_from_response_def response_view_plain)

theorem response_roundtrip_witness:
  "response_try_from (bytes_from_response (Response.ReadCoils [True, False, True]) @ [5])
     = Ok (Response.ReadCoils [True, False, True, False, False, False, False, False])
   \<and> response_try_from (bytes_from_response (Response.Exception 3 IllegalDataAddress) @ [])
     = Ok (Response.Exception 3 IllegalDataAddress)"
proof
  have "pad8 [True, False, True] = [True, False, True, False, False, False, False, False]"
    by (simp add: pad8_def div_ceil_8) (simp add: eval_nat_numeral)
  then have "response_view (Response.ReadCoils [True, False, True])
      = Response.ReadCoils [True, False, True, False, False, False, False, False]" by (simp only: response_view.simps)
  moreover have "response_fits (Response.ReadCoils [True, False, True])" by simp
  ultimately show "response_try_from (bytes_from_response (Response.ReadCoils [True, False, True]) @ [5])
      = Ok (Response.ReadCoils [True, False, True, False, False, False, False, False])"
    using response_roundtrip [of "Response.ReadCoils [True, False, True]" "[5]"] by (simp only:)
  have "response_fits (Response.Exception 3 IllegalDataAddress)" "response_plain (Response.Exception 3 IllegalDataAddress)"
    by simp_all
  from response_roundtrip [OF this(1), of "[]"] this(2)
  show "response_try_from (bytes_from_response (Response.Exception 3 IllegalDataAddress) @ [])
      = Ok (Response.Exception 3 IllegalDataAddress)" by blast
qed

section \<open>Check sums\<close>

text \<open>
  C6. The table-driven CRC is the CRC-16 of the Modbus specification: the message's bits, each byte
  lowest bit first, with sixteen zeros behind and the first sixteen coefficients inverted, leave the
  register, lowest bit first, as their remainder on division by \<open>x^16 + x^15 + x^2 + 1\<close> over GF(2).
\<close>

theorem crc_table_correct: "map (bit (calculate_crc data)) [0..<16] = crc_remainder data"
  using calculate_crc_remainder [of data] by (simp only: register_def)

text \<open>
  C7. Damage of up to two adjacent bytes anywhere in an RTU frame, its CRC included, is noticed:
  neither the server's parser nor the client accepts the frame.  Damage to one data byte of an ASCII
  frame is noticed by the LRC: the line does not decode.
\<close>

theorem serial_damage_detected:
  assumes "encode_rtu_frame data [] = pre @ [a, b] @ post" and "(a', b') \<noteq> (a, b)" and "c \<noteq> d"
  shows "try_parse_server_rtu (pre @ [a', b'] @ post) = None
    \<and> rtu_check_response slave (pre @ [a', b'] @ post) \<noteq> Inr rsp
    \<and> decode_ascii_line (ASCII_START # hex_bytes (before @ d # behind @ [calculate_lrc (before @ c # behind)])) = None"
proof -
  let ?frame = "pre @ [a', b'] @ post"
  have "calculate_crc (pre @ [a, b] @ post) = 0"
    using crc_residue [of data] assms(1) by (simp add: encode_rtu_frame_eq)
  then have "calculate_crc ?frame \<noteq> 0"
    using crc_two_bytes [of pre a b post a' b'] assms(2) by auto
  then have damaged: "?frame \<noteq> encode_rtu_frame d []" for d
    using crc_residue [of d] by (metis append_Nil encode_rtu_frame_eq)
  have "try_parse_server_rtu ?frame = None"
    using try_parse_server_rtu_aux [of ?frame] damaged by (cases "try_parse_server_rtu ?frame") auto
  moreover have "rtu_check_response slave ?frame \<noteq> Inr rsp"
    using rtu_check_response_Inr_aux [of slave ?frame rsp] damaged by blast
  ultimately show ?thesis using corrupted_line_aux [OF assms(3)] by blast
qed

theorem serial_damage_detected_witness:
  "\<exists>a b. try_parse_server_rtu [1, 3, 0, 0, 0, 2, a, b] = None
     \<and> encode_rtu_frame [1, 3, 0, 0, 0, 1] [] = [1, 3, 0, 0] @ [0, 1] @ [a, b]
     \<and> decode_ascii_line (ASCII_START # hex_bytes ([17] @ 4 # [0] @ [calculate_lrc ([17] @ 3 # [0])])) = None"
proof -
  define a b where "a = lo8 (calculate_crc [1, 3, 0, 0, 0, 1])" and "b = hi8 (calculate_crc [1, 3, 0, 0, 0, 1])"
  have frame: "encode_rtu_frame [1, 3, 0, 0, 0, 1] [] = [1, 3, 0, 0] @ [0, 1] @ [a, b]"
    by (simp add: encode_rtu_frame_eq a_def b_def)
  have "(0, 2) \<noteq> (0 :: u8, 1 :: u8)" "3 \<noteq> (4 :: u8)" by simp_all
  from serial_damage_detected [OF frame this, of 1 _ "[17]" "[0]"] frame show ?thesis by auto
qed

text \<open>
  C8. Both ends of an RTU line accept exactly the frames.  The server accepts a buffer precisely when
  it is one whole frame with a right CRC, a PDU of at least two bytes and a known function code; the
  client accepts a response precisely when it is a frame of at least five bytes from the slave it
  asked, with a right CRC and a PDU that decodes.
\<close>

theorem rtu_parsers_exact:
  "(try_parse_server_rtu buf = Some (slave, pdu, n) \<longleftrightarrow>
      n = length buf \<and> buf = encode_rtu_frame (slave # pdu) [] \<and> 2 \<le> length pdu
        \<and> is_known_function_code (hd pdu))
   \<and> (rtu_check_response slave buf = Inr rsp \<longleftrightarrow>
      5 \<le> length buf \<and> (\<exists>pdu. buf = encode_rtu_frame (slave # pdu) [] \<and> response_try_from pdu = Ok rsp))"
  by (intro conjI try_parse_server_rtu_aux rtu_check_response_Inr_aux)

section \<open>The slave's store\<close>

text \<open>
  C9. The store refines four address-indexed memories: every request gives the same response or
  exception on the growing bit and register vectors as on the memories, and the vectors left
  behind stand for the memories left behind.
\<close>

theorem store_call_refines:
  "map_prod id abs_store (store_call s req) = memory_call (abs_store s) req"
  by (rule store_call_refines_aux)

section \<open>The server's request processing\<close>

text \<open>
  C10. One request on the server, completely: slave id 0 and undecodable bytes are ignored and
  leave everything as it was; every other request reaches the store and is answered with its
  response, or with an exception response for its function code.
\<close>

theorem process_request_exact:
  assumes "store_bounded s"
  shows "process_server_request store_service raw slave buf s =
     (case request_try_from raw of
        Ok req \<Rightarrow>
          (if slave = 0 then Ok (None, buf, s)
           else Ok (Some (slave # response_pdu (reply_of req (fst (store_call s req)))), [], snd (store_call s req)))
      | _ \<Rightarrow> Ok (None, buf, s))"
proof (cases "slave \<noteq> 0 \<and> (\<exists>req. request_try_from raw = Ok req)")
  case True
  then obtain req where req: "request_try_from raw = Ok req" and slave: "slave \<noteq> 0" by blast
  show ?thesis using store.answers [OF assms slave req, of buf] req slave by (simp add: store_service_def)
next
  case False
  then show ?thesis
    using process_ignored [of slave raw store_service buf s] by (auto split: outcome.splits)
qed

theorem process_request_exact_witness:
  "process_server_request store_service [6, 0, 1, 0, 7] 9 [] store_new =
     Ok (Some (9 # response_pdu (Response.WriteSingleRegister 1 7)), [],
         snd (store_call store_new (Request.WriteSingleRegister 1 7)))"
proof -
  have "request_try_from [6, 0, 1, 0, 7] = Ok (Request.WriteSingleRegister 1 7)"
    using request_pdu_decodes [of "Request.WriteSingleRegister 1 7" "[]"] by (simp add: hi8_def lo8_def)
  with process_request_exact [OF store_new_bounded, of "[6, 0, 1, 0, 7]" 9 "[]"]
  show ?thesis by (simp add: reply_of_def)
qed

text \<open>
  C11. The layered server of \<open>examples/server_with_hook.rs\<close> (logging around access control around
  computed values around the store) keeps the contract of a service: the function code of a reply
  is the request's, or that with the top bit set for an exception, its PDU has at most 253 bytes,
  and the store stays bounded.
\<close>

theorem reply_well_typed:
  assumes "store_bounded store" and "request_legal req"
  shows "let (result, state) = demo_service admin_slaves ctx (((store, val), u), n) req; rsp = reply_of req result
    in response_fc rsp \<in> {request_fc req, request_fc req OR 0x80} \<and> length (response_pdu rsp) \<le> 253
       \<and> store_bounded (fst (fst (fst state)))"
proof -
  let ?res = "demo_service admin_slaves ctx (((store, val), u), n) req"
  have inv: "store_bounded (fst (fst (fst (((store, val), u), n))))" using assms(1) by simp
  note fc = logging.hooked.reply_fc [OF inv assms(2), of admin_slaves ctx, folded demo_service_def]
  note kept = logging.hooked.call_inv [OF inv assms(2), of admin_slaves ctx, folded demo_service_def]
  have "response_fits (reply_of req (fst ?res))"
    by (rule logging.hooked.reply_fits [OF inv assms(2), of admin_slaves ctx, folded demo_service_def])
  then have "length (response_pdu (reply_of req (fst ?res))) \<le> MAX_PDU_SIZE"
    using length_response_pdu_fits response_fits_valid by blast
  with fc kept show ?thesis by (simp add: case_prod_beta Let_def MAX_PDU_SIZE_def)
qed

theorem reply_well_typed_witness:
  "let (result, state) = demo_service [1] (Some 9) (((store_new, 1000), ()), 0) (Request.ReadCoils 0 8);
       rsp = reply_of (Request.ReadCoils 0 8) result
    in response_fc rsp \<in> {request_fc (Request.ReadCoils 0 8), request_fc (Request.ReadCoils 0 8) OR 0x80}
       \<and> length (response_pdu rsp) \<le> 253 \<and> store_bounded (fst (fst (fst state)))"
  by (rule reply_well_typed [OF store_new_bounded]) (simp add: range_ok_def)

text \<open>
  C12. Access control of the layered server, on the wire: a write from an administrator's unit is
  executed and answered as the bare store would, one from any other unit is answered with
  exception 1 and changes nothing but the call count.
\<close>

theorem layered_server_access_control:
  assumes "store_bounded store" "slave \<noteq> 0" "request_try_from raw = Ok req" "is_write req"
  shows "process_server_request (demo_service admin_slaves) raw slave buf (((store, val), u), n) =
     (if slave \<in> set admin_slaves
      then Ok (Some (slave # response_pdu (reply_of req (fst (store_call store req)))), [],
               (((snd (store_call store req), val), u), n + 1))
      else Ok (Some [slave, request_fc req OR 0x80, 1], [], (((store, val), u), n + 1)))"
proof -
  have inv: "store_bounded (fst (fst (fst (((store, val), u), n))))" using assms(1) by simp
  note run = logging.hooked.answers [OF inv assms(2,3), of admin_slaves buf, folded demo_service_def]
  show ?thesis
  proof (cases "slave \<in> set admin_slaves")
    case True
    then show ?thesis unfolding run demo_writes [OF assms(4) True] by simp
  next
    case False
    then show ?thesis unfolding run demo_refuses [OF assms(4) False] by (simp add: reply_of_def)
  qed
qed

theorem layered_server_access_control_witness:
  "process_server_request (demo_service [1]) [6, 0, 1, 0, 7] 2 [] (((store_new, 1000), ()), 0) =
     Ok (Some [2, 0x86, 1], [], (((store_new, 1000), ()), 1))"
proof -
  have "request_try_from [6, 0, 1, 0, 7] = Ok (Request.WriteSingleRegister 1 7)"
    using request_pdu_decodes [of "Request.WriteSingleRegister 1 7" "[]"] by (simp add: hi8_def lo8_def)
  from layered_server_access_control [OF store_new_bounded _ this, of 2 "[1]" "[]" 1000 "()" 0]
  show ?thesis by (simp add: is_write_def)
qed

text \<open>
  C13. The RTU server, given a whole request frame, executes it and writes one frame: the slave
  id, the response PDU and its CRC.  The buffer is empty afterwards.
\<close>

theorem rtu_server_answers:
  assumes "sv_status sv = Serving" "sv_buf sv = []" "sv_writes sv = []" "store_bounded (sv_service sv)"
    and "slave \<noteq> 0" and "request_try_from pdu = Ok req"
  shows "rtu_serve store_service [Got (encode_rtu_frame (slave # pdu) [])] sv =
     Some (sv \<lparr> sv_rsp := [], sv_service := snd (store_call (sv_service sv) req),
        sv_out := sv_out sv @
          [encode_rtu_frame (slave # response_pdu (reply_of req (fst (store_call (sv_service sv) req)))) []] \<rparr>)"
  using assms by (rule rtu_serve_request_aux)

theorem rtu_server_answers_witness:
  "rtu_serve store_service [Got (encode_rtu_frame (7 # request_pdu (Request.WriteSingleRegister 2 3)) [])] (server_new store_new) =
     Some (server_new store_new \<lparr> sv_rsp := [],
        sv_service := snd (store_call store_new (Request.WriteSingleRegister 2 3)),
        sv_out := [encode_rtu_frame (7 # response_pdu (Response.WriteSingleRegister 2 3)) []] \<rparr>)"
proof -
  have dec: "request_try_from (request_pdu (Request.WriteSingleRegister 2 3)) = Ok (Request.WriteSingleRegister 2 3)"
    using request_pdu_decodes [of "Request.WriteSingleRegister 2 3" "[]"] by simp
  have call: "fst (store_call store_new (Request.WriteSingleRegister 2 3)) = Inr (Response.WriteSingleRegister 2 3)"
    by simp
  show ?thesis
    using rtu_server_answers [OF _ _ _ _ _ dec, of "server_new store_new" 7, unfolded server_new_simps call]
      store_new_bounded
    by (simp add: reply_of_def)
qed

section \<open>ASCII framing\<close>

text \<open>
  C14. The ASCII parser resynchronises: lines that hold no valid frame are skipped, and the first
  valid frame after them is found with its slave id and PDU and the count of bytes up to its end.
\<close>

theorem ascii_parser_resynchronises:
  assumes "\<forall>line \<in> set garbage. is_line line \<and> decode_ascii_line line = None" and "pdu \<noteq> []"
  shows "try_parse_ascii (concat (map (\<lambda>l. l @ [CR, LF]) garbage) @ encode_ascii_frame (slave # pdu) @ rest) =
     Some (slave, pdu, length (concat (map (\<lambda>l. l @ [CR, LF]) garbage) @ encode_ascii_frame (slave # pdu)))"
  using assms by (rule try_parse_ascii_frame_aux)

theorem ascii_parser_resynchronises_witness:
  "try_parse_ascii (concat (map (\<lambda>l. l @ [CR, LF]) [[1, 2]]) @ encode_ascii_frame [17, 3, 0] @ [0x3A]) =
     Some (17, [3, 0], length (concat (map (\<lambda>l. l @ [CR, LF]) [[1, 2 :: u8]]) @ encode_ascii_frame [17, 3, 0]))"
proof (rule ascii_parser_resynchronises)
  have "is_line [1, 2]" by (rule no_CR_is_line) (simp add: CR_def)
  moreover have "decode_ascii_line [1, 2] = None" by (simp add: decode_ascii_line_def ASCII_START_def)
  ultimately show "\<forall>line \<in> set [[1, 2]]. is_line line \<and> decode_ascii_line line = None" by simp
qed simp

text \<open>
  C15. The ASCII server answers every frame of a stream of frames, in order, however the stream is
  cut into reads.
\<close>

theorem ascii_server_any_chunking:
  assumes "\<forall>(slave, pdu) \<in> set frames. pdu \<noteq> []" and "healthy sv" and "[] \<notin> set pieces"
    and "sv_buf sv = []" and "concat pieces = ascii_bytes frames"
  shows "ascii_serve svc (map Got pieces) sv = Some (answer_all svc (ascii_frame ()) frames (sv \<lparr> sv_buf := [] \<rparr>))"
  by (rule ascii_serve_divided_aux) (use assms in simp_all)

theorem ascii_server_any_chunking_witness:
  "ascii_serve store_service (map Got (map (\<lambda>b. [b]) (ascii_bytes [(1, [3, 0]), (2, [6])]))) (server_new store_new) =
     Some (answer_all store_service (ascii_frame ()) [(1, [3, 0]), (2, [6])] (server_new store_new \<lparr> sv_buf := [] \<rparr>))"
  by (rule ascii_server_any_chunking) auto

section \<open>TCP framing\<close>

text \<open>
  C16. What the TCP parser reads from a lone frame of a legal request, in each of the framings the
  encoder writes: the length field counting the unit id or the PDU alone, the unit id repeated in
  the body or not.  With the unit id in the body the frame is always read back.  Otherwise it is
  unless the function code is also the unit id and the rest of the PDU is itself a legal request;
  then that other request is read.
\<close>

theorem tcp_parser_roundtrip:
  fixes u :: u8 and tid :: u16 and config :: TcpConfig
  assumes "request_try_from pdu = Ok req" "length pdu \<le> 253"
  defines "frame \<equiv> encode_tcp_frame (u # pdu) [] config tid"
  shows "try_parse_tcp_frame frame =
     Some (tid, u,
       if \<not> unit_id_in_body config \<and> hd pdu = u \<and> is_ok (request_try_from (tl pdu)) then tl pdu else pdu,
       length frame)"
  using parse_encoded_request [OF assms(1,2), of u config tid]
  by (simp add: frame_def framed_seen_def tcp_seen_def shadowed_def)

theorem tcp_parser_roundtrip_witness:
  "try_parse_tcp_frame (encode_tcp_frame (9 # request_pdu (Request.ReadHoldingRegisters 4 2)) [] config_gateway 77)
   = Some (77, 9, request_pdu (Request.ReadHoldingRegisters 4 2), 13)
   \<and> try_parse_tcp_frame (encode_tcp_frame (16 # request_pdu (Request.WriteMultipleRegisters 0x0600 [7])) [] config_standard 77)
   = Some (77, 16, tl (request_pdu (Request.WriteMultipleRegisters 0x0600 [7])), 15)"
proof -
  have "request_try_from (request_pdu (Request.ReadHoldingRegisters 4 2)) = Ok (Request.ReadHoldingRegisters 4 2)"
    using request_pdu_decodes [of "Request.ReadHoldingRegisters 4 2" "[]"] by (simp add: range_ok_def)
  note plain = tcp_parser_roundtrip [OF this, where u = 9 and config = config_gateway and tid = 77]
  let ?w = "Request.WriteMultipleRegisters 0x0600 [7 :: u16]"
  have "request_try_from (request_pdu ?w) = Ok ?w"
    using request_pdu_decodes [of ?w "[]"] by (simp add: range_ok_def)
  note misread = tcp_parser_roundtrip [OF this, where u = 16 and config = config_standard and tid = 77]
  have "is_ok (request_try_from (tl (request_pdu ?w)))"
    using misread_pdu [of "0x0600" "[7]"] by (simp add: hi8_def del: list.sel(3))
  with plain misread show ?thesis
    by (simp add: config_standard_shape config_gateway_def encode_tcp_mbap)
qed

text \<open>
  C17. The TCP server, given one whole request frame in any framing, executes the request the parser
  sees in it and answers that, in its own framing, under the frame's transaction id: the request
  that was sent, or the misread one when the unit id does not stand in the body, is also the
  function code, and the rest of the PDU is a legal request.
\<close>

theorem tcp_server_answers:
  assumes "healthy sv" "sv_buf sv = []" "store_bounded (sv_service sv)"
    and "u \<noteq> 0" "request_try_from pdu = Ok sent_req" "length pdu \<le> 253"
    and "request_try_from
       (if \<not> unit_id_in_body fmt \<and> hd pdu = u \<and> is_ok (request_try_from (tl pdu)) then tl pdu else pdu) = Ok req"
  shows "tcp_serve config store_service [Got (encode_tcp_frame (u # pdu) [] fmt tid)] sv =
     Some (sv \<lparr> sv_rsp := [], sv_service := snd (store_call (sv_service sv) req),
        sv_out := sv_out sv @
          [encode_tcp_frame (u # response_pdu (reply_of req (fst (store_call (sv_service sv) req)))) [] config tid] \<rparr>)"
proof -
  have "request_try_from (framed_seen fmt u pdu) = Ok req"
    using assms(7) by (auto simp: framed_seen_def tcp_seen_def shadowed_def split: if_splits)
  from store.tcp_serve_one [OF assms(1-6) this, of config tid] show ?thesis by (simp add: store_service_def)
qed

theorem tcp_server_answers_witness:
  "tcp_serve config_standard store_service
       [Got (encode_tcp_frame (9 # request_pdu (Request.WriteSingleCoil 3 True)) [] config_gateway 5)] (server_new store_new) =
     Some (server_new store_new \<lparr> sv_rsp := [], sv_service := snd (store_call store_new (Request.WriteSingleCoil 3 True)),
        sv_out := [encode_tcp_frame (9 # response_pdu (Response.WriteSingleCoil 3 True)) [] config_standard 5] \<rparr>)"
proof -
  have dec: "request_try_from (request_pdu (Request.WriteSingleCoil 3 True)) = Ok (Request.WriteSingleCoil 3 True)"
    using request_pdu_decodes [of "Request.WriteSingleCoil 3 True" "[]"] by simp
  have call: "fst (store_call store_new (Request.WriteSingleCoil 3 True)) = Inr (Response.WriteSingleCoil 3 True)"
    by simp
  show ?thesis
    using tcp_server_answers [OF _ _ _ _ dec, of "server_new store_new" 9 config_gateway "Request.WriteSingleCoil 3 True" config_standard 5,
        unfolded server_new_simps call] store_new_bounded dec
    by (simp add: reply_of_def)
qed

text \<open>
  C18. Two standard frames that arrive in one read: the first is executed and answered, the second
  is lost.  The parser takes the longer reading of the length field first, so the first byte of
  the second frame is taken for the last of the first, and the shifted rest is discarded.
\<close>

theorem tcp_pipelined_request_lost:
  assumes "healthy sv" "sv_buf sv = []" "store_bounded (sv_service sv)"
    and "u1 \<noteq> 0" "u1 \<noteq> hd pdu1" "request_try_from pdu1 = Ok req1" "length pdu1 \<le> 253"
    and "2 \<le> length pdu2" "length pdu2 \<le> 253"
  shows "tcp_serve config store_service
      [Got (mbap t1 (of_nat (length pdu1) + 1) u1 pdu1 @ mbap t2 (of_nat (length pdu2) + 1) u2 pdu2)] sv =
     Some (sv \<lparr> sv_rsp := [], sv_service := snd (store_call (sv_service sv) req1),
        sv_out := sv_out sv @
          [encode_tcp_frame (u1 # response_pdu (reply_of req1 (fst (store_call (sv_service sv) req1)))) [] config t1] \<rparr>)"
  using assms by (rule tcp_pipelined_aux)

theorem tcp_pipelined_request_lost_witness:
  "tcp_serve config_standard store_service
      [Got (mbap 5 (of_nat (length (request_pdu (Request.WriteSingleCoil 3 True))) + 1) 9 (request_pdu (Request.WriteSingleCoil 3 True))
         @ mbap 6 (of_nat (length (request_pdu (Request.WriteSingleCoil 4 True))) + 1) 9 (request_pdu (Request.WriteSingleCoil 4 True)))]
      (server_new store_new) =
     Some (server_new store_new \<lparr> sv_rsp := [], sv_service := snd (store_call store_new (Request.WriteSingleCoil 3 True)),
        sv_out := [encode_tcp_frame (9 # response_pdu (Response.WriteSingleCoil 3 True)) [] config_standard 5] \<rparr>)"
proof -
  have dec: "request_try_from (request_pdu (Request.WriteSingleCoil 3 True)) = Ok (Request.WriteSingleCoil 3 True)"
    using request_pdu_decodes [of "Request.WriteSingleCoil 3 True" "[]"] by simp
  have call: "fst (store_call store_new (Request.WriteSingleCoil 3 True)) = Inr (Response.WriteSingleCoil 3 True)"
    by simp
  show ?thesis
    using tcp_pipelined_request_lost [OF _ _ _ _ _ dec, of "server_new store_new" 9
        "request_pdu (Request.WriteSingleCoil 4 True)" config_standard 5 6 9, unfolded server_new_simps call]
      store_new_bounded
    by (simp add: reply_of_def)
qed

text \<open>
  C19. A well-formed frame with a function code the library does not know stays at the head of the
  connection's buffer: it is never answered, and no request after it is, up to 1040 buffered bytes.
\<close>

theorem tcp_unknown_function_blocks:
  assumes "\<not> is_known_function_code (hd body)" "hd body \<noteq> u" "body \<noteq> []" "length body \<le> 253"
    and "sv_status sv = Serving" "sv_buf sv = mbap tid (of_nat (length body) + 1) u body" "[] \<notin> set pieces"
    and "length (sv_buf sv @ concat pieces) \<le> MAX_TCP_BUF_BYTES"
  shows "tcp_serve config svc (map Got pieces) sv = Some (sv \<lparr> sv_buf := sv_buf sv @ concat pieces \<rparr>)"
  using tcp_stuck_aux [OF assms(1-5), of tid "[]" pieces config svc] assms(6-8) by simp

theorem tcp_unknown_function_blocks_witness:
  "tcp_serve config_standard store_service (map Got [mbap 2 6 9 (request_pdu (Request.WriteSingleCoil 4 True))])
       (server_new store_new \<lparr> sv_buf := mbap 1 (of_nat (length [99 :: u8, 0]) + 1) 9 [99, 0] \<rparr>)
     = Some (server_new store_new \<lparr> sv_buf := mbap 1 (of_nat (length [99 :: u8, 0]) + 1) 9 [99, 0] @
         mbap 2 6 9 (request_pdu (Request.WriteSingleCoil 4 True)) \<rparr>)"
  using tcp_unknown_function_blocks [of "[99, 0]" 9 "server_new store_new \<lparr> sv_buf := mbap 1 (of_nat (length [99 :: u8, 0]) + 1) 9 [99, 0] \<rparr>"
      1 "[mbap 2 6 9 (request_pdu (Request.WriteSingleCoil 4 True))]" config_standard store_service]
  by (simp add: is_known_function_code_def frame_consts MAX_TCP_BUF_BYTES_def mbap_not_Nil [symmetric] del: tcp_serve.simps)

text \<open>
  C20. A TCP client, in any of the framings, whose line takes the request and is quiet while the client
  drains it, and whose server answers in that framing, under any transaction id, any unit id in the
  header (the slave's where the body repeats it) and cut into any pieces before the deadline, has sent
  exactly its request and returns that response.  Under the standard length it returns 200 ms after the last piece, or at the
  deadline when that is sooner, because it waits for a byte the frame does not have.  When the length
  counts the PDU alone it returns with the last piece; but when that is a single byte more than 200 ms
  after the piece before it, the client no longer waits for it: 200 ms after the piece before it, it
  returns what the PDU without its last byte decodes to.
\<close>

theorem tcp_client_exchange:
  fixes line :: stream and u :: u8
  assumes "arrivals line = data_arrivals ps" "joined ps = encode_tcp_frame (u # pdu) [] config tid" "write_plan line = []"
    and "after_drain line ps" "timely (clock line + from_millis 1 + timeout) ps" "0 < timeout"
    and "request_fits req" and "length pdu \<le> 253" "response_try_from pdu = Ok rsp"
    and "unit_id_in_body config \<Longrightarrow> u = slave"
  defines "start \<equiv> clock line + from_millis 1"
  defines "last_read \<equiv> after_reads start ps" and "before_last \<equiv> after_reads start (butlast ps)"
  defines "late \<equiv> length (snd (last ps)) = 1 \<and> before_last + from_millis 200 < last_read"
  shows "case tcp_send_recv timeout config slave req (inner_new line, counter) of
      (r, inner, counter') \<Rightarrow>
       sent (in_stream inner) = sent line @
           [encode_tcp_frame (slave # request_pdu req) [] config (fst (next_tid (tid_mode config) counter))]
       \<and> (case length_mode config of
           Standard \<Rightarrow> r = Inr rsp \<and> clock (in_stream inner) = min (start + timeout) (last_read + from_millis 200)
         | PduOnly \<Rightarrow>
             if late then r = decode_response_pdu (butlast pdu) \<and> clock (in_stream inner) = before_last + from_millis 200
             else r = Inr rsp \<and> clock (in_stream inner) = last_read)"
proof -
  have "last_read < start + timeout"
    unfolding last_read_def start_def using assms(5,6) by (intro after_reads_less) simp_all
  then have "last_read + min (start + timeout - last_read) (from_millis 200) = min (start + timeout) (last_read + from_millis 200)"
    by simp
  moreover have "cut_short config start ps \<longleftrightarrow> length_mode config = PduOnly \<and> late"
    by (simp add: cut_short_def last_byte_late_def late_def last_read_def before_last_def)
  moreover note tcp_exchange_pieces [of "inner_new line", unfolded inner_stream, OF assms(1-10), of counter, folded start_def]
  ultimately show ?thesis
    by (cases "length_mode config"; cases "tcp_send_recv timeout config slave req (inner_new line, counter)")
      (simp_all add: answered_at_def last_byte_late_def late_def last_read_def before_last_def)
qed

theorem tcp_client_exchange_witness:
  "case tcp_send_recv (from_secs 1) config_standard 9 (Request.WriteSingleRegister 1 7)
      (inner_new (silent_line \<lparr> arrivals := data_arrivals [(from_millis 5, [0, 77, 0, 0, 0]), (from_millis 8, [6, 33, 6, 0, 1]),
         (from_millis 9, [0, 7])] \<rparr>), 1) of
      (r, inner, counter') \<Rightarrow> r = Inr (Response.WriteSingleRegister 1 7)
       \<and> sent (in_stream inner) = [encode_tcp_frame (9 # request_pdu (Request.WriteSingleRegister 1 7)) [] config_standard 0]
       \<and> clock (in_stream inner) = from_millis 209"
proof -
  let ?rsp = "Response.WriteSingleRegister 1 7"
  let ?ps = "[(from_millis 5, [0, 77, 0, 0, 0]), (from_millis 8, [6, 33, 6, 0, 1]), (from_millis 9, [0, 7])] :: (nat \<times> bytes) list"
  let ?line = "silent_line \<lparr> arrivals := data_arrivals ?ps \<rparr>"
  have rsp: "response_try_from (response_pdu ?rsp) = Ok ?rsp"
    using response_view_roundtrip [of ?rsp "[]"] by simp
  have frame: "joined ?ps = encode_tcp_frame (33 # response_pdu ?rsp) [] config_standard 77"
    by (simp add: encode_tcp_mbap config_standard_shape mbap_def hi8_def lo8_def)
  show ?thesis
    using tcp_client_exchange [OF _ frame _ _ _ _ _ _ rsp, of ?line "from_secs 1" "Request.WriteSingleRegister 1 7" 9 1]
    by (simp add: silent_line_def from_millis_def from_secs_def after_drain_def config_standard_shape next_tid_def split: prod.splits)
qed

text \<open>
  C21. The RTU and the ASCII client, whose slave answers with a frame cut into any pieces before the
  deadline, return its response and have sent exactly their request.  The ASCII client returns with
  the last piece.  The RTU client does when the PDU has the length of the request's normal response;
  with a shorter one, and every exception response is shorter, it waits for the deadline.
\<close>

theorem serial_client_exchange:
  fixes line :: stream and pieces :: "bytes \<Rightarrow> (nat \<times> bytes) list"
  assumes "\<And>frame. frame \<in> {encode_rtu_frame (slave # pdu) [], encode_ascii_frame (slave # pdu)} \<Longrightarrow>
      joined (pieces frame) = frame \<and> after_drain line (pieces frame) \<and> timely (sent_at line + timeout) (pieces frame)"
    and "write_plan line = []" "0 < timeout" "request_fits req" "expected_rtu_pdu_len req = Some n"
    and "2 \<le> length pdu" "length pdu \<le> n" "response_try_from pdu = Ok rsp"
  defines "on \<equiv> \<lambda>frame. inner_new (line \<lparr> arrivals := data_arrivals (pieces frame) \<rparr>)"
    and "read \<equiv> \<lambda>frame. after_reads (sent_at line) (pieces frame)"
  shows "(case rtu_send_recv timeout slave req (on (encode_rtu_frame (slave # pdu) [])) of
      (r, inner) \<Rightarrow> r = Inr rsp
       \<and> sent (in_stream inner) = sent line @ [encode_rtu_frame (slave # request_pdu req) []]
       \<and> clock (in_stream inner) =
           (if length pdu = n then read (encode_rtu_frame (slave # pdu) []) else sent_at line + timeout))
   \<and> (case ascii_send_recv timeout slave req (on (encode_ascii_frame (slave # pdu))) of
      (r, inner) \<Rightarrow> r = Inr rsp
       \<and> sent (in_stream inner) = sent line @ [encode_ascii_frame (slave # request_pdu req)]
       \<and> clock (in_stream inner) = read (encode_ascii_frame (slave # pdu)))"
proof -
  let ?rtu = "encode_rtu_frame (slave # pdu) []" and ?ascii = "encode_ascii_frame (slave # pdu)"
  have on: "arrivals (in_stream (on f)) = data_arrivals (pieces f)" "write_plan (in_stream (on f)) = []"
    "sent (in_stream (on f)) = sent line" "sent_at (in_stream (on f)) = sent_at line"
    "after_drain (in_stream (on f)) ps \<longleftrightarrow> after_drain line ps" for f ps
    using assms(2) by (simp_all add: on_def sent_at_arrivals after_drain_def)
  have "req \<noteq> Request.Disconnect" "pdu \<noteq> []" using assms(5,6) by auto
  note ascii = ascii_exchange_pieces [of "on ?ascii" "pieces ?ascii" slave pdu, unfolded on, OF refl _ refl _ _ assms(3,4) this assms(8)]
  note rtu = rtu_exchange_pieces [of "on ?rtu" "pieces ?rtu" slave pdu, unfolded on, OF refl _ refl _ _ assms(3-8)]
  show ?thesis
  proof (rule conjI)
    show "case rtu_send_recv timeout slave req (on ?rtu) of (r, inner) \<Rightarrow> r = Inr rsp
       \<and> sent (in_stream inner) = sent line @ [encode_rtu_frame (slave # request_pdu req) []]
       \<and> clock (in_stream inner) = (if length pdu = n then read ?rtu else sent_at line + timeout)"
      using rtu assms(1) [of ?rtu] by (cases "rtu_send_recv timeout slave req (on ?rtu)") (simp add: read_def)
    show "case ascii_send_recv timeout slave req (on ?ascii) of (r, inner) \<Rightarrow> r = Inr rsp
       \<and> sent (in_stream inner) = sent line @ [encode_ascii_frame (slave # request_pdu req)]
       \<and> clock (in_stream inner) = read ?ascii"
      using ascii assms(1) [of ?ascii] by (cases "ascii_send_recv timeout slave req (on ?ascii)") (simp add: read_def)
  qed
qed

theorem serial_client_exchange_witness:
  "case rtu_send_recv (from_secs 1) 9 (Request.ReadHoldingRegisters 4 2)
      (inner_new (silent_line \<lparr> arrivals := data_arrivals (byte_by_byte (from_millis 2) 90000 (encode_rtu_frame [9, 0x83, 2] [])) \<rparr>)) of
      (r, inner) \<Rightarrow> r = Inr (Response.Exception 3 IllegalDataAddress) \<and> clock (in_stream inner) = from_millis 1001"
proof -
  have d: "delivers (from_secs 1) (byte_by_byte (from_millis 2) 90000)"
    by (rule byte_by_byte_delivers) (simp_all add: MAX_FRAME_BYTES_def from_millis_def from_secs_def)
  have f: "joined (byte_by_byte (from_millis 2) 90000 frame) = frame \<and> after_drain silent_line (byte_by_byte (from_millis 2) 90000 frame)
      \<and> timely (sent_at silent_line + from_secs 1) (byte_by_byte (from_millis 2) 90000 frame)"
    if "frame \<in> {encode_rtu_frame (9 # [0x83, 2]) [], encode_ascii_frame (9 # [0x83, 2])}" for frame
    using that delivered [OF d, of frame] reply_sizes [of "[0x83, 2]" 9] by (auto simp: after_drain_def)
  have rsp: "response_try_from [0x83, 2] = Ok (Response.Exception 3 IllegalDataAddress)"
    using response_view_roundtrip [of "Response.Exception 3 IllegalDataAddress" "[]"]
    by (simp add: exception_of_u8_def)
  have "write_plan silent_line = []" by (simp add: silent_line_def)
  from serial_client_exchange [OF f this _ _ _ _ _ rsp, where slave = 9 and req = "Request.ReadHoldingRegisters 4 2" and n = 6]
  show ?thesis by (simp add: from_millis_def from_secs_def split: prod.splits)
qed

section \<open>Concurrent connections\<close>

text \<open>
  C22. Connections of a TCP server interleave freely over the shared store, lock by lock; yet the
  store is what the requests leave behind when executed one after the other in the order of their
  last change, and every result is the one that order gives.  Only the registers read by function
  23 can be older: from a moment after which the same connection changed nothing.  A store within the
  address space, 8192 bytes of each bit kind and 65536 registers of each kind, stays within it.
\<close>

theorem listener_serialises:
  assumes "listens config s0 l log"
  shows "ls_store l = replay s0 log
    \<and> (\<forall>k < length log. case log ! k of (i, tid, slave_id, req, r) \<Rightarrow>
         slave_id \<noteq> 0 \<and> request_legal req \<and> result_at s0 (take k log) i req r)
    \<and> (store_bounded s0 \<longrightarrow> store_bounded (ls_store l))"
  using listens_ok [OF assms] listens_bounded [OF assms] by (simp add: listener_ok_def log_ok_def)

theorem listener_serialises_witness:
  "\<exists>c log. replay store_new log = snd (store_call store_new (Request.WriteSingleCoil 3 True))
     \<and> listens config_standard store_new \<lparr> ls_store = replay store_new log, ls_conns = [c] \<rparr> log"
proof -
  obtain c log where run: "listens config_standard store_new
       \<lparr> ls_store = snd (store_call store_new (Request.WriteSingleCoil 3 True)), ls_conns = [c] \<rparr> log"
     and out: "cn_phase c = Reading" "cn_status c = Serving"
       "cn_out c = [encode_tcp_frame (9 # response_pdu (Response.WriteSingleCoil 3 True)) [] config_standard 5]"
    using listens_request [OF store_new_bounded, of 9 "request_pdu (Request.WriteSingleCoil 3 True)" "Request.WriteSingleCoil 3 True" config_standard 5]
      request_pdu_decodes [of "Request.WriteSingleCoil 3 True" "[]"] by (auto simp: reply_of_def)
  from listener_serialises [OF run] run show ?thesis by (intro exI [of _ c] exI [of _ log]) simp
qed

text \<open>
  C23. What each connection was sent are the replies to its own requests in that order, framed
  under their transaction ids: all of them when it waits for input, all but at most the last when
  it has ended.  No connection gets a reply of another.
\<close>

theorem listener_replies_in_order:
  assumes "listens config s0 l log" "i < length (ls_conns l)"
  shows "(cn_status (ls_conns l ! i) = Serving \<and> cn_phase (ls_conns l ! i) = Reading \<longrightarrow>
            cn_out (ls_conns l ! i) = replies config i log)
    \<and> (\<exists>lost. replies config i log = cn_out (ls_conns l ! i) @ lost \<and> length lost \<le> 1)
    \<and> cn_status (ls_conns l ! i) \<noteq> Panicked"
  using conn_ok_out [OF listens_conn_ok [OF assms]] listens_no_panic [OF assms] by blast

theorem listener_replies_in_order_witness:
  "\<exists>l log. listens config_standard store_new l log
     \<and> replies config_standard 0 log =
         [encode_tcp_frame (9 # response_pdu (Response.WriteSingleCoil 3 True)) [] config_standard 5]"
proof -
  obtain c log where run: "listens config_standard store_new
       \<lparr> ls_store = snd (store_call store_new (Request.WriteSingleCoil 3 True)), ls_conns = [c] \<rparr> log"
     and out: "cn_phase c = Reading" "cn_status c = Serving"
       "cn_out c = [encode_tcp_frame (9 # response_pdu (Response.WriteSingleCoil 3 True)) [] config_standard 5]"
    using listens_request [OF store_new_bounded, of 9 "request_pdu (Request.WriteSingleCoil 3 True)" "Request.WriteSingleCoil 3 True" config_standard 5]
      request_pdu_decodes [of "Request.WriteSingleCoil 3 True" "[]"] by (auto simp: reply_of_def)
  from listener_replies_in_order [OF run, of 0] out run show ?thesis by (intro exI conjI) auto
qed

text \<open>
  C24. From any state of the listener a connection that is waiting can be served alone, while the
  others pause, and that is exactly what the sequential handler does on the same input, which
  always ends.
\<close>

theorem listener_refines_handler:
  assumes "listens config s0 l log" "i < length (ls_conns l)" "matches Reading sv (ls_conns l ! i)"
    and "sv_service sv = ls_store l"
  shows "\<exists>sv' c log'. tcp_serve config store_service evs sv = Some sv' \<and> matches Reading sv' c
    \<and> listens config s0 (l \<lparr> ls_store := sv_service sv', ls_conns := (ls_conns l)[i := c] \<rparr>) (log @ log')"
  using tcp_serve_returns [of config store_service evs sv] serve_run [OF assms, of evs] by blast

theorem listener_refines_handler_witness:
  "\<exists>sv' c log'. tcp_serve config_standard store_service [Got [1, 2], Elapsed, Got []] (server_new store_new) = Some sv'
     \<and> matches Reading sv' c
     \<and> listens config_standard store_new \<lparr> ls_store = sv_service sv', ls_conns = [c] \<rparr> log'"
proof -
  have run: "listens config_standard store_new \<lparr> ls_store = store_new, ls_conns = [connection_new []] \<rparr> []"
    using listens.accept [OF listens.start, of config_standard store_new "[]"] by simp
  have "matches Reading (server_new store_new) (connection_new [])" "sv_service (server_new store_new) = store_new"
    by (simp_all add: matches_def server_new_def connection_new_def)
  with listener_refines_handler [OF run, of 0 "server_new store_new" "[Got [1, 2], Elapsed, Got []]"]
  show ?thesis by (simp del: tcp_serve.simps)
qed

section \<open>From client to store\<close>

text \<open>
  C25. Over each transport, TCP in each of its framings, with the replies cut into any pieces that
  come in time, registers written by a client are read back by it, through both encoders, both
  framings, the server and the store: at any unit but 0, whose requests are not executed, and, over
  TCP, 16, whose writes can be misread.  In time is: within the client's time-out and, where the
  length field counts the PDU alone, a single last byte within 200 ms of the piece before it.
\<close>

theorem write_then_read_registers:
  assumes "store_bounded s" "range_ok a (length ws) 123" "slave \<noteq> 0" "link_of store_service timeout pieces link"
    and "slave = 16 \<Longrightarrow> link \<in> {rtu_link store_service timeout pieces, ascii_link store_service timeout pieces}"
  shows "fst (client_read_holding_registers link slave a (of_nat (length ws))
           (snd (client_write_multiple_registers link slave a ws s))) = Inr ws"
proof (cases "delivers timeout pieces \<and> link \<in> {rtu_link store_service timeout pieces, ascii_link store_service timeout pieces}")
  case True
  then show ?thesis
    using rtu_link.write_then_read [OF assms(1-3)] ascii_link.write_then_read [OF assms(1-3)] by auto
next
  case False
  with assms(4) obtain config where link: "tcp_delivers config timeout pieces" "link = tcp_link config store_service timeout pieces"
    by (auto simp: link_of_def)
  with False assms(5) have "slave \<noteq> 16" by (auto simp: tcp_delivers_def)
  then have "\<not> shadowed slave (request_pdu (Request.WriteMultipleRegisters a ws))"
    by (intro not_shadowed_unit) simp
  with link show ?thesis
    using tcp_link.write_then_read [OF assms(1-3), of config timeout pieces] by (simp add: tcp_readable_def)
qed

theorem write_then_read_registers_witness:
  "fst (client_read_holding_registers (tcp_link config_gateway store_service (from_secs 1) (byte_by_byte (from_millis 2) 90000)) 1 0xFFFE
      (of_nat (length [7, 9 :: u16]))
      (snd (client_write_multiple_registers (tcp_link config_gateway store_service (from_secs 1) (byte_by_byte (from_millis 2) 90000)) 1 0xFFFE
        [7, 9] store_new))) = Inr [7, 9]"
proof -
  have "delivers (from_secs 1) (byte_by_byte (from_millis 2) 90000)"
    by (rule byte_by_byte_delivers) (simp_all add: MAX_FRAME_BYTES_def from_millis_def from_secs_def)
  then have "link_of store_service (from_secs 1) (byte_by_byte (from_millis 2) 90000)
      (tcp_link config_gateway store_service (from_secs 1) (byte_by_byte (from_millis 2) 90000))"
    by (intro links) (simp add: tcp_delivers_def config_gateway_def)
  from write_then_read_registers [OF store_new_bounded _ _ this, where a = "0xFFFE" and ws = "[7, 9]" and slave = 1] show ?thesis by (simp add: range_ok_def)
qed

text \<open>
  C26. Over each transport, with the replies in any pieces that come in time, reading coils gives the addressed coils
  in order, but padded to a whole number of bytes: the list is longer than the quantity asked for
  whenever that is no multiple of eight.
\<close>

theorem read_coils_padded:
  assumes "store_bounded s" "range_ok a (unat n) 2000" "slave \<noteq> 0" "link_of store_service timeout pieces link"
  shows "client_read_coils link slave a n s =
     (Inr (map (coil (abs_store s)) [unat a..<unat a + unat n] @ replicate (8 * div_ceil (unat n) 8 - unat n) False), s)"
proof -
  have "tcp_readable config slave (Request.ReadCoils a n)" for config by (simp add: tcp_readable_def)
  then show ?thesis
    using rtu_link.read_coils [OF assms(1-3)] ascii_link.read_coils [OF assms(1-3)] tcp_link.read_coils [OF assms(1-3)]
      assms(4) by (auto simp: pad8_def link_of_def)
qed

theorem read_coils_padded_witness:
  "client_read_coils (rtu_link store_service (from_secs 1) (byte_by_byte (from_millis 2) 90000)) 1 0 3 store_new =
     (Inr (map (coil (abs_store store_new)) [unat (0 :: u16)..<unat (0 :: u16) + unat (3 :: u16)]
        @ replicate (8 * div_ceil (unat (3 :: u16)) 8 - unat (3 :: u16)) False), store_new)"
proof -
  have "delivers (from_secs 1) (byte_by_byte (from_millis 2) 90000)"
    by (rule byte_by_byte_delivers) (simp_all add: MAX_FRAME_BYTES_def from_millis_def from_secs_def)
  from read_coils_padded [OF store_new_bounded _ _ links(1) [OF this], of 0 3 1] show ?thesis by (simp add: range_ok_def)
qed

text \<open>
  C27. The main programs of \<open>examples/all_function_codes.rs\<close>, \<open>examples/bus_monitor.rs\<close> and
  \<open>examples/server_with_hook.rs\<close>, over each transport with the replies in any pieces in time: every call
  through client, encoders, framing, server, hooks and store succeeds or is refused, and exactly
  these values are printed.  The slave 247 of the bus monitor, which the example takes for absent,
  answers like every other.
\<close>

theorem example_programs_output:
  assumes "link_of store_service timeout pieces link" "link_of (demo_service [1]) timeout pieces hook_link"
  shows "fst (all_function_codes link (\<lambda>s. read_holding_register s 10) function_codes_store) =
     Inr [Bits [True, False, True, False, False, False, False, False],
          Bits [False, False, False, False, False, False, False, False],
          Regs [100, 200, 0], Regs [0, 0], Bit False, Bit True, Reg 7777,
          Bits [True, True, False, False, False, False, False, False],
          Regs [111, 222, 333], Reg 500, Reg 0xFFF4, Regs [1000, 2000, 3000, 0], Regs [100, 200, 300, 0]]
    \<and> fst (bus_monitor_main link bus_monitor_store) =
     Inr [Regs [100, 200, 300], Bits [True, False, False, False, False, False, False, False],
          Written, Written, Written, Regs [7777], Regs [0]]
    \<and> fst (hook_demo hook_link (((hook_demo_store, 1000), ()), 0)) =
     Inr [Regs [1234, 5678, 100], Regs [1001, 1002], Regs [1002, 1003], Regs [1003, 1004],
          Regs [0x4F4D, 0x5301, 0, 0], Regs [9999], Refused (ModbusError.Exception 6 1), Regs [9999]]"
  using function_codes_everywhere [OF assms(1)] bus_monitor_everywhere [OF assms(1)] hook_demo_everywhere [OF assms(2)]
  by (simp only: function_codes_output_def bus_monitor_output_def hook_demo_output_def)

theorem example_programs_output_witness:
  "fst (all_function_codes (ascii_link store_service (from_secs 3) (byte_by_byte (from_millis 2) 90000)) (\<lambda>s. read_holding_register s 10)
      function_codes_store) \<noteq> Inr []
   \<and> fst (hook_demo (rtu_link (demo_service [1]) (from_secs 3) (byte_by_byte (from_millis 2) 90000)) (((hook_demo_store, 1000), ()), 0)) =
     Inr [Regs [1234, 5678, 100], Regs [1001, 1002], Regs [1002, 1003], Regs [1003, 1004],
          Regs [0x4F4D, 0x5301, 0, 0], Regs [9999], Refused (ModbusError.Exception 6 1), Regs [9999]]"
proof -
  have d: "delivers (from_secs 3) (byte_by_byte (from_millis 2) 90000)"
    by (rule byte_by_byte_delivers) (simp_all add: MAX_FRAME_BYTES_def from_millis_def from_secs_def)
  from example_programs_output [OF links(2) [OF d] links(1) [OF d]] show ?thesis by simp
qed

text \<open>
  C28. The read loop of the TCP example clients, for any number of rounds, in any framing and with the
  replies in any pieces in time: every round prints the four memories of the store, nothing is changed, and
  exactly the four requests of each round are on the wire, under automatic ids numbered from 1 on
  (modulo \<open>2 ^ 16\<close>).
\<close>

theorem tcp_client_rounds:
  assumes "store_bounded s" "tcp_delivers config timeout pieces" "slave \<noteq> 0"
    and "1 \<le> unat q" "unat q \<le> 125" "unat start + unat q < 2 ^ 16"
  shows "\<exists>s'. read_rounds (tcp_session config store_service timeout pieces) slave start q n (s, 1, []) =
      (Inr (replicate n (round_view (abs_store s) start q)), s', counter_after config (4 * n),
       wire_of config (concat (replicate n (round_requests slave start q)))) \<and> abs_store s' = abs_store s"
  using tcp_session_rounds [OF assms] by metis

theorem tcp_client_rounds_witness:
  "fst (tcp_client_main (tcp_session auto_tid_config store_service (from_secs 3) (byte_by_byte (from_millis 2) 90000)) (tcp_server_store, 1, [])) =
     Inr (replicate 3 [Counted 0 9 3 7, Counted 0 9 2 8, Values 0 9 [1234, 5678, 100, 42, 0, 0, 0, 0, 0, 0],
       Values 0 9 [3300, 1250, 5000, 0, 0, 0, 0, 0, 0, 0]])"
proof -
  have d: "tcp_delivers auto_tid_config (from_secs 3) (byte_by_byte (from_millis 2) 90000)"
    unfolding tcp_delivers_def
    by (intro conjI byte_by_byte_delivers)
      (simp_all add: MAX_FRAME_BYTES_def from_millis_def from_secs_def auto_tid_config_def config_standard_shape)
  from tcp_client_rounds [OF example_stores_memory(1) d, of 1 10 0 3] show ?thesis
    by (auto simp: tcp_client_main_def tcp_server_round)
qed

section \<open>Timing and reconnection\<close>

text \<open>
  C29. No exchange takes longer than its limits add up to, whatever the line does: draining at most
  201 ms (and when it succeeds nothing that has arrived is left unread at that moment), then the
  wait for the bus, the timeout for writing and the timeout for reading, which for TCP includes the
  read for a trailing byte.
\<close>

theorem exchange_in_time:
  assumes "drain_stale_data (in_stream inner) = (r, st')"
  defines "now \<equiv> clock (in_stream inner)" and "spacing \<equiv> spacing_of (in_stream inner)"
  shows "clock st' \<le> now + from_millis 201 \<and> (r = Inr () \<longrightarrow> quiet st')
    \<and> clock (in_stream (snd (rtu_send_recv timeout slave req inner))) \<le> now + exchange_limit spacing timeout
    \<and> clock (in_stream (snd (ascii_send_recv timeout slave req inner))) \<le> now + exchange_limit spacing timeout
    \<and> clock (in_stream (fst (snd (tcp_send_recv timeout config slave req (inner, counter))))) \<le> now + exchange_limit 0 timeout"
  using drain_clock_aux [OF assms(1)] drain_quiet_aux [of "in_stream inner" st'] assms(1)
    rtu_exchange_elapses [of inner timeout slave req] ascii_exchange_elapses [of inner timeout slave req]
    tcp_exchange_elapses [of timeout inner config slave req counter]
  by (simp add: elapses_def now_def spacing_def)

theorem exchange_in_time_witness:
  "drain_stale_data busy_line = (Inr (), snd (drain_stale_data busy_line)) \<and> quiet (snd (drain_stale_data busy_line))
   \<and> clock (in_stream (snd (rtu_send_recv (from_secs 1) 1 (Request.ReadCoils 0 1) (inner_new busy_line)))) \<le> from_millis 2201"
proof -
  have drained: "drain_stale_data busy_line = (Inr (), snd (drain_stale_data busy_line))" by (simp add: busy_line_drained)
  then have "drain_stale_data (in_stream (inner_new busy_line)) = (Inr (), snd (drain_stale_data busy_line))"
    by (simp add: inner_new_def)
  from exchange_in_time [OF this, of "from_secs 1" 1 "Request.ReadCoils 0 1" config_standard 0] drained
  show ?thesis
    by (simp add: busy_line_def inner_new_def exchange_limit_def spacing_of_def from_millis_def from_secs_def)
qed

text \<open>
  C30. With a retry limit below \<open>2^32 - 1\<close> the reconnect loop ends: it sends the request at least once
  and at most one time more than the limit, whatever the transport and the factory do.  A call of
  each of the three clients returns when every attempt to open a transport ends; it makes no more
  attempts than the limit, and takes no longer than one exchange, for every retry its interval and an
  exchange more, and the time those attempts take, on which the clients set no limit of their own.
\<close>

theorem reconnect_bounded:
  fixes inner :: inner and cfg :: ReconnectConfig
  assumes "0 < max_retries cfg" "unat (max_retries cfg) < 4294967295"
    and "cl_reconnect cl = Some cfg" "tc_reconnect tcl = Some cfg"
  defines "now \<equiv> clock (in_stream inner)" and "spacing \<equiv> spacing_of (in_stream inner)"
  defines "limit \<equiv> \<lambda>exchange. exchange + unat (max_retries cfg) * (interval cfg + exchange)"
  shows "(\<exists>r s n. run_with_reconnect (Some cfg) (\<lambda>(s, n). case send s of (r, s) \<Rightarrow> (r, s, Suc n))
             (\<lambda>(s, n). case rebuild s of (ok, s) \<Rightarrow> (ok, s, n)) (\<lambda>d (s, n). (sleep d s, n)) err (s0, 0) = Some (r, s, n)
           \<and> 1 \<le> n \<and> n \<le> unat (max_retries cfg) + 1)
    \<and> (\<exists>r inner' k. rtu_call cl slave req (inner, plan) = Some (r, inner', drop k plan) \<and> k \<le> unat (max_retries cfg)
         \<and> clock (in_stream inner') \<le> now + limit (exchange_limit spacing (cl_timeout cl)) + opening_time k plan)
    \<and> (\<exists>r inner' k. ascii_call cl slave req (inner, plan) = Some (r, inner', drop k plan) \<and> k \<le> unat (max_retries cfg)
         \<and> clock (in_stream inner') \<le> now + limit (exchange_limit spacing (cl_timeout cl)) + opening_time k plan)
    \<and> (\<exists>r inner' counter' k. tcp_call tcl slave req ((inner, counter), plan) = Some (r, (inner', counter'), drop k plan)
         \<and> k \<le> unat (max_retries cfg)
         \<and> clock (in_stream inner') \<le> now + limit (exchange_limit 0 (tc_timeout tcl)) + opening_time k plan)"
proof (intro conjI)
  have "\<exists>r s'. reconnect_loop cfg (\<lambda>(s, n). case send s of (r, s) \<Rightarrow> (r, s, Suc n))
             (\<lambda>(s, n). case rebuild s of (ok, s) \<Rightarrow> (ok, s, n)) (\<lambda>d (s, n). (sleep d s, n)) err 0 0 (s0, 0) = Some (r, s')
      \<and> snd (s0, 0) < snd s' \<and> snd s' \<le> snd (s0, 0) + (unat (max_retries cfg) + 1 - unat (0 :: u32))"
    by (rule reconnect_loop_returns) (auto simp: assms(1,2) split: prod.split)
  then show "\<exists>r s n. run_with_reconnect (Some cfg) (\<lambda>(s, n). case send s of (r, s) \<Rightarrow> (r, s, Suc n))
             (\<lambda>(s, n). case rebuild s of (ok, s) \<Rightarrow> (ok, s, n)) (\<lambda>d (s, n). (sleep d s, n)) err (s0, 0) = Some (r, s, n)
           \<and> 1 \<le> n \<and> n \<le> unat (max_retries cfg) + 1"
    by (fastforce simp: run_with_reconnect_def)
qed (use rtu_call_elapses [of cl slave req inner plan] ascii_call_elapses [of cl slave req inner plan]
       tcp_call_elapses [of tcl slave req inner counter plan] assms(1-4)
     in \<open>fastforce simp: retries_limited_def call_limit_def retries_of_def opens_within_def elapses_def now_def spacing_def limit_def\<close>)+

theorem reconnect_bounded_witness:
  "(\<exists>r s n. run_with_reconnect (Some (reconnect_new 3 0)) (\<lambda>(s :: nat, n). case (Inl (Connection ''down''), s) of (r, s) \<Rightarrow> (r, s, Suc n))
       (\<lambda>(s, n). case (True, s) of (ok, s) \<Rightarrow> (ok, s, n)) (\<lambda>d (s, n). (s, n)) Connection (0, 0) = Some (r, s, n)
     \<and> 1 \<le> n \<and> n \<le> 4) \<and>
   rtu_call \<lparr> cl_timeout = 0, cl_reconnect = Some (reconnect_new 3 0), cl_bus_timing = None, cl_tap = False \<rparr>
     1 (Request.ReadCoils 0 1) (inner_new silent_line, []) \<noteq> None"
proof -
  let ?cl = "\<lparr> cl_timeout = 0, cl_reconnect = Some (reconnect_new 3 0), cl_bus_timing = None, cl_tap = False \<rparr>"
  let ?tcl = "\<lparr> tc_timeout = 0, tc_reconnect = Some (reconnect_new 3 0), tc_config = config_standard, tc_tap = False, tc_bus_timing = None \<rparr>"
  have "0 < max_retries (reconnect_new 3 0)" "unat (max_retries (reconnect_new 3 0)) < 4294967295"
    "cl_reconnect ?cl = Some (reconnect_new 3 0)" "tc_reconnect ?tcl = Some (reconnect_new 3 0)"
    by (simp_all add: reconnect_new_def)
  from reconnect_bounded [OF this, where send = "\<lambda>s. (Inl (Connection ''down''), s)" and rebuild = "\<lambda>s. (True, s)"
      and sleep = "\<lambda>d s. s" and err = Connection and slave = 1 and req = "Request.ReadCoils 0 1"
      and inner = "inner_new silent_line" and plan = "[]" and counter = 1, of "0 :: nat"]
  show ?thesis by (auto simp: reconnect_new_def)
qed

text \<open>
  C31. A TCP client without a tap whose connection, and every connection it opens but the last, the
  other end has closed, recovers as soon as a connection is alive, when its retry limit allows that
  many attempts: its call returns the answer, after one interval for every attempt and the time they
  took, having sent the request once and opened no connection more.  (The answer comes
  after the drain and before the deadline, in any pieces but those a late last byte cuts short.)  A client with a tap does not: its call ends at once with
  an error, the request not sent and no connection opened.
\<close>

theorem tcp_reconnect_recovers:
  fixes inner :: inner and conn :: stream and u :: u8 and took :: duration and plan :: "attempt list"
  assumes "tc_reconnect cl = Some cfg" "max_retries cfg = 0 \<or> Suc (length gone) \<le> unat (max_retries cfg)"
    and "arrivals (in_stream inner) = [(0, Data [])]" "tc_tap cl \<longleftrightarrow> 0 < tap_count (in_stream inner)"
    and "\<forall>(took, conn) \<in> set gone. arrivals conn = [(0, Data [])] \<and> layers conn = []"
  defines "now \<equiv> clock (in_stream inner) + Suc (length gone) * interval cfg + sum_list (map fst gone) + took"
    and "attempts \<equiv> map (\<lambda>(took, conn). (took, Some conn)) gone @ (took, Some conn) # plan"
  assumes "arrivals conn = data_arrivals ps" "joined ps = encode_tcp_frame (u # pdu) [] (tc_config cl) tid" "write_plan conn = []"
    and "after_drain (conn \<lparr> clock := now \<rparr>) ps" "timely (now + from_millis 1 + tc_timeout cl) ps" "0 < tc_timeout cl"
    and "request_fits req" "length pdu \<le> 253" "response_try_from pdu = Ok rsp"
    and "unit_id_in_body (tc_config cl) \<Longrightarrow> u = slave" "\<not> cut_short (tc_config cl) (now + from_millis 1) ps"
  shows "\<exists>inner' counter'.
     if tc_tap cl
     then tcp_call cl slave req ((inner, counter), attempts) = Some (Inl (Other ''transport closed''), (inner', counter'), attempts)
       \<and> sent (in_stream inner') = sent (in_stream inner)
     else tcp_call cl slave req ((inner, counter), attempts) = Some (Inr rsp, (inner', counter'), plan)
       \<and> sent (in_stream inner') = sent conn @
           [encode_tcp_frame (slave # request_pdu req) [] (tc_config cl) (fst (next_tid (tid_mode (tc_config cl)) counter))]
       \<and> now < clock (in_stream inner') \<and> clock (in_stream inner') \<le> now + from_millis 1 + tc_timeout cl"
proof (cases "tc_tap cl")
  case True
  with tapped_gives_up [OF assms(3) _ assms(1), of slave req counter attempts] assms(4) show ?thesis
    by (intro exI [of _ "inner \<lparr> in_stream := (in_stream inner) \<lparr> arrivals := [] \<rparr> \<rparr>"] exI [of _ counter]) simp
next
  case False
  have closed: "closed_conn (in_stream inner)" using assms(3,4) False by (simp add: closed_conn_def)
  have gone: "arrivals conn = [(0, Data [])] \<and> layers conn = []" if "(took, conn) \<in> set gone" for took conn
    using assms(5) that by auto
  let ?start = "now + from_millis 1"
  obtain inner' counter' where
    run: "tcp_call cl slave req ((inner, counter), attempts) = Some (Inr rsp, (inner', counter'), plan)"
      "sent (in_stream inner') = sent conn @
         [encode_tcp_frame (slave # request_pdu req) [] (tc_config cl) (fst (next_tid (tid_mode (tc_config cl)) counter))]"
    and time: "clock (in_stream inner') = answered_at (tc_config cl) ?start (?start + tc_timeout cl) ps"
    unfolding now_def attempts_def
    by (rule tcp_recovers [OF assms(1) False gone assms(2) closed assms(8-10) assms(11,12) [unfolded now_def]
          assms(13-17) assms(18) [unfolded now_def]]) assumption
  have "?start \<le> after_reads ?start ps" by (rule after_reads_ge)
  moreover have "after_reads ?start ps < ?start + tc_timeout cl"
    using assms(12,13) by (intro after_reads_less) simp_all
  ultimately have "now < clock (in_stream inner')" "clock (in_stream inner') \<le> ?start + tc_timeout cl"
    using assms(18) by (auto simp: time answered_at_def cut_short_def from_millis_def split: LengthMode.split)
  with run False show ?thesis by auto
qed

theorem tcp_reconnect_recovers_witness:
  "\<exists>inner' counter'.
     tcp_call \<lparr> tc_timeout = from_secs 1, tc_reconnect = Some (reconnect_new 3 (from_millis 10)), tc_config = config_standard,
         tc_tap = False, tc_bus_timing = None \<rparr> 9 (Request.WriteSingleRegister 1 7)
       ((inner_new (silent_line \<lparr> arrivals := [(0, Data [])] \<rparr>), 1),
        [(from_millis 3, Some (silent_line \<lparr> arrivals := [(0, Data [])] \<rparr>)),
         (from_millis 4, Some (silent_line \<lparr> arrivals :=
            data_arrivals [(from_millis 50, [0, 0, 0, 0, 0, 6, 9, 6]), (from_millis 60, [0, 1, 0, 7])] \<rparr>))])
       = Some (Inr (Response.WriteSingleRegister 1 7), (inner', counter'), [])
     \<and> sent (in_stream inner') = [encode_tcp_frame (9 # request_pdu (Request.WriteSingleRegister 1 7)) [] config_standard 0]
     \<and> from_millis 27 < clock (in_stream inner')"
proof -
  let ?rsp = "Response.WriteSingleRegister 1 7" and ?req = "Request.WriteSingleRegister 1 7"
  let ?cl = "\<lparr> tc_timeout = from_secs 1, tc_reconnect = Some (reconnect_new 3 (from_millis 10)), tc_config = config_standard,
         tc_tap = False, tc_bus_timing = None \<rparr>"
  let ?ps = "[(from_millis 50, [0, 0, 0, 0, 0, 6, 9, 6]), (from_millis 60, [0, 1, 0, 7])] :: (nat \<times> bytes) list"
  let ?dead = "silent_line \<lparr> arrivals := [(0, Data [])] \<rparr>" and ?conn = "silent_line \<lparr> arrivals := data_arrivals ?ps \<rparr>"
  have rsp: "response_try_from (response_pdu ?rsp) = Ok ?rsp"
    using response_view_roundtrip [of ?rsp "[]"] by simp
  have frame: "joined ?ps = encode_tcp_frame (9 # response_pdu ?rsp) [] (tc_config ?cl) 0"
    by (simp add: encode_tcp_mbap config_standard_shape mbap_def hi8_def lo8_def)
  let ?gone = "[(from_millis 3, ?dead)]"
  let ?now = "clock (in_stream (inner_new ?dead)) + Suc (length ?gone) * interval (reconnect_new 3 (from_millis 10))
      + sum_list (map fst ?gone) + from_millis 4"
  have now: "?now = from_millis 27" by (simp add: silent_line_def reconnect_new_def from_millis_def)
  have drain: "after_drain (?conn \<lparr> clock := ?now \<rparr>) ?ps" unfolding now by (simp add: after_drain_def from_millis_def)
  have timely: "timely (?now + from_millis 1 + tc_timeout ?cl) ?ps" unfolding now by (simp add: from_millis_def from_secs_def)
  have tap: "tc_tap ?cl \<longleftrightarrow> 0 < tap_count (in_stream (inner_new ?dead))" by (simp add: silent_line_def tap_count_def)
  have "tc_reconnect ?cl = Some (reconnect_new 3 (from_millis 10))"
    "max_retries (reconnect_new 3 (from_millis 10)) = 0 \<or> Suc (length ?gone) \<le> unat (max_retries (reconnect_new 3 (from_millis 10)))"
    "arrivals (in_stream (inner_new ?dead)) = [(0, Data [])]" "\<forall>(took, conn) \<in> set ?gone. arrivals conn = [(0, Data [])] \<and> layers conn = []"
    "arrivals ?conn = data_arrivals ?ps" "write_plan ?conn = []" "0 < tc_timeout ?cl" "request_fits ?req"
    "length (response_pdu ?rsp) \<le> 253" "\<not> cut_short (tc_config ?cl) (?now + from_millis 1) ?ps"
    by (simp_all add: silent_line_def reconnect_new_def from_secs_def cut_short_def config_standard_shape)
  note recovered = tcp_reconnect_recovers [OF this(1-3) tap this(4,5) frame this(6) drain timely this(7-9) rsp refl this(10),
      of 1 "[]"]
  have sent: "sent ?conn = []" "fst (next_tid (tid_mode config_standard) 1) = 0" "tc_config ?cl = config_standard"
    by (simp_all add: silent_line_def config_standard_shape next_tid_def)
  have "tc_tap ?cl = False" by simp
  from recovered [unfolded this if_False] obtain inner' counter' where
    "tcp_call ?cl 9 ?req ((inner_new ?dead, 1), map (\<lambda>(took, conn). (took, Some conn)) ?gone @ (from_millis 4, Some ?conn) # [])
       = Some (Inr ?rsp, (inner', counter'), [])"
    "sent (in_stream inner') = sent ?conn @
         [encode_tcp_frame (9 # request_pdu ?req) [] (tc_config ?cl) (fst (next_tid (tid_mode (tc_config ?cl)) 1))]"
    "?now < clock (in_stream inner')"
    by blast
  then show ?thesis unfolding now sent append_Nil by (intro exI conjI) simp_all
qed

text \<open>
  C32. The RTU and the ASCII server in time, on any line and with any service: \<open>serve_forever\<close>
  returns with a log of its reads and replies.  Its reads are those of the line: everything that
  arrived, in order and in parts of at most 256 bytes, each as soon as it is there and the server
  reads, and a time-out exactly when its time is up with nothing there; what is not read is still on
  the line, and nothing is when the server still serves.  On those reads it does what the untimed
  server does.  Whenever it reads, it has spoken all its replies to what it has heard, no complete
  frame is in its buffer, and it reads with a time-out only when the buffer is not empty.  It sent
  exactly what it spoke and never panics; and with a bus timing configured no frame is spoken less
  than the timing's spacing after anything heard or spoken before, as long as the clock of the
  timing, microseconds in a \<open>u64\<close>, does not wrap.
\<close>

theorem serial_servers_in_time:
  fixes s :: 's and st :: stream
  defines "start \<equiv> server_new s \<lparr> sv_writes := write_plan st \<rparr>"
  shows "(\<exists>ln. rtu_serve_forever sc svc st s = Some ln
      \<and> log_run (rtu_read_timeout sc) (clock st, line_units st) (ln_log ln) = Some (clock (ln_stream ln), line_units (ln_stream ln))
      \<and> (sv_status (ln_server ln) = Serving \<longrightarrow> sv_buf (ln_server ln) = [] \<and> line_units (ln_stream ln) = [])
      \<and> rtu_serve svc (heard (ln_log ln)) start = Some (ln_server ln)
      \<and> answers (rtu_serve svc) (\<lambda>buf. try_parse_server_rtu buf = None) start (ln_log ln)
      \<and> sent (ln_stream ln) = sent st @ spoken (ln_log ln) \<and> spoken (ln_log ln) = sv_out (ln_server ln)
      \<and> sv_status (ln_server ln) \<noteq> Panicked
      \<and> (srv_bus_timing sc = Some timing \<and> as_micros (clock (ln_stream ln)) < 2 ^ 64 \<longrightarrow>
           spaced (unat (min_spacing_us timing)) (ln_log ln)))
   \<and> (\<exists>ln. ascii_serve_forever sc svc st s = Some ln
      \<and> log_run (ascii_read_timeout sc) (clock st, line_units st) (ln_log ln) = Some (clock (ln_stream ln), line_units (ln_stream ln))
      \<and> (sv_status (ln_server ln) = Serving \<longrightarrow> sv_buf (ln_server ln) = [] \<and> line_units (ln_stream ln) = [])
      \<and> ascii_serve svc (heard (ln_log ln)) start = Some (ln_server ln)
      \<and> answers (ascii_serve svc) (\<lambda>buf. try_parse_ascii buf = None) start (ln_log ln)
      \<and> sent (ln_stream ln) = sent st @ spoken (ln_log ln) \<and> spoken (ln_log ln) = sv_out (ln_server ln)
      \<and> sv_status (ln_server ln) \<noteq> Panicked
      \<and> (srv_bus_timing sc = Some timing \<and> as_micros (clock (ln_stream ln)) < 2 ^ 64 \<longrightarrow>
           spaced (unat (min_spacing_us timing)) (ln_log ln)))"
proof -
  note rtu = rtu_line.line_forever [OF rtu.no_frame_in_empty, of svc "rtu_read_timeout sc" sc st s,
      folded rtu_serve_forever_def start_def, unfolded rtu_parse_def option.map_disc_iff]
  note ascii = ascii_line.line_forever [OF ascii.no_frame_in_empty, of svc "ascii_read_timeout sc" sc st s,
      folded ascii_serve_forever_def start_def, unfolded ascii_parse_def option.map_disc_iff]
  show ?thesis using rtu ascii by blast
qed

theorem serial_servers_in_time_witness:
  "\<exists>ln. rtu_serve_forever (server_with_bus_timing rtu_server_new (rtu_35t 9600)) store_service
         (silent_line \<lparr> arrivals := [(from_micros 1000, Data (encode_rtu_frame (9 # request_pdu (Request.WriteSingleCoil 3 True)) []))] \<rparr>)
         store_new = Some ln
     \<and> ln_log ln = [(from_micros 1000, Heard (Got (encode_rtu_frame (9 # request_pdu (Request.WriteSingleCoil 3 True)) []))),
                    (from_micros 5010, Spoke (encode_rtu_frame (9 # response_pdu (Response.WriteSingleCoil 3 True)) []))]
     \<and> spaced 4010 (ln_log ln)
     \<and> sent (ln_stream ln) = [encode_rtu_frame (9 # response_pdu (Response.WriteSingleCoil 3 True)) []]"
proof -
  let ?sc = "server_with_bus_timing rtu_server_new (rtu_35t 9600)"
  let ?f = "encode_rtu_frame (9 # request_pdu (Request.WriteSingleCoil 3 True)) []"
  let ?st = "silent_line \<lparr> arrivals := [(from_micros 1000, Data ?f)] \<rparr>"
  have sc: "srv_bus_timing ?sc = Some (rtu_35t 9600)" by (simp add: server_with_bus_timing_def)
  have gap: "unat (min_spacing_us (rtu_35t 9600)) = 4010" by (simp add: unat_rtu_35t)
  have dec: "request_try_from (request_pdu (Request.WriteSingleCoil 3 True)) = Ok (Request.WriteSingleCoil 3 True)"
    using request_pdu_decodes [of "Request.WriteSingleCoil 3 True" "[]"] by simp
  have st: "arrivals ?st = [(from_micros 1000, Data ?f)]" "write_plan ?st = []" "layers ?st = []" "clock ?st \<le> from_micros 1000"
    by (simp_all add: silent_line_def)
  have "from_micros 1000 + min_spacing (rtu_35t 9600) = from_micros 5010"
    using gap by (simp add: min_spacing_def from_micros_def)
  then obtain ln where ln: "rtu_serve_forever ?sc store_service ?st store_new = Some ln"
    "ln_log ln = [(from_micros 1000, Heard (Got ?f)), (from_micros 5010, Spoke (encode_rtu_frame (9 # response_pdu (Response.WriteSingleCoil 3 True)) []))]"
    "clock (ln_stream ln) = from_micros 5010"
    using rtu_request_in_time [OF sc st _ dec _ store_new_bounded] by (auto simp: reply_of_def from_micros_def as_micros_def)
  have "as_micros (clock (ln_stream ln)) < 2 ^ 64"
    by (simp add: ln(3) from_micros_def as_micros_def)
  moreover have "sent ?st @ spoken (ln_log ln) = [encode_rtu_frame (9 # response_pdu (Response.WriteSingleCoil 3 True)) []]"
    by (simp add: ln(2) spoken_def silent_line_def)
  ultimately show ?thesis
    using serial_servers_in_time [where s = store_new and st = ?st and sc = ?sc and svc = store_service and timing = "rtu_35t 9600"]
      sc ln gap by fastforce
qed

section \<open>Capture\<close>

text \<open>
  C33. The recorders keep exactly the last records, in order: the bounded bus capture and the ring
  buffer as many as their capacity (at least one), the unbounded ones all.  Modulo \<open>2 ^ 64\<close>, the
  counters of the bus capture in every mode, and those of the traffic statistics, advance by the
  number of events of each kind, and the drop counters of the bounded recorders by the events that
  are no longer recorded.
\<close>

theorem recorders_keep_last:
  "bus_snapshot (fold bus_tap evs (bus_bounded n)) = keep_last (max n 1) (map event_packet evs)
   \<and> rb_records (fold ring_tap evs (ring_new n)) = keep_last (max n 1) (map event_packet evs)
   \<and> bus_snapshot (fold bus_tap evs bus_unbounded) = map event_packet evs
   \<and> fold capture_tap evs [] = map event_packet evs
   \<and> bc_requests (fold bus_tap evs c) = bc_requests c + of_nat (length (filter (\<lambda>ev. \<exists>bs ts. ev = OnWrite bs ts) evs))
   \<and> bc_responses (fold bus_tap evs c) = bc_responses c + of_nat (length (filter (\<lambda>ev. \<exists>bs ts. ev = OnRead bs ts) evs))
   \<and> bc_errors (fold bus_tap evs c) = bc_errors c + of_nat (length (filter (\<lambda>ev. \<exists>bs e ts. ev = OnError bs e ts) evs))
   \<and> ts_requests (fold stats_tap evs stats) = ts_requests stats + of_nat (length (filter (\<lambda>ev. \<exists>bs ts. ev = OnWrite bs ts) evs))
   \<and> ts_responses (fold stats_tap evs stats) = ts_responses stats + of_nat (length (filter (\<lambda>ev. \<exists>bs ts. ev = OnRead bs ts) evs))
   \<and> ts_errors (fold stats_tap evs stats) = ts_errors stats + of_nat (length (filter (\<lambda>ev. \<exists>bs e ts. ev = OnError bs e ts) evs))
   \<and> bc_dropped (fold bus_tap evs (bus_bounded n)) = of_nat (length evs - max n 1)
   \<and> rb_dropped (fold ring_tap evs (ring_new n)) = of_nat (length evs - max n 1)
   \<and> bc_dropped (fold bus_tap evs bus_unbounded) = 0"
proof -
  have bus: "bus_wf (bus_bounded n)" "bus_room (bus_bounded n) = Some (max n 1)" "bus_snapshot (bus_bounded n) = []"
    "bc_dropped (bus_bounded n) = 0"
    by (simp_all add: bus_wf_def bus_room_def bus_snapshot_def bus_bounded_def Let_def less_max_iff_disj)
  have ring: "ring_wf (ring_new n)" "ring_room (ring_new n) = Some (max n 1)" "rb_records (ring_new n) = []" "rb_dropped (ring_new n) = 0"
    by (simp_all add: ring_wf_def ring_room_def ring_new_def Let_def less_max_iff_disj)
  have kept: "bus_snapshot (fold bus_tap evs (bus_bounded n)) = keep_last (max n 1) (map event_packet evs)"
    "rb_records (fold ring_tap evs (ring_new n)) = keep_last (max n 1) (map event_packet evs)"
    using bus.contents_fold [OF bus(1), of evs] ring.contents_fold [OF ring(1), of evs] by (simp_all add: bus ring)
  have rest: "d = of_nat (k - m)" if "d + of_nat (min m k) = (of_nat k :: u64)" for d k m
  proof (cases "k \<le> m")
    case False
    then have "of_nat (k - m) = (of_nat k - of_nat m :: u64)" by (simp add: of_nat_diff)
    with that False show ?thesis by (simp add: eq_diff_eq)
  qed (use that in simp)
  have dropped: "bc_dropped (fold bus_tap evs (bus_bounded n)) = of_nat (length evs - max n 1)"
    "rb_dropped (fold ring_tap evs (ring_new n)) = of_nat (length evs - max n 1)"
    using bus_counts.dropped_fold [OF bus(1), of evs] ring_counts.dropped_fold [OF ring(1), of evs]
    by - (rule rest, simp add: kept bus ring length_keep_last)+
  from kept dropped bus_counts_fold [of evs c] stats_counts_fold [of evs stats] recorders_all [of evs] bus_dropped_unbounded [of evs]
    capture.contents_fold [where s = "[]", of evs]
  show ?thesis by (simp only: kept.simps append_Nil simp_thms)
qed

text \<open>
  C34. Sending a chunk on the proxy's channel evicts the oldest chunks until it fits, keeps the
  channel within its capacity and counts every byte lost; a chunk larger than the capacity empties
  the channel and is lost itself.
\<close>

theorem channel_send_exact:
  assumes "ch_wf ch"
  shows "queue (snd (ch_send ch chunk)) =
           (if length chunk \<le> capacity ch then fit_suffix (capacity ch) (length chunk) (queue ch) @ [chunk] else [])
    \<and> ch_wf (snd (ch_send ch chunk))
    \<and> dropped_bytes (snd (ch_send ch chunk)) + total_bytes (snd (ch_send ch chunk))
        = dropped_bytes ch + total_bytes ch + length chunk"
  using ch_send_effect [OF _ assms, of chunk "fst (ch_send ch chunk)" "snd (ch_send ch chunk)"] by simp

theorem channel_send_exact_witness:
  "queue (snd (ch_send (channel_new 4 \<lparr> queue := [[1, 2, 3 :: u8]], total_bytes := 3 \<rparr>) [4, 5])) = [[4, 5]]"
proof -
  have "ch_wf (channel_new 4 \<lparr> queue := [[1, 2, 3 :: u8]], total_bytes := 3 \<rparr>)" by (simp add: ch_wf_def channel_new_def)
  from channel_send_exact [OF this, of "[4, 5]"] show ?thesis by (simp add: channel_new_def)
qed

text \<open>
  C35. However reader, tap and caller interleave, the caller gets the transport's bytes in order:
  what it was given, then what is still buffered, is what arrived less the bytes counted as
  dropped.  Without drops it is exactly what arrived, and nothing is dropped as long as the channel
  has room for all of it.
\<close>

theorem proxy_delivers_in_order:
  assumes "sniffs tap data_cap tap_cap t s arrived delivered written"
  shows "subseq (delivered @ undelivered s) arrived
    \<and> length arrived = length (delivered @ undelivered s) + dropped_bytes (data_channel s)
    \<and> (dropped_bytes (data_channel s) = 0 \<longrightarrow> arrived = delivered @ undelivered s)
    \<and> (length arrived \<le> data_cap \<longrightarrow> dropped_bytes (data_channel s) = 0)"
  using sniffs_accounted [OF assms] subseq_same_length [of "delivered @ undelivered s" arrived] sniffs_no_drop [OF assms]
  by (auto simp: accounted_def)

theorem proxy_delivers_in_order_witness:
  "subseq ([1, 2] @ undelivered (snd (poll_read 2 (active_reader (Data [1, 2, 3]) (proxy_start 8 8 ())))))
     ([] @ arrived_bytes (Data [1, 2, 3]))"
proof -
  define s where "s = active_reader (Data [1, 2, 3]) (proxy_start 8 8 ())"
  have run: "sniffs (\<lambda>ev t. t) 8 8 () s ([] @ arrived_bytes (Data [1, 2, 3])) [] []"
    unfolding s_def by (rule sniffs.arrive [OF sniffs.start]) (simp add: proxy_start_def)
  have "poll_read 2 s = (ReadyOk [1, 2], snd (poll_read 2 s))"
    by (simp add: s_def active_reader_def proxy_start_def channel_new_def ch_send.simps poll_read_def ch_poll_recv_def Let_def)
  from proxy_delivers_in_order [OF sniffs.deliver [OF run this], THEN conjunct1]
  show ?thesis by (simp only: s_def append_Nil)
qed

text \<open>
  C36. A bus capture on the proxy, however reader, tap, and the caller's reads and writes interleave:
  its sent records are exactly the writes in order; its received records, then what waits in the tap
  channel, are what arrived in order, less the bytes counted as dropped there, none as long as the
  channel has room for all of it; the counters are the numbers of those records, and no error is
  ever recorded.
\<close>

theorem capture_sees_traffic:
  assumes "sniffs bus_tap data_cap tap_cap bus_unbounded s arrived delivered written"
  defines "rs \<equiv> bus_snapshot (tap_state s)"
  shows "sent_records rs = written \<and> bc_requests (tap_state s) = of_nat (length written)
    \<and> subseq (concat (received_records rs) @ concat (queue (tap_channel s))) arrived
    \<and> length arrived = length (concat (received_records rs)) + length (concat (queue (tap_channel s))) + dropped_bytes (tap_channel s)
    \<and> (length arrived \<le> tap_cap \<longrightarrow> dropped_bytes (tap_channel s) = 0)
    \<and> bc_responses (tap_state s) = of_nat (length (received_records rs)) \<and> bc_errors (tap_state s) = 0"
proof -
  obtain seen where seen: "tapped bus_tap bus_unbounded seen s arrived written"
    using sniffs_tapped [OF assms(1)] by blast
  have rs: "rs = map event_packet seen"
    using recorders_all [of seen] seen by (simp add: rs_def tapped_def)
  have "sent_records rs = writes_seen seen" "received_records rs = reads_seen seen"
    unfolding rs by (rule records_of_events)+
  with seen seen_counts [of seen] sniffs_no_drop [OF assms(1)] show ?thesis by (simp add: tapped_def)
qed

theorem capture_sees_traffic_witness:
  "sent_records (bus_snapshot (tap_state (tap_write bus_tap 7 (take 2 [8, 9]) (active_reader (Data [1, 2, 3]) (proxy_start 8 8 bus_unbounded))))) = [[8, 9]]"
proof -
  let ?s = "active_reader (Data [1, 2, 3]) (proxy_start 8 8 bus_unbounded)"
  have "sniffs bus_tap 8 8 bus_unbounded ?s ([] @ arrived_bytes (Data [1, 2, 3])) [] []"
    by (rule sniffs.arrive [OF sniffs.start]) (simp add: proxy_start_def)
  from capture_sees_traffic [OF sniffs.accept [OF this, of 2 "[8, 9]" 7]] show ?thesis by simp
qed

text \<open>
  C37. The bus monitor of \<open>examples/bus_monitor.rs\<close> over TCP, in any framing and with the replies in
  any pieces: the program runs to its end and puts its nine requests on the wire, each in one write; whenever the proxy
  has written them, whatever it has heard by then, the capture holds exactly these nine frames in
  order, and the report counts nine requests, as many responses as there are records of them, no
  error (the two reads that are announced as errors succeed), and prints a line for every record.
\<close>

theorem bus_monitor_captured:
  assumes "tcp_delivers config timeout pieces"
    and "bus_monitor_main (tcp_session config store_service timeout pieces) (bus_monitor_store, 1, []) = (r, s', c, wire)"
    and "sniffs bus_tap data_cap tap_cap bus_unbounded p arrived delivered wire"
  defines "rp \<equiv> bus_monitor_report (tap_state p)"
  shows "r = Inr bus_monitor_output \<and> wire = wire_of config bus_monitor_requests
    \<and> sent_records (bus_snapshot (tap_state p)) = wire \<and> mr_requests rp = 9 \<and> mr_tx rp = 9
    \<and> mr_responses rp = of_nat (mr_rx rp) \<and> mr_errors rp = 0 \<and> mr_err rp = 0 \<and> mr_dropped rp = 0
    \<and> length (mr_dump rp) = 9 + mr_rx rp"
proof -
  have run: "r = Inr bus_monitor_output" "wire = wire_of config bus_monitor_requests"
    using bus_monitor_session [OF assms(1)] by (simp_all add: assms(2))
  then have nine: "length wire = 9" by (simp add: wire_of_def bus_monitor_requests_def)
  show ?thesis
    unfolding report_of_run [OF assms(3), folded rp_def] nine by (simp only: run of_nat_numeral simp_thms)
qed

theorem bus_monitor_captured_witness:
  "\<exists>p :: BusCapture Sniffing. sent_records (bus_snapshot (tap_state p)) = wire_of config_standard bus_monitor_requests
     \<and> mr_requests (bus_monitor_report (tap_state p)) = 9"
proof -
  let ?link = "tcp_session config_standard store_service (from_secs 3) (byte_by_byte (from_millis 2) 90000)"
  have d: "tcp_delivers config_standard (from_secs 3) (byte_by_byte (from_millis 2) 90000)"
    unfolding tcp_delivers_def
    by (intro conjI byte_by_byte_delivers)
      (simp_all add: MAX_FRAME_BYTES_def from_millis_def from_secs_def config_standard_shape)
  obtain r s' c wire where run: "bus_monitor_main ?link (bus_monitor_store, 1, []) = (r, s', c, wire)"
    by (cases "bus_monitor_main ?link (bus_monitor_store, 1, [])") auto
  with bus_monitor_session(2) [OF d] have wire: "wire = wire_of config_standard bus_monitor_requests" by simp
  then have "\<forall>w \<in> set wire. w \<noteq> []" by (auto dest: wire_of_nonempty)
  then obtain p where "sniffs bus_tap 8 8 bus_unbounded p [] [] wire" by (rule writes_run [THEN exE])
  from bus_monitor_captured [OF d run this] have "sent_records (bus_snapshot (tap_state p)) = wire"
    "mr_requests (bus_monitor_report (tap_state p)) = 9" by simp_all
  then show ?thesis unfolding wire by blast
qed

text \<open>
  C38. When a tapped transport ends, the first read of a caller with nothing buffered gives an
  unexpected end, which the reconnect loop does not retry; only the read after it gives the broken
  pipe that it would.
\<close>

theorem tapped_eof_not_retried:
  assumes "\<not> reader_finished s" "pending s = None" "queue (data_channel s) = []" "ch_error (data_channel s) = None"
    and "\<not> closed (data_channel s)"
  shows "\<exists>e1 e2. fst (poll_read room (active_reader (Data []) s)) = ReadyErr e1 \<and> \<not> is_retryable (from_io_error e1)
    \<and> fst (poll_read room (snd (poll_read room (active_reader (Data []) s)))) = ReadyErr e2 \<and> is_retryable (from_io_error e2)"
  using eof_sequence [OF assms] by (simp add: retryable_io_error)

theorem tapped_eof_not_retried_witness:
  "\<exists>e1 e2. fst (poll_read 16 (active_reader (Data []) (proxy_start 8 8 ()))) = ReadyErr e1 \<and> \<not> is_retryable (from_io_error e1)
    \<and> fst (poll_read 16 (snd (poll_read 16 (active_reader (Data []) (proxy_start 8 8 ()))))) = ReadyErr e2 \<and> is_retryable (from_io_error e2)"
  by (rule tapped_eof_not_retried) (simp_all add: proxy_start_def channel_new_def)

section \<open>Time stamps and the file recorder\<close>

text \<open>
  C39. A time stamp before the year 10000 is written in 26 characters that determine it: year,
  month and day of the Gregorian calendar, time of day and microseconds read back to it.
\<close>

theorem timestamp_roundtrip:
  assumes "unat ts < 253402300800000000"
  shows "length (format_timestamp ts) = 26 \<and> parse_timestamp (format_timestamp ts) = int (unat ts)"
  using assms by (rule format_timestamp_aux)

theorem timestamp_roundtrip_witness:
  "length (format_timestamp 951782400000001) = 26 \<and> parse_timestamp (format_timestamp 951782400000001) = 951782400000001"
  using timestamp_roundtrip [of 951782400000001] by simp

text \<open>
  C40. The lines the file recorder writes, and those still queued, are the formatted packets in
  order less some; while the file can be written their number and the drop count together are the
  number of packets, modulo 2^64.
\<close>

theorem file_recorder_in_order:
  "subseq (fr_written (fold file_step steps file_new) @ fr_queue (fold file_step steps file_new))
     (map format_record (packets_of steps))
   \<and> (Write False \<notin> set steps \<longrightarrow>
       of_nat (length (fr_written (fold file_step steps file_new)) + length (fr_queue (fold file_step steps file_new)))
         + fr_dropped (fold file_step steps file_new) = of_nat (length (packets_of steps)))"
proof -
  have "file_wf file_new" "fr_io file_new" by (simp_all add: file_wf_def file_new_def)
  note counts = file_counts_aux [OF this, of steps]
  show ?thesis using file_recorder_aux [of steps file_new] counts by (simp add: file_new_def)
qed

theorem file_recorder_in_order_witness:
  "of_nat (length (fr_written (fold file_step [Packet (packet 0 (RawTx [1])), Write True] file_new))
      + length (fr_queue (fold file_step [Packet (packet 0 (RawTx [1])), Write True] file_new)))
     + fr_dropped (fold file_step [Packet (packet 0 (RawTx [1])), Write True] file_new) = (1 :: u64)"
  using file_recorder_in_order [of "[Packet (packet 0 (RawTx [1])), Write True]"] by simp

end
